theory Spec2Isabelle
  imports Main "HOL-Library.Multiset" "HOL-Library.AList"
begin

section \<open>Card primitives (thpoker/core.py, class Card)\<close>

text \<open>
  Exceptions of the package are values: every \<open>raise\<close> of the source is an \<open>Inl\<close>
  branch of the model. \<open>ValueError\<close> is what Python's \<open>max\<close> raises on an empty
  argument; \<open>AbstractCardError\<close> stands for the \<open>AttributeError\<close> or \<open>TypeError\<close>
  that the engine raises when it reads \<open>.weight.number\<close>, \<open>.weight.symbol\<close> or
  \<open>.suit.symbol\<close> of a card whose weight or suit is \<open>None\<close>.
\<close>

datatype error =
    CardWeightSymbolError
  | CardSuitSymbolError
  | CardEmptySymbolError
  | ComboArgumentsError
  | ValueError
  | IndexError
  | AbstractCardError

text \<open>
  \<open>Card.Weight\<close>: one object per symbol of \<open>'123456789TJQKA'\<close>; \<open>number\<close> is the
  index of the symbol in that string, so \<open>'1'\<close> has number 0 and \<open>'A'\<close> number 13.
\<close>

datatype weight = W1 | W2 | W3 | W4 | W5 | W6 | W7 | W8 | W9 | WT | WJ | WQ | WK | WA

definition symbols :: string where
  "symbols = ''123456789TJQKA''"

definition weights :: "weight list" where
  "weights = [W1, W2, W3, W4, W5, W6, W7, W8, W9, WT, WJ, WQ, WK, WA]"

definition numbers :: "char \<Rightarrow> nat option" where
  "numbers = map_of (zip symbols [0..<14])"

fun number :: "weight \<Rightarrow> nat" where
  "number W1 = 0"
| "number W2 = 1"
| "number W3 = 2"
| "number W4 = 3"
| "number W5 = 4"
| "number W6 = 5"
| "number W7 = 6"
| "number W8 = 7"
| "number W9 = 8"
| "number WT = 9"
| "number WJ = 10"
| "number WQ = 11"
| "number WK = 12"
| "number WA = 13"

definition symbol :: "weight \<Rightarrow> char" where
  "symbol w = symbols ! number w"

text \<open>
  Modelled from the spec: \<open>CardSymbolValidator\<close> (module \<open>thpoker.validators\<close>, not among
  the sources) rejects a symbol that is not one of the class's \<open>symbols\<close> with the
  exception it was given; an accepted symbol reaches \<open>__init__\<close>, which looks its number
  up in \<open>numbers()\<close>.
\<close>

definition Weight :: "char \<Rightarrow> error + weight" where
  "Weight s = (case numbers s of
                 None \<Rightarrow> Inl CardWeightSymbolError
               | Some n \<Rightarrow> Inr (weights ! n))"

datatype suit = Clubs | Diamonds | Hearts | Spades

definition suit_symbols :: string where
  "suit_symbols = ''cdhs''"

definition Suit :: "char \<Rightarrow> error + suit" where
  "Suit s = (case map_of (zip suit_symbols [Clubs, Diamonds, Hearts, Spades]) s of
               None \<Rightarrow> Inl CardSuitSymbolError
             | Some x \<Rightarrow> Inr x)"

text \<open>
  A card has an optional weight, an optional suit (abstract cards lack one of them) and
  the \<open>in_hand\<close> attribute, \<open>False\<close> for every card until \<open>Hand.post_get_cards\<close> sets it.
\<close>

datatype card = MkCard (weight: "weight option") (suit: "suit option") (in_hand: bool)

text \<open>\<open>Card.__init__\<close> on its first positional argument (a string).\<close>

fun Card :: "string \<Rightarrow> error + card" where
  "Card (w # s # rest) =
     (case Weight w of
        Inl e \<Rightarrow> Inl e
      | Inr wt \<Rightarrow> (case Suit s of
                     Inl e \<Rightarrow> Inl e
                   | Inr su \<Rightarrow> Inr (MkCard (Some wt) (Some su) False)))"
| "Card [x] =
     (case Weight x of
        Inr wt \<Rightarrow> Inr (MkCard (Some wt) None False)
      | Inl e \<Rightarrow> (case Suit x of
                    Inl e' \<Rightarrow> Inl e'
                  | Inr su \<Rightarrow> Inr (MkCard None (Some su) False)))"
| "Card [] = Inl CardSuitSymbolError"

text \<open>The call \<open>Card(*args)\<close>: no positional argument raises \<open>CardEmptySymbolError\<close>.\<close>

fun Card_init :: "string list \<Rightarrow> error + card" where
  "Card_init [] = Inl CardEmptySymbolError"
| "Card_init (a # args) = Card a"

text \<open>
  The number of a card's weight. The engine reads it only from cards that have a weight
  (\<open>find_combo\<close> below fails first on any other card).
\<close>

definition card_number :: "card \<Rightarrow> nat" where
  "card_number c = number (the (weight c))"

text \<open>
  \<open>Card.__lt__\<close>, \<open>__gt__\<close>, \<open>__eq__\<close>, \<open>__ne__\<close>. Weights compare by \<open>number\<close>
  (\<open>Weight.__eq__\<close> and friends), suits by symbol. Equality looks at the weights when
  both cards have one, else at the suits.
\<close>

definition card_lt :: "card \<Rightarrow> card \<Rightarrow> bool" where
  "card_lt a b = (card_number a < card_number b)"

definition card_gt :: "card \<Rightarrow> card \<Rightarrow> bool" where
  "card_gt a b = (card_number a > card_number b)"

definition card_eq :: "card \<Rightarrow> card \<Rightarrow> bool" where
  "card_eq a b =
     (if weight a \<noteq> None \<and> weight b \<noteq> None then card_number a = card_number b
      else suit a = suit b)"

definition card_ne :: "card \<Rightarrow> card \<Rightarrow> bool" where
  "card_ne a b =
     (if weight a \<noteq> None \<and> weight b \<noteq> None then card_number a \<noteq> card_number b
      else suit a \<noteq> suit b)"

text \<open>\<open>item in list\<close> and \<open>list.count(item)\<close> of Python, over \<open>Card.__eq__\<close>.\<close>

definition card_in :: "card \<Rightarrow> card list \<Rightarrow> bool" where
  "card_in c xs = list_ex (\<lambda>y. card_eq y c) xs"

definition count_cards :: "card list \<Rightarrow> card \<Rightarrow> nat" where
  "count_cards xs c = length (filter (\<lambda>y. card_eq y c) xs)"

text \<open>\<open>max\<close> of Python on a list: \<open>ValueError\<close> when it is empty.\<close>

definition py_max :: "nat list \<Rightarrow> error + nat" where
  "py_max xs = (case xs of [] \<Rightarrow> Inl ValueError | x # rest \<Rightarrow> Inr (fold max rest x))"

text \<open>The slice \<open>xs[:n]\<close> of Python; a negative \<open>n\<close> counts from the end.\<close>

definition py_prefix :: "'a list \<Rightarrow> int \<Rightarrow> 'a list" where
  "py_prefix xs n = (if 0 \<le> n then take (nat n) xs else take (nat (int (length xs) + n)) xs)"

text \<open>The slice \<open>xs[-n:]\<close> of Python for \<open>n > 0\<close>: the last \<open>n\<close> items (all, if fewer).\<close>

definition py_suffix :: "'a list \<Rightarrow> nat \<Rightarrow> 'a list" where
  "py_suffix xs n = drop (length xs - n) xs"


section \<open>Card containers (classes Cards, Table, Hand)\<close>

text \<open>\<open>str.split('/')\<close>.\<close>

fun split_slash :: "string \<Rightarrow> string list" where
  "split_slash [] = [[]]"
| "split_slash (c # cs) =
     (if c = CHR ''/'' then [] # split_slash cs
      else (case split_slash cs of
              w # ws \<Rightarrow> (c # w) # ws
            | [] \<Rightarrow> [[c]]))"

text \<open>The list comprehension \<open>[Card(sign) for sign in ...]\<close>: the first exception ends it.\<close>

fun make_cards :: "string list \<Rightarrow> error + card list" where
  "make_cards [] = Inr []"
| "make_cards (sign # signs) =
     (case Card sign of
        Inl e \<Rightarrow> Inl e
      | Inr c \<Rightarrow> (case make_cards signs of
                    Inl e \<Rightarrow> Inl e
                  | Inr cs \<Rightarrow> Inr (c # cs)))"

text \<open>
  \<open>Cards.__init__(cards_string, max_cards_count)\<close>, returning the \<open>items\<close> of the new
  object. The argument is a string by its type here, so \<open>CardsStringTypeError\<close> has no
  branch; \<open>None\<close> and the empty string are both falsy.
\<close>

definition Cards_init :: "string option \<Rightarrow> nat \<Rightarrow> error + card list" where
  "Cards_init cards_string max_cards_count =
     (case cards_string of
        None \<Rightarrow> Inr []
      | Some s \<Rightarrow> if s = [] then Inr [] else make_cards (take max_cards_count (split_slash s)))"

definition Table_init :: "string option \<Rightarrow> error + card list" where
  "Table_init cards_string = Cards_init cards_string 5"

text \<open>The stable ascending sort of \<open>list.sort()\<close> under \<open>Card.__lt__\<close>.\<close>

definition sort_cards :: "card list \<Rightarrow> card list" where
  "sort_cards xs = sort_key card_number xs"

record hand =
  hand_items :: "card list"
  hand_type :: string
  is_pair :: bool

text \<open>
  \<open>Hand.post_get_cards\<close> and \<open>Hand.typing\<close>: the cards are marked, sorted and reversed;
  \<open>self.items[1]\<close> raises \<open>IndexError\<close> on a hand of one card.
\<close>

definition post_get_cards :: "hand \<Rightarrow> error + hand" where
  "post_get_cards h =
     (let items = rev (sort_cards (map (\<lambda>c. MkCard (weight c) (suit c) True) (hand_items h)))
      in if list_ex (\<lambda>c. weight c = None) items then Inl AbstractCardError
         else (case items of
            c0 # c1 # rest \<Rightarrow>
              (let t = [symbol (the (weight c0)), symbol (the (weight c1))]
               in if card_eq c0 c1
                  then Inr (h\<lparr>hand_items := items, hand_type := t, is_pair := True\<rparr>)
                  else if (suit c0 = None) \<noteq> (suit c1 = None) then Inl AbstractCardError
                  else Inr (h\<lparr>hand_items := items,
                             hand_type := t @ (if suit c0 = suit c1 then ''s'' else ''o'')\<rparr>))
          | _ \<Rightarrow> Inl IndexError))"

definition Hand_init :: "string option \<Rightarrow> error + hand" where
  "Hand_init cards_string =
     (case Cards_init cards_string 2 of
        Inl e \<Rightarrow> Inl e
      | Inr items \<Rightarrow>
          (let h = \<lparr>hand_items = items, hand_type = [], is_pair = False\<rparr>
           in if items \<noteq> [] then post_get_cards h else Inr h))"

section \<open>The repetition analyzer (class Combo.Repeats)\<close>

text \<open>
  \<open>BaseRepeats\<close>: the abstract cards seen so far and the dictionary \<open>all\<close> from a repeat
  count to the abstract cards with that count, kept as an association list in insertion
  order.
\<close>

record base_repeats =
  rep_cards :: "card list"
  rep_all :: "(nat \<times> card list) list"

record weight_repeats = base_repeats +
  four :: "card option"
  three :: "card option"
  double_three :: bool
  two :: "card option"
  double_two :: "card list option"
  triple_two :: bool

record suit_repeats = base_repeats +
  max_repeats :: nat
  five_or_more :: bool
  flush_card :: "card option"

definition WeightRepeats_init :: weight_repeats where
  "WeightRepeats_init =
     \<lparr>rep_cards = [], rep_all = [], four = None, three = None, double_three = False,
      two = None, double_two = None, triple_two = False\<rparr>"

definition SuitRepeats_init :: suit_repeats where
  "SuitRepeats_init =
     \<lparr>rep_cards = [], rep_all = [], max_repeats = 0, five_or_more = False, flush_card = None\<rparr>"

text \<open>The abstract cards \<open>Card(card.weight.symbol)\<close> and \<open>Card(card.suit.symbol)\<close>.\<close>

definition w_card :: "card \<Rightarrow> card" where
  "w_card c = MkCard (weight c) None False"

definition s_card :: "card \<Rightarrow> card" where
  "s_card c = MkCard None (suit c) False"

text \<open>
  The body of the inner loop of \<open>get_all_repeats\<close> for one abstract card and one of the
  two repeat tables: \<open>repeats[cnt].append(card)\<close>, or \<open>repeats[cnt] = [card]\<close> on
  \<open>KeyError\<close>.
\<close>

definition add_repeat ::
  "card list \<Rightarrow> card \<Rightarrow> 'a base_repeats_scheme \<Rightarrow> 'a base_repeats_scheme" where
  "add_repeat all_cards c r =
     (if card_in c (rep_cards r) then r
      else (let cnt = count_cards all_cards c
            in r\<lparr>rep_all :=
                   (case map_of (rep_all r) cnt of
                      Some l \<Rightarrow> AList.update cnt (l @ [c]) (rep_all r)
                    | None \<Rightarrow> AList.update cnt [c] (rep_all r)),
                 rep_cards := rep_cards r @ [c]\<rparr>))"

definition get_all_repeats ::
  "card list \<Rightarrow> weight_repeats \<times> suit_repeats \<Rightarrow> weight_repeats \<times> suit_repeats" where
  "get_all_repeats all_cards ws =
     fold (\<lambda>c (w, s). (add_repeat all_cards (w_card c) w, add_repeat all_cards (s_card c) s))
       all_cards ws"

text \<open>
  \<open>WeightRepeats.get_repeat_kind\<close>. Every list stored in \<open>all\<close> has at least one item
  (a key is created with a one-item list), so \<open>[0]\<close> and \<open>[-1]\<close> read an item;
  \<open>[-2]\<close> is read only when the list has two items.
\<close>

definition get_repeat_kind :: "weight_repeats \<Rightarrow> weight_repeats" where
  "get_repeat_kind r =
     (case map_of (rep_all r) 4 of
        Some l4 \<Rightarrow> r\<lparr>four := Some (hd l4)\<rparr>
      | None \<Rightarrow>
         (case map_of (rep_all r) 3 of
            Some l3 \<Rightarrow>
              (let r1 = r\<lparr>three := Some (last l3)\<rparr>;
                   r2 = (case map_of (rep_all r) 2 of
                           Some l2 \<Rightarrow> r1\<lparr>two := Some (last l2)\<rparr>
                         | None \<Rightarrow> r1)
               in if length l3 = 2
                  then r2\<lparr>two := Some (l3 ! (length l3 - 2)), double_three := True\<rparr>
                  else r2)
          | None \<Rightarrow>
             (case map_of (rep_all r) 2 of
                Some l2 \<Rightarrow>
                  (if length l2 > 1
                   then (let r1 = r\<lparr>double_two := Some (py_suffix l2 2)\<rparr>
                         in if length l2 = 3 then r1\<lparr>triple_two := True\<rparr> else r1)
                   else r\<lparr>two := Some (last l2)\<rparr>)
              | None \<Rightarrow> r)))"

text \<open>\<open>SuitRepeats.flush_or_not\<close>: \<open>max(self.all)\<close> is the largest key.\<close>

definition flush_or_not :: "suit_repeats \<Rightarrow> error + suit_repeats" where
  "flush_or_not r =
     (case py_max (map fst (rep_all r)) of
        Inl e \<Rightarrow> Inl e
      | Inr m \<Rightarrow> Inr (r\<lparr>max_repeats := m, five_or_more := (m \<ge> 5),
                       flush_card := Some (hd (the (map_of (rep_all r) m)))\<rparr>))"

text \<open>\<open>Repeats.__init__\<close>.\<close>

definition Repeats_init :: "card list \<Rightarrow> error + (weight_repeats \<times> suit_repeats)" where
  "Repeats_init cs =
     (case get_all_repeats cs (WeightRepeats_init, SuitRepeats_init) of
        (w, s) \<Rightarrow> (case flush_or_not s of
                     Inl e \<Rightarrow> Inl e
                   | Inr s' \<Rightarrow> Inr (get_repeat_kind w, s')))"


section \<open>The sequence analyzer (class Combo.Sequence)\<close>

record sequence =
  order_cards :: "card list option"
  five_in_a_row :: bool
  max_in_a_row :: nat
  seq_cards :: "card list"

text \<open>\<open>one_more_ace\<close>: a copy of the last ace, with weight \<open>'1'\<close>, goes to the front.\<close>

definition one_more_ace :: "card list \<Rightarrow> card list" where
  "one_more_ace cs =
     (let ace = last (filter (\<lambda>c. card_eq c (MkCard (Some WA) None False)) cs)
      in MkCard (Some W1) (suit ace) (in_hand ace) # cs)"

text \<open>
  \<open>get_rank\<close>: fourteen abstract cards, one per weight symbol, each replaced by the last
  card of that weight; then reversed, so that index \<open>i\<close> holds number \<open>13 - i\<close>.
\<close>

definition get_rank :: "card list \<Rightarrow> card list" where
  "get_rank cs =
     rev (fold (\<lambda>c rank. rank[card_number c := c]) cs
            (map (\<lambda>w. MkCard (Some w) None False) weights))"

text \<open>
  The loop of \<open>find_order\<close> over the remaining indices, with the loop variables
  \<open>base\<close>, \<open>cards_in_a_row\<close> and \<open>history\<close>; it returns \<open>five_in_a_row\<close>,
  \<open>order_cards\<close> and \<open>history\<close>. The \<open>break\<close> is the branch without a recursive call.
\<close>

fun find_order_loop ::
  "card list \<Rightarrow> nat list \<Rightarrow> nat \<Rightarrow> nat \<Rightarrow> nat list \<Rightarrow> bool \<times> card list option \<times> nat list" where
  "find_order_loop rank [] base cards_in_a_row history = (False, None, history)"
| "find_order_loop rank (i # is) base cards_in_a_row history =
     (if suit (rank ! i) \<noteq> None
      then (if cards_in_a_row + 1 = 5
            then (True, Some (take 5 (drop base rank)), history @ [cards_in_a_row + 1])
            else find_order_loop rank is base (cards_in_a_row + 1)
                   (history @ [cards_in_a_row + 1]))
      else find_order_loop rank is (i + 1) 0 history)"

definition find_order :: "card list \<Rightarrow> error + sequence" where
  "find_order cs =
     (case find_order_loop (get_rank cs) [0..<14] 0 0 [] of
        (found, oc, history) \<Rightarrow>
          (case py_max history of
             Inl e \<Rightarrow> Inl e
           | Inr m \<Rightarrow> Inr \<lparr>order_cards = oc, five_in_a_row = found, max_in_a_row = m,
                            seq_cards = cs\<rparr>))"

definition Sequence_init :: "card list \<Rightarrow> error + sequence" where
  "Sequence_init cs =
     find_order (if card_in (MkCard (Some WA) None False) cs then one_more_ace cs else cs)"

section \<open>Combinations (class Combo)\<close>

definition HIGH_CARD :: nat where "HIGH_CARD = 1"
definition ONE_PAIR :: nat where "ONE_PAIR = 2"
definition TWO_PAIRS :: nat where "TWO_PAIRS = 3"
definition THREE_OF_A_KIND :: nat where "THREE_OF_A_KIND = 4"
definition STRAIGHT :: nat where "STRAIGHT = 5"
definition FLUSH :: nat where "FLUSH = 6"
definition FULL_HOUSE :: nat where "FULL_HOUSE = 7"
definition FOUR_OF_A_KIND :: nat where "FOUR_OF_A_KIND = 8"
definition STRAIGHT_FLUSH :: nat where "STRAIGHT_FLUSH = 9"

lemmas combo_types =
  HIGH_CARD_def ONE_PAIR_def TWO_PAIRS_def THREE_OF_A_KIND_def STRAIGHT_def FLUSH_def
  FULL_HOUSE_def FOUR_OF_A_KIND_def STRAIGHT_FLUSH_def

text \<open>
  The attributes of a \<open>Combo\<close>. \<open>combo_type\<close> is \<open>None\<close> until \<open>find_combo\<close> sets it;
  \<open>cards\<close> are the \<open>items\<close> of the \<open>Combo.Cards\<close> object.
\<close>

record combo =
  init_cards :: "card list"
  w_repeats :: weight_repeats
  s_repeats :: suit_repeats
  sequence :: sequence
  combo_type :: "nat option"
  cards :: "card list"
  is_real :: bool
  is_nominal :: bool
  is_half_nominal :: bool

text \<open>\<open>Combo.Cards.compare\<close>: the first pair of unequal cards decides, else the
  argument \<open>even\<close> (here \<open>evn\<close>).\<close>

datatype condition = LT | GT | EQ | NE

fun eval_condition :: "condition \<Rightarrow> card \<Rightarrow> card \<Rightarrow> bool" where
  "eval_condition LT a b = card_lt a b"
| "eval_condition GT a b = card_gt a b"
| "eval_condition EQ a b = card_eq a b"
| "eval_condition NE a b = card_ne a b"

fun compare :: "card list \<Rightarrow> card list \<Rightarrow> condition \<Rightarrow> bool \<Rightarrow> bool" where
  "compare (card1 # xs) (card2 # ys) cond evn =
     (if card_ne card1 card2 then eval_condition cond card1 card2 else compare xs ys cond evn)"
| "compare xs ys cond evn = evn"

definition cards_lt :: "card list \<Rightarrow> card list \<Rightarrow> bool" where
  "cards_lt xs ys = compare xs ys LT False"

definition cards_gt :: "card list \<Rightarrow> card list \<Rightarrow> bool" where
  "cards_gt xs ys = compare xs ys GT False"

definition cards_eq :: "card list \<Rightarrow> card list \<Rightarrow> bool" where
  "cards_eq xs ys = compare xs ys EQ True"

definition cards_ne :: "card list \<Rightarrow> card list \<Rightarrow> bool" where
  "cards_ne xs ys = compare xs ys NE False"

text \<open>
  \<open>Combo.__lt__\<close> and the others compare the tuples \<open>(type, cards)\<close>: Python looks for
  the first component on which the tuples are not \<open>==\<close> and applies the operator
  there; tuples equal in both components are equal.
\<close>

definition combo_lt :: "combo \<Rightarrow> combo \<Rightarrow> bool" where
  "combo_lt a b =
     (if combo_type a \<noteq> combo_type b then the (combo_type a) < the (combo_type b)
      else if \<not> cards_eq (cards a) (cards b) then cards_lt (cards a) (cards b)
      else False)"

definition combo_gt :: "combo \<Rightarrow> combo \<Rightarrow> bool" where
  "combo_gt a b =
     (if combo_type a \<noteq> combo_type b then the (combo_type a) > the (combo_type b)
      else if \<not> cards_eq (cards a) (cards b) then cards_gt (cards a) (cards b)
      else False)"

definition combo_eq :: "combo \<Rightarrow> combo \<Rightarrow> bool" where
  "combo_eq a b =
     (if combo_type a \<noteq> combo_type b then False
      else if \<not> cards_eq (cards a) (cards b) then False
      else True)"

definition combo_ne :: "combo \<Rightarrow> combo \<Rightarrow> bool" where
  "combo_ne a b =
     (if combo_type a \<noteq> combo_type b then True
      else if \<not> cards_eq (cards a) (cards b) then True
      else False)"


text \<open>
  \<open>Combo.Cards.get_other_cards\<close>, on the \<open>items\<close> of the combination: the cards of the
  group that are not \<open>in\<close> the combination (by \<open>Card.__eq__\<close>), highest first, fill the
  free places.
\<close>

definition get_other_cards :: "card list \<Rightarrow> card list \<Rightarrow> card list" where
  "get_other_cards items all_cards =
     (let cards_to_add = filter (\<lambda>c. \<not> card_in c items) all_cards
      in if cards_to_add \<noteq> []
         then items @ py_prefix (rev cards_to_add) (5 - int (length items))
         else items)"

definition get_straight_flush :: "combo \<Rightarrow> combo" where
  "get_straight_flush c =
     c\<lparr>combo_type := Some STRAIGHT_FLUSH,
       cards := cards c @ the (order_cards (sequence c))\<rparr>"

definition get_four_of_a_kind :: "combo \<Rightarrow> combo" where
  "get_four_of_a_kind c =
     (let four_cards = filter (\<lambda>x. card_eq x (the (four (w_repeats c)))) (init_cards c)
      in c\<lparr>combo_type := Some FOUR_OF_A_KIND,
           cards := get_other_cards (cards c @ four_cards) (init_cards c)\<rparr>)"

definition get_full_house :: "combo \<Rightarrow> combo" where
  "get_full_house c =
     (let the_set = filter (\<lambda>x. card_eq x (the (three (w_repeats c)))) (init_cards c);
          pair = take 2 (filter (\<lambda>x. card_eq x (the (two (w_repeats c)))) (init_cards c))
      in c\<lparr>combo_type := Some FULL_HOUSE, cards := cards c @ (the_set @ pair)\<rparr>)"

definition get_flush :: "combo \<Rightarrow> combo" where
  "get_flush c =
     c\<lparr>combo_type := Some FLUSH,
       cards := cards c @ rev (py_suffix (seq_cards (sequence c)) 5)\<rparr>"

definition get_straight :: "combo \<Rightarrow> combo" where
  "get_straight c =
     c\<lparr>combo_type := Some STRAIGHT, cards := cards c @ the (order_cards (sequence c))\<rparr>"

definition get_three_of_a_kind :: "combo \<Rightarrow> combo" where
  "get_three_of_a_kind c =
     (let three_cards = filter (\<lambda>x. card_eq x (the (three (w_repeats c)))) (init_cards c)
      in c\<lparr>combo_type := Some THREE_OF_A_KIND,
           cards := get_other_cards (cards c @ three_cards) (init_cards c)\<rparr>)"

definition get_two_pairs :: "combo \<Rightarrow> combo" where
  "get_two_pairs c =
     (let pairs = filter (\<lambda>x. card_in x (the (double_two (w_repeats c)))) (init_cards c)
      in c\<lparr>combo_type := Some TWO_PAIRS,
           cards := get_other_cards (cards c @ (drop 2 pairs @ take 2 pairs)) (init_cards c)\<rparr>)"

definition get_one_pair :: "combo \<Rightarrow> combo" where
  "get_one_pair c =
     (let pair = filter (\<lambda>x. card_eq x (the (two (w_repeats c)))) (init_cards c)
      in c\<lparr>combo_type := Some ONE_PAIR,
           cards := get_other_cards (cards c @ pair) (init_cards c)\<rparr>)"

definition get_high_card :: "combo \<Rightarrow> combo" where
  "get_high_card c =
     c\<lparr>combo_type := Some HIGH_CARD, cards := cards c @ rev (py_suffix (init_cards c) 5)\<rparr>"

text \<open>The attributes of a \<open>Combo\<close> once the analyzers have run, before the selection.\<close>

definition new_combo :: "card list \<Rightarrow> weight_repeats \<Rightarrow> suit_repeats \<Rightarrow> sequence \<Rightarrow> combo" where
  "new_combo cs w s sq =
     \<lparr>init_cards = cs, w_repeats = w, s_repeats = s, sequence = sq, combo_type = None,
      cards = [], is_real = False, is_nominal = False, is_half_nominal = False\<rparr>"

text \<open>
  \<open>Combo.find_combo\<close> on the list \<open>self.init_cards\<close>. The first component of the result
  is that list after the call: \<open>init_cards.sort()\<close> sorts it in place. A card without
  a weight makes the sort raise (the order in which a failing sort leaves the list is not
  modelled: the list is returned as it was); a card without a suit makes
  \<open>get_all_repeats\<close> raise after the sort.
\<close>

definition find_combo :: "card list \<Rightarrow> card list \<times> (error + combo)" where
  "find_combo init =
     (if list_ex (\<lambda>c. weight c = None) init then (init, Inl AbstractCardError)
      else
       (let cs = sort_cards init
        in if list_ex (\<lambda>c. suit c = None) cs then (cs, Inl AbstractCardError)
           else
            (cs,
             (case Repeats_init cs of
                Inl e \<Rightarrow> Inl e
              | Inr (w, s) \<Rightarrow>
                  (if \<not> five_or_more s
                   then (case Sequence_init cs of
                           Inl e \<Rightarrow> Inl e
                         | Inr sq \<Rightarrow>
                             (let c = new_combo cs w s sq
                              in Inr (if four w \<noteq> None then get_four_of_a_kind c
                                      else if three w \<noteq> None \<and> two w \<noteq> None
                                        then get_full_house c
                                      else if five_in_a_row sq then get_straight c
                                      else if three w \<noteq> None then get_three_of_a_kind c
                                      else if double_two w \<noteq> None then get_two_pairs c
                                      else if two w \<noteq> None then get_one_pair c
                                      else get_high_card c)))
                   else (case Sequence_init
                                (filter (\<lambda>x. card_eq x (the (flush_card s))) cs) of
                           Inl e \<Rightarrow> Inl e
                         | Inr sq \<Rightarrow>
                             (let c = new_combo cs w s sq
                              in Inr (if five_in_a_row sq then get_straight_flush c
                                      else get_flush c))))))))"

text \<open>\<open>Combo.half_nominal_finder\<close> and \<open>Combo.check_nominal_combo\<close>.\<close>

definition half_nominal_finder :: "card list list \<Rightarrow> combo \<Rightarrow> combo" where
  "half_nominal_finder card_set c =
     (let combo_cards_in_hand = length (filter (\<lambda>cs. list_ex in_hand cs) card_set)
      in if combo_cards_in_hand = 2 then c\<lparr>is_real := True\<rparr>
         else if combo_cards_in_hand = 1 then c\<lparr>is_half_nominal := True\<rparr>
         else c\<lparr>is_nominal := True\<rparr>)"

definition check_nominal_combo :: "combo \<Rightarrow> combo" where
  "check_nominal_combo c =
     (if combo_type c = Some FULL_HOUSE
      then (let three_cards = filter (\<lambda>x. card_eq x (the (three (w_repeats c)))) (init_cards c);
                two_cards = filter (\<lambda>x. card_eq x (the (two (w_repeats c)))) (init_cards c)
            in half_nominal_finder [three_cards, two_cards] c)
      else if combo_type c = Some TWO_PAIRS
      then (let pair1 = take 2 (cards c);
                pair2 = take 2 (drop 2 (cards c))
            in half_nominal_finder [pair1, pair2] c)
      else (let cs = (if combo_type c = Some FOUR_OF_A_KIND then take 4 (cards c)
                      else if combo_type c = Some THREE_OF_A_KIND then take 3 (cards c)
                      else if combo_type c = Some ONE_PAIR then take 2 (cards c)
                      else cards c)
            in if list_ex in_hand cs then c\<lparr>is_real := True\<rparr> else c\<lparr>is_nominal := True\<rparr>))"

text \<open>
  \<open>Combo.__init__\<close>. The caller's containers are objects whose \<open>items\<close> attribute refers
  to a list object; the store maps the address of a list object to its contents, and an
  argument is the address of the \<open>items\<close> list of the instance passed. With \<open>cards=\<close> the
  combination's \<open>init_cards\<close> is that very list; with \<open>cards_string\<close> or with
  \<open>table\<close> and \<open>hand\<close> it is a new list that no caller holds (it is not kept in the
  store). The arguments have their classes by type, so \<open>ComboCardsTypeError\<close> has no
  branch. The result is the store after the call and the exception or the \<open>Combo\<close>.
\<close>

type_synonym addr = nat

type_synonym store = "addr \<Rightarrow> card list"

record combo_args =
  arg_cards_string :: "string option"
  arg_cards :: "addr option"
  arg_table :: "addr option"
  arg_hand :: "addr option"
  nominal_check :: bool

definition Combo_init :: "store \<Rightarrow> combo_args \<Rightarrow> store \<times> (error + combo)" where
  "Combo_init st a =
     (if arg_cards_string a \<noteq> None \<and> arg_cards_string a \<noteq> Some []
      then (case Cards_init (arg_cards_string a) 7 of
              Inl e \<Rightarrow> (st, Inl e)
            | Inr items \<Rightarrow> (st, snd (find_combo items)))
      else if arg_cards a \<noteq> None
      then (let p = the (arg_cards a)
            in (case find_combo (st p) of
                  (items', r) \<Rightarrow> (st(p := items'), r)))
      else if arg_table a \<noteq> None \<and> arg_hand a \<noteq> None
      then (case snd (find_combo (st (the (arg_table a)) @ st (the (arg_hand a)))) of
              Inl e \<Rightarrow> (st, Inl e)
            | Inr c \<Rightarrow> (st, Inr (if nominal_check a then check_nominal_combo c else c)))
      else (st, Inl ComboArgumentsError))"

text \<open>
  The classification of a card group on its own: \<open>Combo(cards_string=...)\<close> after the
  string has been read, or \<open>Combo(cards=...)\<close> seen without the store.
\<close>

definition classify :: "card list \<Rightarrow> error + combo" where
  "classify g = snd (find_combo g)"

section \<open>Auxiliary notions for the statements\<close>

text \<open>
  A card as \<open>Card('ws')\<close> makes it (the table's cards are such), and a card of a hand,
  marked by \<open>Hand.post_get_cards\<close>.
\<close>

definition table_card :: "weight \<Rightarrow> suit \<Rightarrow> card" where
  "table_card w s = MkCard (Some w) (Some s) False"

definition hand_card :: "weight \<Rightarrow> suit \<Rightarrow> card" where
  "hand_card w s = MkCard (Some w) (Some s) True"

definition empty_store :: store where
  "empty_store = (\<lambda>p. [])"

text \<open>A card with a weight and a suit, as every dealt card is.\<close>

definition concrete :: "card \<Rightarrow> bool" where
  "concrete c = (weight c \<noteq> None \<and> suit c \<noteq> None)"

text \<open>
  A valid group: five to seven cards of the deck (weights Two to Ace, the symbol
  \<open>'1'\<close> is not dealt), no card twice. The \<open>in_hand\<close> mark is not part of a card's
  identity.
\<close>

definition valid_group :: "card list \<Rightarrow> bool" where
  "valid_group g =
     (5 \<le> length g \<and> length g \<le> 7 \<and>
      list_all (\<lambda>c. concrete c \<and> weight c \<noteq> Some W1) g \<and>
      distinct (map (\<lambda>c. (weight c, suit c)) g))"

text \<open>The items of a list in the order of their first occurrence.\<close>

definition add_new :: "'a \<Rightarrow> 'a list \<Rightarrow> 'a list" where
  "add_new k ks = (if k \<in> set ks then ks else ks @ [k])"

definition first_occ :: "'a list \<Rightarrow> 'a list" where
  "first_occ xs = fold add_new xs []"

text \<open>
  What the dictionary \<open>all\<close> of a repeat table holds under a count \<open>n\<close>, given the
  abstract cards \<open>ks\<close> entered so far: those that occur \<open>n\<close> times in the group.
\<close>

definition keys_with_count :: "card list \<Rightarrow> card list \<Rightarrow> nat \<Rightarrow> card list" where
  "keys_with_count xs ks n = filter (\<lambda>k. count_cards xs k = n) ks"

definition rep_inv :: "card list \<Rightarrow> 'a base_repeats_scheme \<Rightarrow> bool" where
  "rep_inv xs r =
     (distinct (rep_cards r) \<and>
      (\<forall>n. map_of (rep_all r) n =
            (if keys_with_count xs (rep_cards r) n = [] then None
             else Some (keys_with_count xs (rep_cards r) n))))"

text \<open>
  Five cards in a row in a rank table: the entries \<open>b, ..., b + 4\<close> are cards of the
  group (they have a suit), not abstract placeholders.
\<close>

definition window :: "card list \<Rightarrow> nat \<Rightarrow> bool" where
  "window rank b = list_all (\<lambda>j. suit (rank ! (b + j)) \<noteq> None) [0..<5]"

text \<open>The list that \<open>Sequence.__init__\<close> hands to \<open>find_order\<close>.\<close>

definition with_low_ace :: "card list \<Rightarrow> card list" where
  "with_low_ace cs =
     (if card_in (MkCard (Some WA) None False) cs then one_more_ace cs else cs)"

text \<open>
  A run of five consecutive weights among the numbers \<open>N\<close>, from \<open>lo\<close> up to
  \<open>lo + 4\<close>; weights being numbered 0 to 13, a run starts at one of 0 to 9.
\<close>

definition run_from :: "nat set \<Rightarrow> nat \<Rightarrow> bool" where
  "run_from N lo = list_all (\<lambda>j. lo + j \<in> N) [0..<5]"

definition has_run :: "nat set \<Rightarrow> bool" where
  "has_run N = list_ex (run_from N) [0..<10]"

text \<open>
  The numbers of the weights of a card list as the sequence analyzer sees them: an ace
  (number 13) counts as number 0 as well.
\<close>

definition seq_numbers :: "card list \<Rightarrow> nat set" where
  "seq_numbers cs =
     card_number ` set cs \<union> (if 13 \<in> card_number ` set cs then {0} else {})"

text \<open>The highest run of five: the greatest start among 9, 8, ..., 0.\<close>

definition top_run :: "nat set \<Rightarrow> nat option" where
  "top_run N = find (run_from N) (rev [0..<10])"

text \<open>
  The cards of the run that starts at number \<open>lo\<close>, highest first: for each number the
  last card of the list with that number.
\<close>

definition run_cards :: "card list \<Rightarrow> nat \<Rightarrow> card list" where
  "run_cards cs lo =
     map (\<lambda>v. last (filter (\<lambda>c. card_number c = v) cs)) (rev [lo..<lo + 5])"

text \<open>
  The results of the analyzers on a group on which they do not raise: the weight table
  after \<open>get_repeat_kind\<close>, the suit table after \<open>flush_or_not\<close>, and the sequence.
\<close>

definition W_of :: "card list \<Rightarrow> weight_repeats" where
  "W_of xs = get_repeat_kind (fst (get_all_repeats xs (WeightRepeats_init, SuitRepeats_init)))"

definition S_of :: "card list \<Rightarrow> suit_repeats" where
  "S_of xs = projr (flush_or_not (snd (get_all_repeats xs (WeightRepeats_init, SuitRepeats_init))))"

definition Q_of :: "card list \<Rightarrow> sequence" where
  "Q_of cs = projr (Sequence_init cs)"

text \<open>The abstract weight cards and suit cards of a group that occur \<open>n\<close> times in it.\<close>

definition weight_keys :: "card list \<Rightarrow> nat \<Rightarrow> card list" where
  "weight_keys xs n = keys_with_count xs (first_occ (map w_card xs)) n"

definition suit_keys :: "card list \<Rightarrow> nat \<Rightarrow> card list" where
  "suit_keys xs n = keys_with_count xs (first_occ (map s_card xs)) n"

text \<open>All cards of a list have the weight number \<open>v\<close>.\<close>

definition all_number :: "nat \<Rightarrow> card list \<Rightarrow> bool" where
  "all_number v cs = list_all (\<lambda>c. card_number c = v) cs"

text \<open>
  The order of a combination's five cards. A list of cards is strictly descending when
  the number of the weight falls from each card to the next; it is of one suit when all
  its cards have the suit of the first; it runs down when its weights are five
  consecutive ones, the highest first (the low ace, weight \<open>'1'\<close>, is the lowest).

  \<open>combination_order\<close> says, kind by kind, that the defining cards stand first and
  the kickers after them: the four cards of one weight and a kicker of another; the
  three cards of one weight and the two of another; the three cards of one weight and
  two kickers of other weights, strictly descending; the two cards of the higher pair,
  the two of the lower pair and a kicker of a third weight; the two cards of one weight
  and three kickers of other weights, strictly descending; for a straight five cards that
  run down; for a straight flush five cards of one suit that run down; for a flush five
  cards of one suit, strictly descending; for a high card five cards, strictly
  descending. Cards of one weight are a sub-group that is descending by weight.
\<close>

definition strictly_descending :: "card list \<Rightarrow> bool" where
  "strictly_descending cs = sorted_wrt (\<lambda>a b. card_number b < card_number a) cs"

definition one_suit :: "card list \<Rightarrow> bool" where
  "one_suit cs = list_all (\<lambda>c. suit c = suit (hd cs)) cs"

definition run_down :: "card list \<Rightarrow> bool" where
  "run_down cs =
     (map card_number cs = rev [card_number (last cs)..<card_number (last cs) + 5])"

definition other_numbers :: "nat list \<Rightarrow> card list \<Rightarrow> bool" where
  "other_numbers vs cs = list_all (\<lambda>c. card_number c \<notin> set vs) cs"

definition combination_order :: "nat \<Rightarrow> card list \<Rightarrow> bool" where
  "combination_order t cs =
     (let v = card_number (cs ! 0); u = card_number (cs ! 3)
      in if t = FOUR_OF_A_KIND
         then all_number v (take 4 cs) \<and> other_numbers [v] (drop 4 cs)
         else if t = FULL_HOUSE
         then all_number v (take 3 cs) \<and> all_number u (drop 3 cs) \<and> u \<noteq> v
         else if t = THREE_OF_A_KIND
         then all_number v (take 3 cs) \<and> other_numbers [v] (drop 3 cs) \<and>
              strictly_descending (drop 3 cs)
         else if t = TWO_PAIRS
         then all_number v (take 2 cs) \<and> all_number u (take 2 (drop 2 cs)) \<and> u < v \<and>
              other_numbers [v, u] (drop 4 cs)
         else if t = ONE_PAIR
         then all_number v (take 2 cs) \<and> other_numbers [v] (drop 2 cs) \<and>
              strictly_descending (drop 2 cs)
         else if t = STRAIGHT then run_down cs
         else if t = STRAIGHT_FLUSH then run_down cs \<and> one_suit cs
         else if t = FLUSH then strictly_descending cs \<and> one_suit cs
         else strictly_descending cs)"

text \<open>
  The card that \<open>one_more_ace\<close> puts in front of a list: the copy, with weight \<open>'1'\<close>,
  of the last ace of the list (its suit and its \<open>in_hand\<close> mark).
\<close>

definition low_ace :: "card list \<Rightarrow> card" where
  "low_ace cs =
     MkCard (Some W1) (suit (last (filter (\<lambda>c. card_number c = 13) cs)))
       (in_hand (last (filter (\<lambda>c. card_number c = 13) cs)))"

text \<open>A straight from Six down to Two.\<close>

definition six_high_straight :: "combo \<Rightarrow> bool" where
  "six_high_straight b =
     (combo_type b = Some STRAIGHT \<and> map card_number (cards b) = [5, 4, 3, 2, 1] \<and>
      list_all (\<lambda>c. weight c \<noteq> None) (cards b))"

text \<open>
  The contribution flags of a combination: none of them is set, and exactly one of
  them is set.
\<close>

definition no_flags :: "combo \<Rightarrow> bool" where
  "no_flags c = (\<not> is_real c \<and> \<not> is_nominal c \<and> \<not> is_half_nominal c)"

definition one_flag :: "combo \<Rightarrow> bool" where
  "one_flag c =
     ((is_real c \<and> \<not> is_half_nominal c \<and> \<not> is_nominal c) \<or>
      (\<not> is_real c \<and> is_half_nominal c \<and> \<not> is_nominal c) \<or>
      (\<not> is_real c \<and> \<not> is_half_nominal c \<and> is_nominal c))"

text \<open>
  The two groups of a compound combination among its five cards: the three and the pair
  of a full house, the higher and the lower pair of two pairs. \<open>groups_in_hand\<close>
  counts those of the two groups that hold a card of the hand.
\<close>

definition combination_groups :: "combo \<Rightarrow> card list list" where
  "combination_groups r =
     (if combo_type r = Some FULL_HOUSE then [take 3 (cards r), drop 3 (cards r)]
      else [take 2 (cards r), take 2 (drop 2 (cards r))])"

definition groups_in_hand :: "combo \<Rightarrow> nat" where
  "groups_in_hand r = length (filter (list_ex in_hand) (combination_groups r))"

text \<open>\<open>Combo(table=..., hand=..., nominal_check=True)\<close>.\<close>

definition table_hand_check :: "addr \<Rightarrow> addr \<Rightarrow> combo_args" where
  "table_hand_check t h =
     \<lparr>arg_cards_string = None, arg_cards = None, arg_table = Some t, arg_hand = Some h,
      nominal_check = True\<rparr>"

section \<open>Properties of the repetition analyzer\<close>


lemma number_inj: "number a = number b \<longleftrightarrow> a = b"
  by (cases a; cases b; simp)

lemma number_lt_14: "number w < 14"
  by (cases w) simp_all

lemma weights_nth_number: "weights ! number w = w"
  by (cases w) (simp_all add: weights_def)

lemma add_repeat_cards:
  "card_in k (rep_cards r) = (k \<in> set (rep_cards r)) \<Longrightarrow>
   rep_cards (add_repeat xs k r) = add_new k (rep_cards r)"
  by (simp add: add_repeat_def add_new_def Let_def)

lemma add_repeat_inv:
  assumes inv: "rep_inv xs r" and mem: "card_in k (rep_cards r) = (k \<in> set (rep_cards r))"
  shows "rep_inv xs (add_repeat xs k r)"
proof (cases "k \<in> set (rep_cards r)")
  case True
  then show ?thesis using inv mem by (simp add: add_repeat_def)
next
  case False
  let ?cnt = "count_cards xs k"
  let ?l = "keys_with_count xs (rep_cards r) ?cnt"
  have m: "map_of (rep_all r) ?cnt = (if ?l = [] then None else Some ?l)"
    using inv by (simp add: rep_inv_def)
  have cards': "rep_cards (add_repeat xs k r) = rep_cards r @ [k]"
    using False mem by (simp add: add_repeat_def Let_def)
  have all': "map_of (rep_all (add_repeat xs k r)) = (map_of (rep_all r))(?cnt \<mapsto> ?l @ [k])"
    using False mem m by (auto simp: add_repeat_def Let_def update_conv' split: option.splits)
  have d: "distinct (rep_cards (add_repeat xs k r))"
    using inv False cards' by (simp add: rep_inv_def)
  have "map_of (rep_all (add_repeat xs k r)) n =
        (if keys_with_count xs (rep_cards (add_repeat xs k r)) n = [] then None
         else Some (keys_with_count xs (rep_cards (add_repeat xs k r)) n))" for n
    using inv by (simp add: all' cards' keys_with_count_def rep_inv_def)
  then show ?thesis using d by (simp add: rep_inv_def)
qed

lemma fold_pair_split:
  "fold (\<lambda>c (w, s). (f c w, g c s)) cs (w, s) = (fold f cs w, fold g cs s)"
  by (induction cs arbitrary: w s) simp_all

lemma get_all_repeats_split:
  "get_all_repeats xs (w, s) =
     (fold (\<lambda>c. add_repeat xs (w_card c)) xs w, fold (\<lambda>c. add_repeat xs (s_card c)) xs s)"
  by (simp add: get_all_repeats_def fold_pair_split)

text \<open>
  The loop of \<open>get_all_repeats\<close> for one of the two tables, on abstract cards among
  which \<open>Card.__eq__\<close> is equality.
\<close>

lemma fold_add_repeat:
  assumes eq: "\<And>a b. a \<in> set xs \<Longrightarrow> b \<in> set xs \<Longrightarrow> card_eq (K a) (K b) = (K a = K b)"
    and sub: "set cs \<subseteq> set xs" and inv: "rep_inv xs r" and ks: "set (rep_cards r) \<subseteq> K ` set xs"
  shows "rep_inv xs (fold (\<lambda>c. add_repeat xs (K c)) cs r) \<and>
         rep_cards (fold (\<lambda>c. add_repeat xs (K c)) cs r) = fold add_new (map K cs) (rep_cards r)"
  using sub inv ks
proof (induction cs arbitrary: r)
  case Nil
  then show ?case by simp
next
  case (Cons c cs)
  have cin: "c \<in> set xs" using Cons.prems(1) by simp
  have mem: "card_in (K c) (rep_cards r) = (K c \<in> set (rep_cards r))"
  proof -
    have "\<And>y. y \<in> set (rep_cards r) \<Longrightarrow> card_eq y (K c) = (y = K c)"
      using Cons.prems(3) eq cin by auto
    then show ?thesis by (auto simp: card_in_def list_ex_iff)
  qed
  have i1: "rep_inv xs (add_repeat xs (K c) r)" using add_repeat_inv[OF Cons.prems(2) mem] .
  have c1: "rep_cards (add_repeat xs (K c) r) = add_new (K c) (rep_cards r)"
    using add_repeat_cards[OF mem] .
  have s1: "set (rep_cards (add_repeat xs (K c) r)) \<subseteq> K ` set xs"
    using c1 Cons.prems(3) cin by (auto simp: add_new_def split: if_splits)
  have "set cs \<subseteq> set xs" using Cons.prems(1) by simp
  from Cons.IH[OF this i1 s1] c1 show ?case by simp
qed

lemma fold_add_new_set: "set (fold add_new xs acc) = set acc \<union> set xs"
  by (induction xs arbitrary: acc) (auto simp: add_new_def)

lemma fold_add_new_distinct: "distinct acc \<Longrightarrow> distinct (fold add_new xs acc)"
  by (induction xs arbitrary: acc) (auto simp: add_new_def)

lemma fold_add_new_sorted:
  "sorted (map f (acc @ xs)) \<Longrightarrow> sorted (map f (fold add_new xs acc))"
proof (induction xs arbitrary: acc)
  case Nil
  then show ?case by simp
next
  case (Cons x xs)
  show ?case
  proof (cases "x \<in> set acc")
    case True
    have "sorted (map f (acc @ xs))" using Cons.prems by (auto simp: sorted_append)
    then show ?thesis using Cons.IH True by (simp add: add_new_def)
  next
    case False
    have "sorted (map f ((acc @ [x]) @ xs))" using Cons.prems by simp
    then show ?thesis using Cons.IH[of "acc @ [x]"] False by (simp add: add_new_def)
  qed
qed

lemma first_occ_set: "set (first_occ xs) = set xs"
  by (simp add: first_occ_def fold_add_new_set)

lemma first_occ_distinct: "distinct (first_occ xs)"
  by (simp add: first_occ_def fold_add_new_distinct)

lemma first_occ_sorted: "sorted (map f xs) \<Longrightarrow> sorted (map f (first_occ xs))"
  by (simp add: first_occ_def fold_add_new_sorted)

lemma rep_inv_init: "rep_inv xs WeightRepeats_init" "rep_inv xs SuitRepeats_init"
  by (simp_all add: rep_inv_def WeightRepeats_init_def SuitRepeats_init_def keys_with_count_def)

lemma w_card_eq:
  "weight a \<noteq> None \<Longrightarrow> weight b \<noteq> None \<Longrightarrow> card_eq (w_card a) (w_card b) = (w_card a = w_card b)"
  by (auto simp: card_eq_def w_card_def card_number_def number_inj)

lemma s_card_eq: "card_eq (s_card a) (s_card b) = (s_card a = s_card b)"
  by (simp add: card_eq_def s_card_def)

lemma weight_repeats_char:
  assumes "\<forall>c \<in> set xs. weight c \<noteq> None"
  shows "rep_inv xs (fst (get_all_repeats xs (WeightRepeats_init, SuitRepeats_init))) \<and>
         rep_cards (fst (get_all_repeats xs (WeightRepeats_init, SuitRepeats_init))) =
           first_occ (map w_card xs)"
proof -
  have "rep_inv xs (fold (\<lambda>c. add_repeat xs (w_card c)) xs WeightRepeats_init) \<and>
        rep_cards (fold (\<lambda>c. add_repeat xs (w_card c)) xs WeightRepeats_init) =
          fold add_new (map w_card xs) (rep_cards WeightRepeats_init)"
  proof (rule fold_add_repeat)
    show "rep_inv xs WeightRepeats_init" by (rule rep_inv_init)
  qed (use assms in \<open>auto simp: w_card_eq WeightRepeats_init_def\<close>)
  then show ?thesis
    by (simp add: get_all_repeats_split first_occ_def WeightRepeats_init_def)
qed

lemma suit_repeats_char:
  "rep_inv xs (snd (get_all_repeats xs (WeightRepeats_init, SuitRepeats_init))) \<and>
   rep_cards (snd (get_all_repeats xs (WeightRepeats_init, SuitRepeats_init))) =
     first_occ (map s_card xs)"
proof -
  have "rep_inv xs (fold (\<lambda>c. add_repeat xs (s_card c)) xs SuitRepeats_init) \<and>
        rep_cards (fold (\<lambda>c. add_repeat xs (s_card c)) xs SuitRepeats_init) =
          fold add_new (map s_card xs) (rep_cards SuitRepeats_init)"
  proof (rule fold_add_repeat)
    show "rep_inv xs SuitRepeats_init" by (rule rep_inv_init)
  qed (auto simp: s_card_eq SuitRepeats_init_def)
  then show ?thesis
    by (simp add: get_all_repeats_split first_occ_def SuitRepeats_init_def)
qed

lemma rep_inv_keys:
  assumes "rep_inv xs r"
  shows "set (map fst (rep_all r)) = count_cards xs ` set (rep_cards r)"
proof -
  have "set (map fst (rep_all r)) = dom (map_of (rep_all r))" by (simp add: dom_map_of_conv_image_fst)
  also have "\<dots> = {n. keys_with_count xs (rep_cards r) n \<noteq> []}"
    using assms by (auto simp: rep_inv_def dom_def)
  also have "\<dots> = count_cards xs ` set (rep_cards r)"
    by (auto simp: keys_with_count_def filter_empty_conv)
  finally show ?thesis .
qed

lemma py_max_Max:
  assumes "xs \<noteq> []"
  shows "py_max xs = Inr (Max (set xs))"
proof -
  obtain a list where c: "xs = a # list" using assms by (cases xs) auto
  show ?thesis using Max.set_eq_fold[of a list] c by (simp add: py_max_def)
qed

section \<open>Properties of the sequence analyzer\<close>

lemma window_iff: "window rank b = (\<forall>j<5. suit (rank ! (b + j)) \<noteq> None)"
  by (auto simp: window_def list_all_iff)

lemma find_order_loop_history:
  "hist \<noteq> [] \<or> (\<exists>j \<in> set is. suit (rank ! j) \<noteq> None) \<Longrightarrow>
   snd (snd (find_order_loop rank is base row hist)) \<noteq> []"
proof (induction "is" arbitrary: base row hist)
  case Nil
  then show ?case by simp
next
  case (Cons a "is")
  show ?case
  proof (cases "suit (rank ! a) \<noteq> None")
    case True
    then show ?thesis using Cons.IH[of "hist @ [row + 1]" base "row + 1"] by simp
  next
    case False
    then have "hist \<noteq> [] \<or> (\<exists>j \<in> set is. suit (rank ! j) \<noteq> None)"
      using Cons.prems by auto
    then show ?thesis using Cons.IH[of hist "a + 1" 0] False by simp
  qed
qed

lemma find_order_loop_found:
  assumes w: "window rank b0" and least: "\<forall>b<b0. \<not> window rank b" and b0: "b0 + 5 \<le> 14"
  shows "i \<le> 14 \<Longrightarrow> base \<le> i \<Longrightarrow> row = i - base \<Longrightarrow> row < 5 \<Longrightarrow>
         (\<forall>j. base \<le> j \<and> j < i \<longrightarrow> suit (rank ! j) \<noteq> None) \<Longrightarrow>
         (base = 0 \<or> suit (rank ! (base - 1)) = None) \<Longrightarrow>
         (\<forall>b. b + 5 \<le> i \<longrightarrow> \<not> window rank b) \<Longrightarrow>
         \<exists>h. find_order_loop rank [i..<14] base row hist = (True, Some (take 5 (drop b0 rank)), h)"
proof (induction "14 - i" arbitrary: i base row hist)
  case 0
  then have "i = 14" by simp
  with 0 w b0 show ?case by auto
next
  case (Suc n)
  then have i: "i < 14" by simp
  have up: "[i..<14] = i # [Suc i..<14]" using i by (simp add: upt_conv_Cons)
  have n: "n = 14 - Suc i" using Suc.hyps(2) by simp
  show ?case
  proof (cases "suit (rank ! i) \<noteq> None")
    case True
    show ?thesis
    proof (cases "row + 1 = 5")
      case r5: True
      have wb: "window rank base"
        unfolding window_iff
      proof (intro allI impI)
        fix j :: nat assume "j < 5"
        then have "base + j \<le> i" using r5 Suc.prems(3) by simp
        then show "suit (rank ! (base + j)) \<noteq> None"
          using True Suc.prems(5) by (cases "base + j = i") auto
      qed
      have "\<not> b0 < base"
      proof
        assume lt: "b0 < base"
        then have bpos: "base \<noteq> 0" by simp
        have "b0 + 5 > i" using Suc.prems(7) w by (meson not_le_imp_less)
        then have "base - 1 - b0 < 5" using r5 Suc.prems(3) lt by simp
        moreover have "b0 + (base - 1 - b0) = base - 1" using lt by simp
        ultimately have "suit (rank ! (base - 1)) \<noteq> None"
          using w unfolding window_iff by metis
        then show False using Suc.prems(6) bpos by simp
      qed
      moreover have "\<not> base < b0" using least wb by auto
      ultimately have "base = b0" by simp
      then show ?thesis using True r5 up by simp
    next
      case r: False
      have nw: "\<forall>b. b + 5 \<le> Suc i \<longrightarrow> \<not> window rank b"
      proof (intro allI impI)
        fix b assume b: "b + 5 \<le> Suc i"
        show "\<not> window rank b"
        proof (cases "b + 5 \<le> i")
          case True
          then show ?thesis using Suc.prems(7) by simp
        next
          case False
          then have bi: "b + 4 = i" using b by simp
          show ?thesis
          proof (cases "b < base")
            case True
            then have "base - 1 - b < 5" "b + (base - 1 - b) = base - 1" "base \<noteq> 0"
              using bi Suc.prems(2) by simp_all
            then show ?thesis using Suc.prems(6) unfolding window_iff by metis
          next
            case False
            then have "row + 1 \<ge> 5" using bi Suc.prems(3) by simp
            then show ?thesis using r Suc.prems(4) by simp
          qed
        qed
      qed
      have "\<exists>h. find_order_loop rank [Suc i..<14] base (row + 1) (hist @ [row + 1]) =
                 (True, Some (take 5 (drop b0 rank)), h)"
      proof (rule Suc.hyps(1)[OF n])
        show "Suc i \<le> 14" using i by simp
        show "base \<le> Suc i" using Suc.prems(2) by simp
        show "row + 1 = Suc i - base" using Suc.prems(2,3) by simp
        show "row + 1 < 5" using r Suc.prems(4) by simp
        show "\<forall>j. base \<le> j \<and> j < Suc i \<longrightarrow> suit (rank ! j) \<noteq> None"
          using True Suc.prems(5) by (auto simp: less_Suc_eq)
        show "base = 0 \<or> suit (rank ! (base - 1)) = None" using Suc.prems(6) .
        show "\<forall>b. b + 5 \<le> Suc i \<longrightarrow> \<not> window rank b" using nw .
      qed
      then show ?thesis using True r up by simp
    qed
  next
    case False
    have "\<exists>h. find_order_loop rank [Suc i..<14] (i + 1) 0 hist =
               (True, Some (take 5 (drop b0 rank)), h)"
    proof (rule Suc.hyps(1)[OF n])
      show "Suc i \<le> 14" using i by simp
      show "i + 1 \<le> Suc i" by simp
      show "0 = Suc i - (i + 1)" by simp
      show "(0::nat) < 5" by simp
      show "\<forall>j. i + 1 \<le> j \<and> j < Suc i \<longrightarrow> suit (rank ! j) \<noteq> None" by auto
      show "i + 1 = 0 \<or> suit (rank ! (i + 1 - 1)) = None" using False by simp
      show "\<forall>b. b + 5 \<le> Suc i \<longrightarrow> \<not> window rank b"
      proof (intro allI impI)
        fix b assume b: "b + 5 \<le> Suc i"
        show "\<not> window rank b"
        proof (cases "b + 5 \<le> i")
          case True
          then show ?thesis using Suc.prems(7) by simp
        next
          case nle: False
          then have "i - b < 5" "b + (i - b) = i" using b by simp_all
          then show ?thesis using False unfolding window_iff by metis
        qed
      qed
    qed
    then show ?thesis using False up by simp
  qed
qed

lemma find_order_loop_none:
  assumes nw: "\<forall>b. b + 5 \<le> 14 \<longrightarrow> \<not> window rank b"
  shows "i \<le> 14 \<Longrightarrow> base \<le> i \<Longrightarrow> row = i - base \<Longrightarrow>
         (\<forall>j. base \<le> j \<and> j < i \<longrightarrow> suit (rank ! j) \<noteq> None) \<Longrightarrow>
         \<exists>h. find_order_loop rank [i..<14] base row hist = (False, None, h)"
proof (induction "14 - i" arbitrary: i base row hist)
  case 0
  then have "i = 14" by simp
  then show ?case by simp
next
  case (Suc n)
  then have i: "i < 14" by simp
  have up: "[i..<14] = i # [Suc i..<14]" using i by (simp add: upt_conv_Cons)
  have n: "n = 14 - Suc i" using Suc.hyps(2) by simp
  show ?case
  proof (cases "suit (rank ! i) \<noteq> None")
    case True
    have r: "row + 1 \<noteq> 5"
    proof
      assume r5: "row + 1 = 5"
      have "window rank base"
        unfolding window_iff
      proof (intro allI impI)
        fix j :: nat assume "j < 5"
        then have "base + j \<le> i" using r5 Suc.prems(3) by simp
        then show "suit (rank ! (base + j)) \<noteq> None"
          using True Suc.prems(4) by (cases "base + j = i") auto
      qed
      moreover have "base + 5 \<le> 14" using r5 Suc.prems(2,3) i by simp
      ultimately show False using nw by simp
    qed
    have "\<exists>h. find_order_loop rank [Suc i..<14] base (row + 1) (hist @ [row + 1]) =
               (False, None, h)"
    proof (rule Suc.hyps(1)[OF n])
      show "Suc i \<le> 14" using i by simp
      show "base \<le> Suc i" using Suc.prems(2) by simp
      show "row + 1 = Suc i - base" using Suc.prems(2,3) by simp
      show "\<forall>j. base \<le> j \<and> j < Suc i \<longrightarrow> suit (rank ! j) \<noteq> None"
        using True Suc.prems(4) by (auto simp: less_Suc_eq)
    qed
    then show ?thesis using True r up by simp
  next
    case False
    have "\<exists>h. find_order_loop rank [Suc i..<14] (i + 1) 0 hist = (False, None, h)"
    proof (rule Suc.hyps(1)[OF n])
      show "Suc i \<le> 14" using i by simp
      show "i + 1 \<le> Suc i" by simp
      show "0 = Suc i - (i + 1)" by simp
      show "\<forall>j. i + 1 \<le> j \<and> j < Suc i \<longrightarrow> suit (rank ! j) \<noteq> None" by auto
    qed
    then show ?thesis using False up by simp
  qed
qed

text \<open>The rank table: entry \<open>i\<close> is the last card of number \<open>13 - i\<close>, if there is one.\<close>

lemma fold_rank_length:
  "length (fold (\<lambda>c rank. rank[card_number c := c]) cs r) = length r"
  by (induction cs arbitrary: r) simp_all

lemma fold_rank_nth:
  "v < length r \<Longrightarrow>
   fold (\<lambda>c rank. rank[card_number c := c]) cs r ! v =
     (if filter (\<lambda>c. card_number c = v) cs = [] then r ! v
      else last (filter (\<lambda>c. card_number c = v) cs))"
proof (induction cs arbitrary: r rule: rev_induct)
  case Nil
  then show ?case by simp
next
  case (snoc c cs)
  then show ?case by (auto simp: fold_rank_length nth_list_update)
qed

lemma get_rank_length: "length (get_rank cs) = 14"
  by (simp add: get_rank_def fold_rank_length weights_def)

lemma get_rank_nth:
  assumes "i < 14"
  shows "get_rank cs ! i =
     (if filter (\<lambda>c. card_number c = 13 - i) cs = []
      then MkCard (Some (weights ! (13 - i))) None False
      else last (filter (\<lambda>c. card_number c = 13 - i) cs))"
proof -
  let ?r0 = "map (\<lambda>w. MkCard (Some w) None False) weights"
  have l: "length ?r0 = 14" by (simp add: weights_def)
  have len: "length (fold (\<lambda>c rank. rank[card_number c := c]) cs ?r0) = 14"
    using l by (simp only: fold_rank_length)
  have "14 - Suc i = 13 - i" by simp
  then have "get_rank cs ! i = fold (\<lambda>c rank. rank[card_number c := c]) cs ?r0 ! (13 - i)"
    using assms len unfolding get_rank_def by (simp only: rev_nth)
  also have "\<dots> = (if filter (\<lambda>c. card_number c = 13 - i) cs = [] then ?r0 ! (13 - i)
      else last (filter (\<lambda>c. card_number c = 13 - i) cs))"
    by (rule fold_rank_nth) (use l in simp)
  also have "?r0 ! (13 - i) = MkCard (Some (weights ! (13 - i))) None False"
  proof -
    have "13 - i < length weights" by (simp add: weights_def)
    then show ?thesis by (rule nth_map)
  qed
  finally show ?thesis .
qed

lemma get_rank_real:
  assumes "i < 14" and "\<forall>c \<in> set cs. suit c \<noteq> None"
  shows "(suit (get_rank cs ! i) \<noteq> None) = (13 - i \<in> card_number ` set cs)"
proof (cases "filter (\<lambda>c. card_number c = 13 - i) cs = []")
  case True
  then have "13 - i \<notin> card_number ` set cs" by (auto simp: filter_empty_conv)
  then show ?thesis using True assms(1) by (simp add: get_rank_nth)
next
  case False
  then have "last (filter (\<lambda>c. card_number c = 13 - i) cs) \<in> set (filter (\<lambda>c. card_number c = 13 - i) cs)"
    by (rule last_in_set)
  then have "suit (last (filter (\<lambda>c. card_number c = 13 - i) cs)) \<noteq> None" using assms(2) by auto
  moreover have "13 - i \<in> card_number ` set cs"
    using False by (force simp: filter_empty_conv)
  ultimately show ?thesis using False assms(1) by (simp add: get_rank_nth)
qed

lemma get_rank_number:
  assumes "i < 14"
  shows "card_number (get_rank cs ! i) = 13 - i"
proof (cases "filter (\<lambda>c. card_number c = 13 - i) cs = []")
  case True
  have "\<And>v. v < 14 \<Longrightarrow> number (weights ! v) = v"
    by (simp add: weights_def less_Suc_eq numeral_eq_Suc) auto
  then show ?thesis using True assms by (simp add: get_rank_nth card_number_def)
next
  case False
  then have "last (filter (\<lambda>c. card_number c = 13 - i) cs) \<in> set (filter (\<lambda>c. card_number c = 13 - i) cs)"
    by (rule last_in_set)
  then show ?thesis using False assms by (simp add: get_rank_nth)
qed

lemma Sequence_init_eq: "Sequence_init cs = find_order (with_low_ace cs)"
  by (simp add: Sequence_init_def with_low_ace_def)

lemma card_in_ace:
  assumes "\<forall>c \<in> set cs. weight c \<noteq> None"
  shows "card_in (MkCard (Some WA) None False) cs = (13 \<in> card_number ` set cs)"
  using assms by (auto simp: card_in_def list_ex_iff card_eq_def card_number_def image_iff)

lemma ace_filter:
  assumes "\<forall>c \<in> set cs. weight c \<noteq> None"
  shows "filter (\<lambda>c. card_eq c (MkCard (Some WA) None False)) cs =
         filter (\<lambda>c. card_number c = 13) cs"
  using assms by (intro filter_cong) (auto simp: card_eq_def card_number_def)

lemma with_low_ace_cases:
  assumes "\<forall>c \<in> set cs. weight c \<noteq> None"
  shows "with_low_ace cs =
     (if 13 \<in> card_number ` set cs
      then MkCard (Some W1) (suit (last (filter (\<lambda>c. card_number c = 13) cs)))
             (in_hand (last (filter (\<lambda>c. card_number c = 13) cs))) # cs
      else cs)"
  using assms by (simp add: with_low_ace_def card_in_ace one_more_ace_def ace_filter Let_def)

lemma with_low_ace_concrete:
  assumes "\<forall>c \<in> set cs. concrete c"
  shows "\<forall>c \<in> set (with_low_ace cs). concrete c"
proof (cases "13 \<in> card_number ` set cs")
  case True
  then have "filter (\<lambda>c. card_number c = 13) cs \<noteq> []" by (auto simp: filter_empty_conv)
  then have "last (filter (\<lambda>c. card_number c = 13) cs) \<in> set (filter (\<lambda>c. card_number c = 13) cs)"
    by (rule last_in_set)
  then have "concrete (last (filter (\<lambda>c. card_number c = 13) cs))" using assms by auto
  then show ?thesis using assms True by (auto simp: with_low_ace_cases concrete_def)
next
  case False
  then show ?thesis using assms by (auto simp: with_low_ace_cases concrete_def)
qed

lemma with_low_ace_numbers:
  assumes "\<forall>c \<in> set cs. weight c \<noteq> None"
  shows "card_number ` set (with_low_ace cs) = seq_numbers cs"
  using assms by (auto simp: with_low_ace_cases seq_numbers_def card_number_def)

lemma run_from_iff: "run_from N lo = (\<forall>j<5. lo + j \<in> N)"
  by (auto simp: run_from_def list_all_iff)

lemma has_run_iff: "has_run N = (\<exists>lo<10. run_from N lo)"
  by (auto simp: has_run_def list_ex_iff)

lemma window_run:
  assumes "b + 5 \<le> 14" and "\<forall>c \<in> set cs. suit c \<noteq> None"
  shows "window (get_rank cs) b = run_from (card_number ` set cs) (9 - b)"
proof -
  have "\<And>j. j < 5 \<Longrightarrow> (suit (get_rank cs ! (b + j)) \<noteq> None) = (13 - (b + j) \<in> card_number ` set cs)"
    using assms by (intro get_rank_real) auto
  then have "window (get_rank cs) b = (\<forall>j<5. 13 - (b + j) \<in> card_number ` set cs)"
    by (simp add: window_iff)
  also have "\<dots> = (\<forall>j<5. 9 - b + j \<in> card_number ` set cs)"
  proof
    assume h: "\<forall>j<5. 13 - (b + j) \<in> card_number ` set cs"
    show "\<forall>j<5. 9 - b + j \<in> card_number ` set cs"
    proof (intro allI impI)
      fix j :: nat assume j: "j < 5"
      then have "4 - j < 5" "13 - (b + (4 - j)) = 9 - b + j" using assms(1) by simp_all
      then show "9 - b + j \<in> card_number ` set cs" using h by metis
    qed
  next
    assume h: "\<forall>j<5. 9 - b + j \<in> card_number ` set cs"
    show "\<forall>j<5. 13 - (b + j) \<in> card_number ` set cs"
    proof (intro allI impI)
      fix j :: nat assume j: "j < 5"
      then have "4 - j < 5" "9 - b + (4 - j) = 13 - (b + j)" using assms(1) by simp_all
      then show "13 - (b + j) \<in> card_number ` set cs" using h by metis
    qed
  qed
  finally show ?thesis by (simp add: run_from_iff)
qed

lemma find_order_found:
  assumes s: "\<forall>c \<in> set cs. suit c \<noteq> None"
    and w: "window (get_rank cs) b0" and least: "\<forall>b<b0. \<not> window (get_rank cs) b"
    and b0: "b0 + 5 \<le> 14"
  shows "\<exists>m. find_order cs =
           Inr \<lparr>order_cards = Some (take 5 (drop b0 (get_rank cs))), five_in_a_row = True,
                max_in_a_row = m, seq_cards = cs\<rparr>"
proof -
  obtain h where h: "find_order_loop (get_rank cs) [0..<14] 0 0 [] =
      (True, Some (take 5 (drop b0 (get_rank cs))), h)"
    using find_order_loop_found[OF w least b0, of 0 0 0 "[]"] by auto
  have "suit (get_rank cs ! (b0 + 0)) \<noteq> None" using w unfolding window_iff by (metis zero_less_numeral)
  then have "\<exists>j \<in> set [0..<14]. suit (get_rank cs ! j) \<noteq> None" using b0 by auto
  then have "snd (snd (find_order_loop (get_rank cs) [0..<14] 0 0 [])) \<noteq> []"
    using find_order_loop_history by blast
  then have "h \<noteq> []" using h by simp
  then show ?thesis using h by (simp add: find_order_def py_max_Max)
qed

lemma find_order_none:
  assumes s: "\<forall>c \<in> set cs. suit c \<noteq> None" and ne: "cs \<noteq> []"
    and nw: "\<forall>b. b + 5 \<le> 14 \<longrightarrow> \<not> window (get_rank cs) b"
  shows "\<exists>m. find_order cs =
           Inr \<lparr>order_cards = None, five_in_a_row = False, max_in_a_row = m, seq_cards = cs\<rparr>"
proof -
  obtain h where h: "find_order_loop (get_rank cs) [0..<14] 0 0 [] = (False, None, h)"
    using find_order_loop_none[OF nw, of 0 0 0 "[]"] by auto
  obtain c where c: "c \<in> set cs" using ne by (cases cs) auto
  have lt: "card_number c < 14" by (simp add: card_number_def number_lt_14)
  then have "13 - (13 - card_number c) \<in> card_number ` set cs" using c by simp
  then have "suit (get_rank cs ! (13 - card_number c)) \<noteq> None"
    using get_rank_real[of "13 - card_number c" cs] s by simp
  then have "\<exists>j \<in> set [0..<14]. suit (get_rank cs ! j) \<noteq> None" by force
  then have "snd (snd (find_order_loop (get_rank cs) [0..<14] 0 0 [])) \<noteq> []"
    using find_order_loop_history by blast
  then have "h \<noteq> []" using h by simp
  then show ?thesis using h by (simp add: find_order_def py_max_Max)
qed

lemma top_run_None: "(top_run N = None) = (\<not> has_run N)"
  by (auto simp: top_run_def has_run_def find_None_iff list_ex_iff)

lemma top_run_Some:
  "(top_run N = Some lo) = (lo < 10 \<and> run_from N lo \<and> (\<forall>l. lo < l \<and> l < 10 \<longrightarrow> \<not> run_from N l))"
proof
  assume "top_run N = Some lo"
  then obtain i where i: "i < length (rev [0..<10])" "run_from N (rev [0..<10] ! i)"
      "lo = rev [0..<10] ! i" "\<forall>j<i. \<not> run_from N (rev [0..<10] ! j)"
    unfolding top_run_def find_Some_iff by blast
  have i10: "i < 10" using i(1) by simp
  have nth: "\<And>j. j < 10 \<Longrightarrow> rev [0..<10] ! j = 9 - j" by (simp add: rev_nth)
  have lo: "lo = 9 - i" using i(3) nth i10 by simp
  have "\<not> run_from N l" if "lo < l" "l < 10" for l
  proof -
    have "9 - l < i" "9 - l < 10" "9 - (9 - l) = l" using that lo i10 by simp_all
    then show ?thesis using i(4) nth by metis
  qed
  then show "lo < 10 \<and> run_from N lo \<and> (\<forall>l. lo < l \<and> l < 10 \<longrightarrow> \<not> run_from N l)"
    using i(2) lo i10 nth by simp
next
  assume a: "lo < 10 \<and> run_from N lo \<and> (\<forall>l. lo < l \<and> l < 10 \<longrightarrow> \<not> run_from N l)"
  have nth: "\<And>j. j < 10 \<Longrightarrow> rev [0..<10] ! j = 9 - j" by (simp add: rev_nth)
  have "9 - lo < length (rev [0..<10])" using a by simp
  moreover have "run_from N (rev [0..<10] ! (9 - lo))" using a nth by simp
  moreover have "lo = rev [0..<10] ! (9 - lo)" using a nth by simp
  moreover have "\<forall>j<9 - lo. \<not> run_from N (rev [0..<10] ! j)"
  proof (intro allI impI)
    fix j assume "j < 9 - lo"
    then have "lo < 9 - j" "9 - j < 10" "j < 10" by simp_all
    then show "\<not> run_from N (rev [0..<10] ! j)" using a nth by simp
  qed
  ultimately show "top_run N = Some lo"
    unfolding top_run_def find_Some_iff by blast
qed

lemma take5_drop_rank:
  assumes "length r = 14" and "b + 5 \<le> 14"
  shows "take 5 (drop b r) = map (\<lambda>j. r ! (b + j)) [0..<5]"
  using assms by (intro nth_equalityI) simp_all

lemma rank_window_cards:
  assumes lo: "lo < 10" and run: "run_from (card_number ` set cs) lo"
  shows "take 5 (drop (9 - lo) (get_rank cs)) = run_cards cs lo"
proof -
  have e: "get_rank cs ! (9 - lo + j) = last (filter (\<lambda>c. card_number c = lo + 4 - j) cs)"
    if j: "j < 5" for j
  proof -
    define v where "v = lo + 4 - j"
    define i where "i = 9 - lo + j"
    have "4 - j < 5" by simp
    then have "lo + (4 - j) \<in> card_number ` set cs" using run unfolding run_from_iff by blast
    moreover have "lo + (4 - j) = v" using j by (simp add: v_def)
    ultimately have ne: "filter (\<lambda>c. card_number c = v) cs \<noteq> []"
      by (auto simp: filter_empty_conv)
    have i14: "i < 14" and iv: "13 - i = v" using lo j by (simp_all add: i_def v_def)
    have "get_rank cs ! i = last (filter (\<lambda>c. card_number c = v) cs)"
      using get_rank_nth[OF i14, of cs] ne unfolding iv by simp
    then show ?thesis by (simp add: i_def v_def)
  qed
  have "take 5 (drop (9 - lo) (get_rank cs)) = map (\<lambda>j. get_rank cs ! (9 - lo + j)) [0..<5]"
    using lo by (intro take5_drop_rank) (simp_all add: get_rank_length)
  also have "\<dots> = map (\<lambda>j. last (filter (\<lambda>c. card_number c = lo + 4 - j) cs)) [0..<5]"
    using e by simp
  also have "\<dots> = run_cards cs lo"
    by (simp add: run_cards_def upt_rec[of 0] upt_rec[of lo] upt_rec[of "Suc lo"] numeral_eq_Suc)
  finally show ?thesis .
qed

lemma find_order_char:
  assumes s: "\<forall>c \<in> set cs. suit c \<noteq> None" and ne: "cs \<noteq> []"
  shows "\<exists>m. find_order cs =
           Inr \<lparr>order_cards = map_option (run_cards cs) (top_run (card_number ` set cs)),
                five_in_a_row = (top_run (card_number ` set cs) \<noteq> None),
                max_in_a_row = m, seq_cards = cs\<rparr>"
proof (cases "top_run (card_number ` set cs)")
  case None
  then have nr: "\<And>l. l < 10 \<Longrightarrow> \<not> run_from (card_number ` set cs) l"
    by (simp add: top_run_None has_run_iff)
  have "\<forall>b. b + 5 \<le> 14 \<longrightarrow> \<not> window (get_rank cs) b"
  proof (intro allI impI)
    fix b :: nat assume b: "b + 5 \<le> 14"
    then have "9 - b < 10" by simp
    then show "\<not> window (get_rank cs) b" using nr window_run[OF b s] by simp
  qed
  from find_order_none[OF s ne this] None show ?thesis by simp
next
  case (Some lo)
  then have lo: "lo < 10" and run: "run_from (card_number ` set cs) lo"
    and top: "\<And>l. lo < l \<Longrightarrow> l < 10 \<Longrightarrow> \<not> run_from (card_number ` set cs) l"
    by (simp_all add: top_run_Some)
  have b0: "9 - lo + 5 \<le> 14" using lo by simp
  have w: "window (get_rank cs) (9 - lo)" using window_run[OF b0 s] run lo by simp
  have least: "\<forall>b<9 - lo. \<not> window (get_rank cs) b"
  proof (intro allI impI)
    fix b assume b: "b < 9 - lo"
    then have b5: "b + 5 \<le> 14" and "lo < 9 - b" "9 - b < 10" using lo by simp_all
    then show "\<not> window (get_rank cs) b" using top window_run[OF b5 s] by simp
  qed
  from find_order_found[OF s w least b0] rank_window_cards[OF lo run] Some show ?thesis by simp
qed

section \<open>The analyzers on a group of dealt cards\<close>

lemma Sequence_init_char:
  assumes ne: "cs \<noteq> []" and c: "\<forall>c \<in> set cs. concrete c"
  shows "\<exists>m. Sequence_init cs =
           Inr \<lparr>order_cards = map_option (run_cards (with_low_ace cs)) (top_run (seq_numbers cs)),
                five_in_a_row = (top_run (seq_numbers cs) \<noteq> None),
                max_in_a_row = m, seq_cards = with_low_ace cs\<rparr>"
proof -
  have w: "\<forall>c \<in> set cs. weight c \<noteq> None" using c by (simp add: concrete_def)
  have s: "\<forall>c \<in> set (with_low_ace cs). suit c \<noteq> None"
    using with_low_ace_concrete[OF c] by (simp add: concrete_def)
  have ne': "with_low_ace cs \<noteq> []" using ne by (simp add: with_low_ace_cases[OF w])
  show ?thesis
    using find_order_char[OF s ne'] by (simp add: Sequence_init_eq with_low_ace_numbers[OF w])
qed

lemma Q_of_fields:
  assumes ne: "cs \<noteq> []" and c: "\<forall>c \<in> set cs. concrete c"
  shows "Sequence_init cs = Inr (Q_of cs)"
    and "order_cards (Q_of cs) = map_option (run_cards (with_low_ace cs)) (top_run (seq_numbers cs))"
    and "five_in_a_row (Q_of cs) = (top_run (seq_numbers cs) \<noteq> None)"
    and "seq_cards (Q_of cs) = with_low_ace cs"
  using Sequence_init_char[OF ne c] by (auto simp: Q_of_def)

lemma fold_add_repeat_fields:
  fixes r :: weight_repeats
  shows "four (fold (\<lambda>c. add_repeat xs (K c)) cs r) = four r"
    and "three (fold (\<lambda>c. add_repeat xs (K c)) cs r) = three r"
    and "two (fold (\<lambda>c. add_repeat xs (K c)) cs r) = two r"
    and "double_two (fold (\<lambda>c. add_repeat xs (K c)) cs r) = double_two r"
  by (induction cs arbitrary: r) (simp_all add: add_repeat_def Let_def)

lemma weight_table_fields:
  "four (fst (get_all_repeats xs (WeightRepeats_init, SuitRepeats_init))) = None"
  "three (fst (get_all_repeats xs (WeightRepeats_init, SuitRepeats_init))) = None"
  "two (fst (get_all_repeats xs (WeightRepeats_init, SuitRepeats_init))) = None"
  "double_two (fst (get_all_repeats xs (WeightRepeats_init, SuitRepeats_init))) = None"
  by (simp_all add: get_all_repeats_split fold_add_repeat_fields)
     (simp_all add: WeightRepeats_init_def)

lemma weight_table_lookup:
  assumes "\<forall>c \<in> set xs. weight c \<noteq> None"
  shows "map_of (rep_all (fst (get_all_repeats xs (WeightRepeats_init, SuitRepeats_init)))) n =
           (if weight_keys xs n = [] then None else Some (weight_keys xs n))"
  using weight_repeats_char[OF assms] by (auto simp: rep_inv_def weight_keys_def)

lemma W_of_fields:
  assumes "\<forall>c \<in> set xs. weight c \<noteq> None"
  shows "four (W_of xs) = (if weight_keys xs 4 = [] then None else Some (hd (weight_keys xs 4)))"
    and "three (W_of xs) =
           (if weight_keys xs 4 = [] \<and> weight_keys xs 3 \<noteq> [] then Some (last (weight_keys xs 3))
            else None)"
    and "two (W_of xs) =
           (if weight_keys xs 4 \<noteq> [] then None
            else if weight_keys xs 3 \<noteq> []
              then (if length (weight_keys xs 3) = 2 then Some (weight_keys xs 3 ! 0)
                    else if weight_keys xs 2 \<noteq> [] then Some (last (weight_keys xs 2))
                    else None)
            else if length (weight_keys xs 2) = 1 then Some (last (weight_keys xs 2))
            else None)"
    and "double_two (W_of xs) =
           (if weight_keys xs 4 = [] \<and> weight_keys xs 3 = [] \<and> length (weight_keys xs 2) > 1
            then Some (py_suffix (weight_keys xs 2) 2) else None)"
proof -
  have l: "weight_keys xs 2 = [] \<or> length (weight_keys xs 2) = 1 \<or> 1 < length (weight_keys xs 2)"
    by (cases "weight_keys xs 2") auto
  show "four (W_of xs) = (if weight_keys xs 4 = [] then None else Some (hd (weight_keys xs 4)))"
    and "three (W_of xs) =
           (if weight_keys xs 4 = [] \<and> weight_keys xs 3 \<noteq> [] then Some (last (weight_keys xs 3))
            else None)"
    and "two (W_of xs) =
           (if weight_keys xs 4 \<noteq> [] then None
            else if weight_keys xs 3 \<noteq> []
              then (if length (weight_keys xs 3) = 2 then Some (weight_keys xs 3 ! 0)
                    else if weight_keys xs 2 \<noteq> [] then Some (last (weight_keys xs 2))
                    else None)
            else if length (weight_keys xs 2) = 1 then Some (last (weight_keys xs 2))
            else None)"
    and "double_two (W_of xs) =
           (if weight_keys xs 4 = [] \<and> weight_keys xs 3 = [] \<and> length (weight_keys xs 2) > 1
            then Some (py_suffix (weight_keys xs 2) 2) else None)"
    using l unfolding W_of_def get_repeat_kind_def
    by (auto simp: weight_table_lookup[OF assms] weight_table_fields Let_def
             split: option.splits)
qed

lemma suit_table_lookup:
  "map_of (rep_all (snd (get_all_repeats xs (WeightRepeats_init, SuitRepeats_init)))) n =
     (if suit_keys xs n = [] then None else Some (suit_keys xs n))"
  using suit_repeats_char[of xs] by (auto simp: rep_inv_def suit_keys_def)

lemma suit_table_keys:
  "set (map fst (rep_all (snd (get_all_repeats xs (WeightRepeats_init, SuitRepeats_init))))) =
     count_cards xs ` s_card ` set xs"
  using suit_repeats_char[of xs] rep_inv_keys[of xs "snd (get_all_repeats xs (WeightRepeats_init, SuitRepeats_init))"]
  by (simp add: first_occ_set)

lemma flush_or_not_ok:
  assumes "xs \<noteq> []"
  shows "flush_or_not (snd (get_all_repeats xs (WeightRepeats_init, SuitRepeats_init))) =
           Inr (S_of xs)"
proof -
  let ?S = "snd (get_all_repeats xs (WeightRepeats_init, SuitRepeats_init))"
  have "set (map fst (rep_all ?S)) \<noteq> {}" using assms by (simp only: suit_table_keys) simp
  then have "map fst (rep_all ?S) \<noteq> []" by auto
  then obtain m where "py_max (map fst (rep_all ?S)) = Inr m" using py_max_Max by blast
  then show ?thesis by (simp add: S_of_def flush_or_not_def)
qed

lemma Repeats_init_ok:
  assumes "xs \<noteq> []"
  shows "Repeats_init xs = Inr (W_of xs, S_of xs)"
proof -
  obtain w s where ws: "get_all_repeats xs (WeightRepeats_init, SuitRepeats_init) = (w, s)"
    by (cases "get_all_repeats xs (WeightRepeats_init, SuitRepeats_init)")
  have "flush_or_not s = Inr (S_of xs)" using flush_or_not_ok[OF assms] ws by simp
  then show ?thesis using ws by (simp add: Repeats_init_def W_of_def)
qed

lemma S_of_fields:
  assumes "xs \<noteq> []"
  shows "max_repeats (S_of xs) = Max (count_cards xs ` s_card ` set xs)"
    and "five_or_more (S_of xs) = (5 \<le> Max (count_cards xs ` s_card ` set xs))"
    and "flush_card (S_of xs) = Some (hd (suit_keys xs (Max (count_cards xs ` s_card ` set xs))))"
proof -
  let ?S = "snd (get_all_repeats xs (WeightRepeats_init, SuitRepeats_init))"
  let ?m = "Max (count_cards xs ` s_card ` set xs)"
  have "set (map fst (rep_all ?S)) \<noteq> {}" using assms by (simp only: suit_table_keys) simp
  then have ne: "map fst (rep_all ?S) \<noteq> []" by auto
  have pm: "py_max (map fst (rep_all ?S)) = Inr ?m"
    using py_max_Max[OF ne] by (simp only: suit_table_keys)
  have fin: "finite (count_cards xs ` s_card ` set xs)" "count_cards xs ` s_card ` set xs \<noteq> {}"
    using assms by simp_all
  have "?m \<in> count_cards xs ` s_card ` set xs" using Max_in[OF fin] .
  then have "?m \<in> count_cards xs ` set (first_occ (map s_card xs))" by (simp add: first_occ_set)
  then have k: "suit_keys xs ?m \<noteq> []"
    by (auto simp: suit_keys_def keys_with_count_def filter_empty_conv)
  have S: "S_of xs = ?S\<lparr>max_repeats := ?m, five_or_more := (5 \<le> ?m),
                        flush_card := Some (hd (the (map_of (rep_all ?S) ?m)))\<rparr>"
    using pm by (simp add: S_of_def flush_or_not_def)
  show "max_repeats (S_of xs) = ?m" by (simp add: S)
  show "five_or_more (S_of xs) = (5 \<le> ?m)" by (simp add: S)
  show "flush_card (S_of xs) = Some (hd (suit_keys xs ?m))"
    using k by (simp add: S suit_table_lookup)
qed

lemma count_s_card: "count_cards xs (s_card c) = length (filter (\<lambda>y. suit y = suit c) xs)"
  by (simp add: count_cards_def card_eq_def s_card_def)

lemma count_w_card:
  assumes "\<forall>c \<in> set xs. weight c \<noteq> None" and "weight c \<noteq> None"
  shows "count_cards xs (w_card c) = length (filter (\<lambda>y. card_number y = card_number c) xs)"
proof -
  have "filter (\<lambda>y. card_eq y (w_card c)) xs = filter (\<lambda>y. card_number y = card_number c) xs"
    using assms by (intro filter_cong) (auto simp: card_eq_def w_card_def card_number_def)
  then show ?thesis by (simp add: count_cards_def)
qed

lemma flush_card_props:
  assumes "xs \<noteq> []"
  shows "\<exists>c \<in> set xs. flush_card (S_of xs) = Some (s_card c) \<and>
           count_cards xs (s_card c) = max_repeats (S_of xs) \<and>
           (\<forall>d \<in> set xs. count_cards xs (s_card d) \<le> count_cards xs (s_card c))"
proof -
  let ?m = "Max (count_cards xs ` s_card ` set xs)"
  have fin: "finite (count_cards xs ` s_card ` set xs)" "count_cards xs ` s_card ` set xs \<noteq> {}"
    using assms by simp_all
  have "?m \<in> count_cards xs ` s_card ` set xs" using Max_in[OF fin] .
  then have "?m \<in> count_cards xs ` set (first_occ (map s_card xs))" by (simp add: first_occ_set)
  then have k: "suit_keys xs ?m \<noteq> []"
    by (auto simp: suit_keys_def keys_with_count_def filter_empty_conv)
  then have "hd (suit_keys xs ?m) \<in> set (suit_keys xs ?m)" by (rule hd_in_set)
  then have h: "hd (suit_keys xs ?m) \<in> s_card ` set xs" "count_cards xs (hd (suit_keys xs ?m)) = ?m"
    by (auto simp: suit_keys_def keys_with_count_def first_occ_set)
  then obtain c where c: "c \<in> set xs" "hd (suit_keys xs ?m) = s_card c" by auto
  have "\<forall>d \<in> set xs. count_cards xs (s_card d) \<le> ?m" using fin(1) by (auto intro: Max_ge)
  then show ?thesis using c h S_of_fields[OF assms] by auto
qed

lemma five_or_more_iff:
  assumes "xs \<noteq> []"
  shows "five_or_more (S_of xs) = (\<exists>c \<in> set xs. 5 \<le> count_cards xs (s_card c))"
proof -
  have fin: "finite (count_cards xs ` s_card ` set xs)" "count_cards xs ` s_card ` set xs \<noteq> {}"
    using assms by simp_all
  show ?thesis using Max_ge_iff[OF fin, of 5] by (auto simp: S_of_fields[OF assms])
qed

lemma sort_cards_set: "set (sort_cards g) = set g"
  by (simp add: sort_cards_def)

lemma sort_cards_length: "length (sort_cards g) = length g"
  by (simp add: sort_cards_def)

lemma sort_cards_Nil: "(sort_cards g = []) = (g = [])"
  using sort_cards_length[of g] by (metis length_0_conv)

lemma sort_cards_sorted: "sorted (map card_number (sort_cards g))"
  by (simp add: sort_cards_def)

lemma flush_filter:
  assumes "xs \<noteq> []"
  shows "\<exists>c \<in> set xs. flush_card (S_of xs) = Some (s_card c) \<and>
           filter (\<lambda>x. card_eq x (the (flush_card (S_of xs)))) xs =
             filter (\<lambda>x. suit x = suit c) xs"
proof -
  obtain c where c: "c \<in> set xs" "flush_card (S_of xs) = Some (s_card c)"
    using flush_card_props[OF assms] by blast
  have "filter (\<lambda>x. card_eq x (s_card c)) xs = filter (\<lambda>x. suit x = suit c) xs"
    by (intro filter_cong) (auto simp: card_eq_def s_card_def)
  then show ?thesis using c by auto
qed

text \<open>
  On a non-empty group of dealt cards no step of \<open>find_combo\<close> raises: the result is
  the selection on the sorted group.
\<close>

lemma classify_unfold:
  assumes ne: "g \<noteq> []" and c: "\<forall>c \<in> set g. concrete c"
  shows "classify g =
     Inr (if \<not> five_or_more (S_of (sort_cards g))
          then (let c = new_combo (sort_cards g) (W_of (sort_cards g)) (S_of (sort_cards g))
                          (Q_of (sort_cards g))
                in if four (W_of (sort_cards g)) \<noteq> None then get_four_of_a_kind c
                   else if three (W_of (sort_cards g)) \<noteq> None \<and> two (W_of (sort_cards g)) \<noteq> None
                     then get_full_house c
                   else if five_in_a_row (Q_of (sort_cards g)) then get_straight c
                   else if three (W_of (sort_cards g)) \<noteq> None then get_three_of_a_kind c
                   else if double_two (W_of (sort_cards g)) \<noteq> None then get_two_pairs c
                   else if two (W_of (sort_cards g)) \<noteq> None then get_one_pair c
                   else get_high_card c)
          else (let fl = filter (\<lambda>x. card_eq x (the (flush_card (S_of (sort_cards g)))))
                           (sort_cards g);
                    c = new_combo (sort_cards g) (W_of (sort_cards g)) (S_of (sort_cards g))
                          (Q_of fl)
                in if five_in_a_row (Q_of fl) then get_straight_flush c else get_flush c))"
proof -
  let ?xs = "sort_cards g"
  have xne: "?xs \<noteq> []" using ne by (simp add: sort_cards_Nil)
  have xc: "\<forall>c \<in> set ?xs. concrete c" using c by (simp add: sort_cards_set)
  have g1: "\<not> list_ex (\<lambda>c. weight c = None) g" using c by (auto simp: list_ex_iff concrete_def)
  have g2: "\<not> list_ex (\<lambda>c. suit c = None) ?xs" using xc by (auto simp: list_ex_iff concrete_def)
  have sq: "Sequence_init ?xs = Inr (Q_of ?xs)" using Q_of_fields(1)[OF xne xc] .
  let ?fl = "filter (\<lambda>x. card_eq x (the (flush_card (S_of ?xs)))) ?xs"
  obtain d where d: "d \<in> set ?xs" "flush_card (S_of ?xs) = Some (s_card d)"
    "?fl = filter (\<lambda>x. suit x = suit d) ?xs"
    using flush_filter[OF xne] by blast
  have "d \<in> set ?fl" using d by simp
  then have fne: "?fl \<noteq> []" by (metis empty_iff empty_set)
  have fc: "\<forall>c \<in> set ?fl. concrete c" using xc by simp
  have sqf: "Sequence_init ?fl = Inr (Q_of ?fl)" using Q_of_fields(1)[OF fne fc] .
  show ?thesis
    unfolding classify_def find_combo_def
    using g1 g2 by (simp add: Let_def Repeats_init_ok[OF xne] sq sqf)
qed

section \<open>The comparator\<close>

lemma compare_first_diff:
  "i < length xs \<Longrightarrow> i < length ys \<Longrightarrow> (\<forall>j<i. \<not> card_ne (xs ! j) (ys ! j)) \<Longrightarrow>
   card_ne (xs ! i) (ys ! i) \<Longrightarrow> compare xs ys cond e = eval_condition cond (xs ! i) (ys ! i)"
proof (induction xs ys cond e arbitrary: i rule: compare.induct)
  case (1 card1 xs card2 ys cond evn)
  show ?case
  proof (cases i)
    case 0
    with 1 show ?thesis by simp
  next
    case (Suc k)
    from 1(3,4,5) Suc have h0: "\<not> card_ne card1 card2" by auto
    from 1(3,4,5) Suc have hk: "\<forall>j<k. \<not> card_ne (xs ! j) (ys ! j)" by auto
    from 1 Suc h0 hk show ?thesis by simp
  qed
qed simp_all

lemma compare_all_eq:
  "(\<forall>j. j < length xs \<and> j < length ys \<longrightarrow> \<not> card_ne (xs ! j) (ys ! j)) \<Longrightarrow>
   compare xs ys cond e = e"
proof (induction xs ys cond e rule: compare.induct)
  case (1 card1 xs card2 ys cond evn)
  from 1(2) have h0: "\<not> card_ne card1 card2" by auto
  from 1(2) have hk: "\<forall>j. j < length xs \<and> j < length ys \<longrightarrow> \<not> card_ne (xs ! j) (ys ! j)"
    by auto
  from 1 h0 hk show ?case by simp
qed simp_all

lemma card_ne_number:
  "weight a \<noteq> None \<Longrightarrow> weight b \<noteq> None \<Longrightarrow> card_ne a b = (card_number a \<noteq> card_number b)"
  by (simp add: card_ne_def)

lemma card_eq_number:
  "weight a \<noteq> None \<Longrightarrow> weight b \<noteq> None \<Longrightarrow> card_eq a b = (card_number a = card_number b)"
  by (simp add: card_eq_def)

text \<open>
  Claim C3. Two combinations (each with its type set and five cards that have weights)
  compare first by the rank of the kind; with equal kinds the first position at which
  the two card lists differ in weight decides; with equal weights at all five positions
  the combinations are equal, whatever the suits.
\<close>

theorem combo_comparison_order:
  assumes ta: "combo_type a = Some ta" and tb: "combo_type b = Some tb"
    and la: "length (cards a) = 5" and lb: "length (cards b) = 5"
    and wa: "\<forall>c \<in> set (cards a). weight c \<noteq> None"
    and wb: "\<forall>c \<in> set (cards b). weight c \<noteq> None"
  shows "(ta < tb \<longrightarrow> combo_lt a b \<and> \<not> combo_gt a b \<and> \<not> combo_eq a b \<and> combo_ne a b \<and>
                        combo_gt b a \<and> \<not> combo_lt b a) \<and>
         (ta = tb \<longrightarrow>
            (\<forall>i<5. (\<forall>j<i. card_number (cards a ! j) = card_number (cards b ! j)) \<and>
                    card_number (cards a ! i) \<noteq> card_number (cards b ! i) \<longrightarrow>
                 combo_lt a b = (card_number (cards a ! i) < card_number (cards b ! i)) \<and>
                 combo_gt a b = (card_number (cards a ! i) > card_number (cards b ! i)) \<and>
                 \<not> combo_eq a b \<and> combo_ne a b) \<and>
            ((\<forall>j<5. card_number (cards a ! j) = card_number (cards b ! j)) \<longrightarrow>
                 combo_eq a b \<and> \<not> combo_lt a b \<and> \<not> combo_gt a b \<and> \<not> combo_ne a b))"
proof -
  have wA: "\<And>j. j < 5 \<Longrightarrow> weight (cards a ! j) \<noteq> None" using wa la by (metis nth_mem)
  have wB: "\<And>j. j < 5 \<Longrightarrow> weight (cards b ! j) \<noteq> None" using wb lb by (metis nth_mem)
  have ne: "\<And>j. j < 5 \<Longrightarrow> card_ne (cards a ! j) (cards b ! j) =
                  (card_number (cards a ! j) \<noteq> card_number (cards b ! j))"
    using wA wB by (simp add: card_ne_number)
  have p1: "ta < tb \<longrightarrow> combo_lt a b \<and> \<not> combo_gt a b \<and> \<not> combo_eq a b \<and> combo_ne a b \<and>
                        combo_gt b a \<and> \<not> combo_lt b a"
    using ta tb by (simp add: combo_lt_def combo_gt_def combo_eq_def combo_ne_def)
  have p2: "combo_lt a b = (card_number (cards a ! i) < card_number (cards b ! i)) \<and>
            combo_gt a b = (card_number (cards a ! i) > card_number (cards b ! i)) \<and>
            \<not> combo_eq a b \<and> combo_ne a b"
    if t: "ta = tb" and i: "i < 5"
      and pre: "\<forall>j<i. card_number (cards a ! j) = card_number (cards b ! j)"
      and d: "card_number (cards a ! i) \<noteq> card_number (cards b ! i)" for i
  proof -
    have pre': "\<forall>j<i. \<not> card_ne (cards a ! j) (cards b ! j)" using pre ne i by auto
    have d': "card_ne (cards a ! i) (cards b ! i)" using d ne i by auto
    have c: "\<And>cond e. compare (cards a) (cards b) cond e =
                        eval_condition cond (cards a ! i) (cards b ! i)"
      using compare_first_diff[of i "cards a" "cards b"] i la lb pre' d' by simp
    have e: "\<not> card_eq (cards a ! i) (cards b ! i)"
      using d wA[OF i] wB[OF i] by (simp add: card_eq_number)
    show ?thesis
      using ta tb t c e
      by (simp add: combo_lt_def combo_gt_def combo_eq_def combo_ne_def cards_eq_def
            cards_lt_def cards_gt_def card_lt_def card_gt_def)
  qed
  have p3: "combo_eq a b \<and> \<not> combo_lt a b \<and> \<not> combo_gt a b \<and> \<not> combo_ne a b"
    if t: "ta = tb" and al: "\<forall>j<5. card_number (cards a ! j) = card_number (cards b ! j)"
  proof -
    have "\<forall>j. j < length (cards a) \<and> j < length (cards b) \<longrightarrow>
              \<not> card_ne (cards a ! j) (cards b ! j)"
      using al ne la lb by auto
    then have c: "\<And>cond e. compare (cards a) (cards b) cond e = e" by (rule compare_all_eq)
    show ?thesis using ta tb t c
      by (simp add: combo_lt_def combo_gt_def combo_eq_def combo_ne_def cards_eq_def
            cards_lt_def cards_gt_def)
  qed
  show ?thesis using p1 p2 p3 by blast
qed

text \<open>
  The theorem at two flushes with the weights A, 9, 7, 4, 2, one in spades and one in
  hearts: they are equal.
\<close>

theorem combo_comparison_order_witness:
  "combo_eq
     (projr (classify [table_card WA Spades, table_card W9 Spades, table_card W7 Spades,
                       table_card W4 Spades, table_card W2 Spades]))
     (projr (classify [table_card W2 Hearts, table_card W4 Hearts, table_card W7 Hearts,
                       table_card W9 Hearts, table_card WA Hearts])) \<and>
   \<not> combo_lt
     (projr (classify [table_card WA Spades, table_card W9 Spades, table_card W7 Spades,
                       table_card W4 Spades, table_card W2 Spades]))
     (projr (classify [table_card W2 Hearts, table_card W4 Hearts, table_card W7 Hearts,
                       table_card W9 Hearts, table_card WA Hearts])) \<and>
   \<not> combo_gt
     (projr (classify [table_card WA Spades, table_card W9 Spades, table_card W7 Spades,
                       table_card W4 Spades, table_card W2 Spades]))
     (projr (classify [table_card W2 Hearts, table_card W4 Hearts, table_card W7 Hearts,
                       table_card W9 Hearts, table_card WA Hearts]))"
  (is "combo_eq ?A ?B \<and> _")
proof -
  have ta: "combo_type ?A = Some FLUSH" by code_simp
  have tb: "combo_type ?B = Some FLUSH" by code_simp
  have ca: "cards ?A = [table_card WA Spades, table_card W9 Spades, table_card W7 Spades,
                        table_card W4 Spades, table_card W2 Spades]" by code_simp
  have cb: "cards ?B = [table_card WA Hearts, table_card W9 Hearts, table_card W7 Hearts,
                        table_card W4 Hearts, table_card W2 Hearts]" by code_simp
  have la: "length (cards ?A) = 5" and lb: "length (cards ?B) = 5"
    using ca cb by simp_all
  have wa: "\<forall>c \<in> set (cards ?A). weight c \<noteq> None"
    and wb: "\<forall>c \<in> set (cards ?B). weight c \<noteq> None"
    using ca cb unfolding table_card_def by simp_all
  have eqn: "map card_number (cards ?A) = map card_number (cards ?B)"
    using ca cb unfolding table_card_def by (simp add: card_number_def)
  have al: "\<forall>j<5. card_number (cards ?A ! j) = card_number (cards ?B ! j)"
  proof (intro allI impI)
    fix j :: nat assume "j < 5"
    then have "card_number (cards ?A ! j) = map card_number (cards ?A) ! j"
      and "card_number (cards ?B ! j) = map card_number (cards ?B) ! j"
      using la lb by simp_all
    then show "card_number (cards ?A ! j) = card_number (cards ?B ! j)" using eqn by simp
  qed
  from combo_comparison_order[OF ta tb la lb wa wb] al show ?thesis by blast
qed

section \<open>Properties of the selection\<close>

lemma w_card_number: "card_number (w_card c) = card_number c"
  by (simp add: w_card_def card_number_def)

lemma w_card_weight: "weight (w_card c) = weight c"
  by (simp add: w_card_def)

lemma card_eq_key:
  assumes "weight x \<noteq> None" and "weight k \<noteq> None"
  shows "card_eq x k = (card_number x = card_number k)"
  using assms by (simp add: card_eq_def)

lemma filter_card_eq_key:
  assumes "\<forall>c \<in> set xs. weight c \<noteq> None" and "weight k \<noteq> None"
  shows "filter (\<lambda>x. card_eq x k) xs = filter (\<lambda>x. card_number x = card_number k) xs"
  using assms by (intro filter_cong) (auto simp: card_eq_key)

lemma weight_keys_mem:
  assumes "k \<in> set (weight_keys xs n)"
  shows "\<exists>c \<in> set xs. k = w_card c" and "count_cards xs k = n"
  using assms by (auto simp: weight_keys_def keys_with_count_def first_occ_set)

lemma weight_keys_props:
  assumes w: "\<forall>c \<in> set xs. weight c \<noteq> None" and k: "k \<in> set (weight_keys xs n)"
  shows "weight k \<noteq> None"
    and "card_number k \<in> card_number ` set xs"
    and "filter (\<lambda>x. card_eq x k) xs = filter (\<lambda>x. card_number x = card_number k) xs"
    and "length (filter (\<lambda>x. card_number x = card_number k) xs) = n"
proof -
  obtain c where c: "c \<in> set xs" "k = w_card c" using weight_keys_mem(1)[OF k] by blast
  show wk: "weight k \<noteq> None" using c w by (simp add: w_card_weight)
  show "card_number k \<in> card_number ` set xs" using c by (simp add: w_card_number)
  show f: "filter (\<lambda>x. card_eq x k) xs = filter (\<lambda>x. card_number x = card_number k) xs"
    using filter_card_eq_key[OF w wk] .
  show "length (filter (\<lambda>x. card_number x = card_number k) xs) = n"
    using weight_keys_mem(2)[OF k] f by (simp add: count_cards_def)
qed

lemma weight_keys_intro:
  assumes w: "\<forall>c \<in> set xs. weight c \<noteq> None" and c: "c \<in> set xs"
    and n: "length (filter (\<lambda>x. card_number x = card_number c) xs) = n"
  shows "w_card c \<in> set (weight_keys xs n)"
proof -
  have "weight c \<noteq> None" using w c by simp
  then have "count_cards xs (w_card c) = n" using count_w_card[OF w] n by simp
  then show ?thesis using c by (simp add: weight_keys_def keys_with_count_def first_occ_set)
qed

lemma key_by_number:
  assumes "k \<in> w_card ` A" "k' \<in> w_card ` A" "\<forall>c \<in> A. weight c \<noteq> None"
    and "card_number k = card_number k'"
  shows "k = k'"
proof -
  obtain c c' where c: "c \<in> A" "k = w_card c" "c' \<in> A" "k' = w_card c'"
    using assms(1,2) by auto
  have "weight c \<noteq> None" "weight c' \<noteq> None" using c assms(3) by blast+
  then obtain u u' where u: "weight c = Some u" "weight c' = Some u'" by auto
  have "number u = number u'" using assms(4) c u by (simp add: w_card_def card_number_def)
  then show ?thesis using c u by (simp add: w_card_def number_inj)
qed

lemma weight_keys_sorted:
  assumes w: "\<forall>c \<in> set xs. weight c \<noteq> None" and s: "sorted (map card_number xs)"
  shows "sorted_wrt (<) (map card_number (weight_keys xs n))"
proof -
  let ?ks = "first_occ (map w_card xs)"
  have e: "map card_number (map w_card xs) = map card_number xs" by (simp add: w_card_number)
  have "sorted (map card_number (map w_card xs))" unfolding e using s .
  then have srt: "sorted (map card_number ?ks)" by (rule first_occ_sorted)
  have inj: "inj_on card_number (set ?ks)"
  proof (rule inj_onI)
    fix a b assume "a \<in> set ?ks" "b \<in> set ?ks" "card_number a = card_number b"
    then show "a = b" using key_by_number[of a "set xs" b] w by (simp add: first_occ_set)
  qed
  have "distinct (map card_number ?ks)"
    using first_occ_distinct[of "map w_card xs"] inj by (simp add: distinct_map)
  then have "sorted_wrt (<) (map card_number ?ks)" using srt by (simp add: strict_sorted_iff)
  then have "sorted_wrt (\<lambda>a b. card_number a < card_number b) ?ks" by (simp add: sorted_wrt_map)
  then have "sorted_wrt (\<lambda>a b. card_number a < card_number b) (weight_keys xs n)"
    unfolding weight_keys_def keys_with_count_def by (rule sorted_wrt_filter)
  then show ?thesis by (simp add: sorted_wrt_map)
qed

lemma card_in_items:
  assumes "weight c \<noteq> None" and "\<forall>y \<in> set items. weight y \<noteq> None"
  shows "card_in c items = (card_number c \<in> card_number ` set items)"
proof -
  have "card_in c items = (\<exists>y \<in> set items. card_number y = card_number c)"
    using assms by (auto simp: card_in_def list_ex_iff card_eq_key)
  also have "\<dots> = (card_number c \<in> card_number ` set items)"
    unfolding image_iff by metis
  finally show ?thesis .
qed

lemma get_other_cards_eq:
  assumes "\<forall>c \<in> set xs. weight c \<noteq> None" and "\<forall>y \<in> set items. weight y \<noteq> None"
    and "length items \<le> 5"
  shows "get_other_cards items xs =
     items @ take (5 - length items)
               (rev (filter (\<lambda>c. card_number c \<notin> card_number ` set items) xs))"
proof -
  have f: "filter (\<lambda>c. \<not> card_in c items) xs =
           filter (\<lambda>c. card_number c \<notin> card_number ` set items) xs"
    using assms(1,2) by (intro filter_cong) (auto simp: card_in_items)
  have "py_prefix ys (5 - int (length items)) = take (5 - length items) ys" for ys :: "card list"
    using assms(3) by (simp add: py_prefix_def nat_diff_distrib')
  then show ?thesis by (auto simp: get_other_cards_def f Let_def)
qed

lemma sorted_filter_number:
  "sorted (map card_number xs) \<Longrightarrow> sorted (map card_number (filter P xs))"
  by (rule sorted_filter)

lemma filter_two_numbers:
  assumes "sorted (map f xs)" and "(a::nat) < b"
  shows "filter (\<lambda>x. f x = a \<or> f x = b) xs = filter (\<lambda>x. f x = a) xs @ filter (\<lambda>x. f x = b) xs"
  using assms(1)
proof (induction xs)
  case Nil
  then show ?case by simp
next
  case (Cons x xs)
  have ih: "filter (\<lambda>x. f x = a \<or> f x = b) xs = filter (\<lambda>x. f x = a) xs @ filter (\<lambda>x. f x = b) xs"
    using Cons by simp
  show ?case
  proof (cases "f x = b")
    case True
    have "\<forall>y \<in> set xs. f x \<le> f y" using Cons.prems by simp
    then have "filter (\<lambda>x. f x = a) xs = []" using True assms(2) by (auto simp: filter_empty_conv)
    then show ?thesis using True ih assms(2) by simp
  next
    case False
    then show ?thesis using ih by simp
  qed
qed

text \<open>A group of equal weight followed by the highest of the other cards.\<close>

lemma group_with_kickers:
  assumes w: "\<forall>c \<in> set xs. weight c \<noteq> None" and k: "k \<in> set (weight_keys xs m)"
    and m: "1 \<le> m" "m \<le> 5" and n: "5 \<le> length xs"
  shows "get_other_cards (filter (\<lambda>x. card_eq x k) xs) xs =
           filter (\<lambda>x. card_number x = card_number k) xs @
           take (5 - m) (rev (filter (\<lambda>x. card_number x \<noteq> card_number k) xs))"
    and "length (get_other_cards (filter (\<lambda>x. card_eq x k) xs) xs) = 5"
proof -
  let ?v = "card_number k"
  let ?F = "filter (\<lambda>x. card_number x = ?v) xs"
  have F: "filter (\<lambda>x. card_eq x k) xs = ?F" and lF: "length ?F = m"
    using weight_keys_props[OF w k] by simp_all
  have Fne: "?F \<noteq> []" using lF m(1) by auto
  have nums: "card_number ` set ?F = {?v}" using Fne by (auto simp: filter_empty_conv)
  have wF: "\<forall>y \<in> set ?F. weight y \<noteq> None" using w by simp
  have l5: "length ?F \<le> 5" using lF m(2) by simp
  have "get_other_cards ?F xs =
          ?F @ take (5 - length ?F) (rev (filter (\<lambda>c. card_number c \<notin> {?v}) xs))"
    using get_other_cards_eq[OF w wF l5] unfolding nums .
  then have "get_other_cards ?F xs =
          ?F @ take (5 - m) (rev (filter (\<lambda>x. card_number x \<noteq> ?v) xs))"
    unfolding lF by simp
  then show e: "get_other_cards (filter (\<lambda>x. card_eq x k) xs) xs =
           ?F @ take (5 - m) (rev (filter (\<lambda>x. card_number x \<noteq> ?v) xs))"
    unfolding F .
  have "length ?F + length (filter (\<lambda>x. card_number x \<noteq> ?v) xs) = length xs"
    using sum_length_filter_compl[of "\<lambda>x. card_number x = ?v" xs] by simp
  then have "5 - m \<le> length (filter (\<lambda>x. card_number x \<noteq> ?v) xs)" using lF n by simp
  then show "length (get_other_cards (filter (\<lambda>x. card_eq x k) xs) xs) = 5"
    using e lF m by simp
qed

lemma combo_fields:
  "combo_type (get_straight_flush (new_combo xs w s q)) = Some STRAIGHT_FLUSH"
  "cards (get_straight_flush (new_combo xs w s q)) = the (order_cards q)"
  "combo_type (get_four_of_a_kind (new_combo xs w s q)) = Some FOUR_OF_A_KIND"
  "cards (get_four_of_a_kind (new_combo xs w s q)) =
     get_other_cards (filter (\<lambda>x. card_eq x (the (four w))) xs) xs"
  "combo_type (get_full_house (new_combo xs w s q)) = Some FULL_HOUSE"
  "cards (get_full_house (new_combo xs w s q)) =
     filter (\<lambda>x. card_eq x (the (three w))) xs @ take 2 (filter (\<lambda>x. card_eq x (the (two w))) xs)"
  "combo_type (get_flush (new_combo xs w s q)) = Some FLUSH"
  "cards (get_flush (new_combo xs w s q)) = rev (py_suffix (seq_cards q) 5)"
  "combo_type (get_straight (new_combo xs w s q)) = Some STRAIGHT"
  "cards (get_straight (new_combo xs w s q)) = the (order_cards q)"
  "combo_type (get_three_of_a_kind (new_combo xs w s q)) = Some THREE_OF_A_KIND"
  "cards (get_three_of_a_kind (new_combo xs w s q)) =
     get_other_cards (filter (\<lambda>x. card_eq x (the (three w))) xs) xs"
  "combo_type (get_two_pairs (new_combo xs w s q)) = Some TWO_PAIRS"
  "cards (get_two_pairs (new_combo xs w s q)) =
     get_other_cards (drop 2 (filter (\<lambda>x. card_in x (the (double_two w))) xs) @
                      take 2 (filter (\<lambda>x. card_in x (the (double_two w))) xs)) xs"
  "combo_type (get_one_pair (new_combo xs w s q)) = Some ONE_PAIR"
  "cards (get_one_pair (new_combo xs w s q)) =
     get_other_cards (filter (\<lambda>x. card_eq x (the (two w))) xs) xs"
  "combo_type (get_high_card (new_combo xs w s q)) = Some HIGH_CARD"
  "cards (get_high_card (new_combo xs w s q)) = rev (py_suffix xs 5)"
  by (simp_all add: get_straight_flush_def get_four_of_a_kind_def get_full_house_def
        get_flush_def get_straight_def get_three_of_a_kind_def get_two_pairs_def
        get_one_pair_def get_high_card_def new_combo_def Let_def)

lemma combo_init_cards:
  "init_cards (get_straight_flush (new_combo xs w s q)) = xs"
  "init_cards (get_four_of_a_kind (new_combo xs w s q)) = xs"
  "init_cards (get_full_house (new_combo xs w s q)) = xs"
  "init_cards (get_flush (new_combo xs w s q)) = xs"
  "init_cards (get_straight (new_combo xs w s q)) = xs"
  "init_cards (get_three_of_a_kind (new_combo xs w s q)) = xs"
  "init_cards (get_two_pairs (new_combo xs w s q)) = xs"
  "init_cards (get_one_pair (new_combo xs w s q)) = xs"
  "init_cards (get_high_card (new_combo xs w s q)) = xs"
  by (simp_all add: get_straight_flush_def get_four_of_a_kind_def get_full_house_def
        get_flush_def get_straight_def get_three_of_a_kind_def get_two_pairs_def
        get_one_pair_def get_high_card_def new_combo_def Let_def)

lemma four_key:
  assumes "\<forall>c \<in> set xs. weight c \<noteq> None" and "four (W_of xs) \<noteq> None"
  shows "the (four (W_of xs)) \<in> set (weight_keys xs 4)"
  using assms by (auto simp: W_of_fields split: if_splits)

lemma three_key:
  assumes "\<forall>c \<in> set xs. weight c \<noteq> None" and "three (W_of xs) \<noteq> None"
  shows "the (three (W_of xs)) = last (weight_keys xs 3)" and "weight_keys xs 3 \<noteq> []"
    and "the (three (W_of xs)) \<in> set (weight_keys xs 3)" and "weight_keys xs 4 = []"
  using assms by (auto simp: W_of_fields split: if_splits)

lemma two_key:
  assumes "\<forall>c \<in> set xs. weight c \<noteq> None" and "two (W_of xs) \<noteq> None"
  shows "the (two (W_of xs)) \<in> set (weight_keys xs 3) \<or> the (two (W_of xs)) \<in> set (weight_keys xs 2)"
proof -
  have "length (weight_keys xs 3) = 2 \<Longrightarrow> weight_keys xs 3 ! 0 \<in> set (weight_keys xs 3)"
    by (intro nth_mem) simp
  moreover have "length (weight_keys xs 2) = 1 \<Longrightarrow> weight_keys xs 2 \<noteq> []" by auto
  ultimately show ?thesis using assms by (auto simp: W_of_fields split: if_splits)
qed

lemma double_two_keys:
  assumes w: "\<forall>c \<in> set xs. weight c \<noteq> None" and s: "sorted (map card_number xs)"
    and d: "double_two (W_of xs) \<noteq> None"
  shows "\<exists>ka kb. the (double_two (W_of xs)) = [ka, kb] \<and> ka \<in> set (weight_keys xs 2) \<and>
           kb \<in> set (weight_keys xs 2) \<and> card_number ka < card_number kb"
proof -
  let ?l = "weight_keys xs 2"
  have l: "1 < length ?l" and D: "the (double_two (W_of xs)) = py_suffix ?l 2"
    using d by (auto simp: W_of_fields[OF w] split: if_splits)
  let ?i = "length ?l - 2"
  have "Suc (Suc ?i) = length ?l" using l by simp
  then have ps: "py_suffix ?l 2 = [?l ! ?i, ?l ! Suc ?i]"
    using Cons_nth_drop_Suc[of ?i ?l] Cons_nth_drop_Suc[of "Suc ?i" ?l] l
    by (simp add: py_suffix_def)
  have "sorted_wrt (<) (map card_number ?l)" using weight_keys_sorted[OF w s] .
  then have lt: "card_number (?l ! ?i) < card_number (?l ! Suc ?i)"
    using sorted_wrt_nth_less[of "(<)" "map card_number ?l" ?i "Suc ?i"] l by simp
  have "?l ! ?i \<in> set ?l" "?l ! Suc ?i \<in> set ?l" using l by (auto intro: nth_mem)
  then show ?thesis using D ps lt by auto
qed

lemma run_cards_numbers:
  assumes "run_from (card_number ` set cs) lo"
  shows "map card_number (run_cards cs lo) = rev [lo..<lo + 5]"
proof -
  have "card_number (last (filter (\<lambda>c. card_number c = v) cs)) = v" if "v \<in> set (rev [lo..<lo + 5])" for v
  proof -
    have "v - lo < 5" "lo + (v - lo) = v" using that by auto
    then have "v \<in> card_number ` set cs" using assms unfolding run_from_iff by metis
    then have "filter (\<lambda>c. card_number c = v) cs \<noteq> []" by (auto simp: filter_empty_conv)
    then have "last (filter (\<lambda>c. card_number c = v) cs) \<in> set (filter (\<lambda>c. card_number c = v) cs)"
      by (rule last_in_set)
    then show ?thesis by simp
  qed
  then have "map (\<lambda>v. card_number (last (filter (\<lambda>c. card_number c = v) cs))) (rev [lo..<lo + 5]) =
        rev [lo..<lo + 5]"
    by (intro map_idI)
  then show ?thesis unfolding run_cards_def by (simp add: comp_def)
qed

lemma py_suffix_low_ace:
  assumes "\<forall>c \<in> set fl. weight c \<noteq> None" and "5 \<le> length fl"
  shows "py_suffix (with_low_ace fl) 5 = py_suffix fl 5"
proof -
  have "Suc (length fl) - 5 = Suc (length fl - 5)" using assms(2) by simp
  then have "drop (length (x # fl) - 5) (x # fl) = drop (length fl - 5) fl" for x :: card
    by simp
  then show ?thesis using assms(1) by (simp add: with_low_ace_cases py_suffix_def)
qed

lemma length_filter_three:
  "length (filter (\<lambda>x. f x = a) xs) + length (filter (\<lambda>x. f x = b) xs) +
   length (filter (\<lambda>x. f x \<noteq> a \<and> f x \<noteq> b) xs) = length xs" if "a \<noteq> b"
  using that by (induction xs) auto

lemma image_filter_eq:
  assumes "filter (\<lambda>x. f x = v) xs \<noteq> []"
  shows "f ` set (filter (\<lambda>x. f x = v) xs) = {v}"
  using assms by (auto simp: filter_empty_conv)

lemma two_pairs_cards:
  assumes w: "\<forall>c \<in> set xs. weight c \<noteq> None" and s: "sorted (map card_number xs)"
    and n: "5 \<le> length xs" and d: "double_two (W_of xs) \<noteq> None"
  shows "\<exists>a b. a < b \<and>
           length (filter (\<lambda>x. card_number x = a) xs) = 2 \<and>
           length (filter (\<lambda>x. card_number x = b) xs) = 2 \<and>
           get_other_cards
             (drop 2 (filter (\<lambda>x. card_in x (the (double_two (W_of xs)))) xs) @
              take 2 (filter (\<lambda>x. card_in x (the (double_two (W_of xs)))) xs)) xs =
           filter (\<lambda>x. card_number x = b) xs @ filter (\<lambda>x. card_number x = a) xs @
           take 1 (rev (filter (\<lambda>x. card_number x \<noteq> a \<and> card_number x \<noteq> b) xs)) \<and>
           filter (\<lambda>x. card_number x \<noteq> a \<and> card_number x \<noteq> b) xs \<noteq> []"
proof -
  obtain ka kb where D: "the (double_two (W_of xs)) = [ka, kb]"
    and ka: "ka \<in> set (weight_keys xs 2)" and kb: "kb \<in> set (weight_keys xs 2)"
    and lt: "card_number ka < card_number kb"
    using double_two_keys[OF w s d] by blast
  let ?a = "card_number ka" and ?b = "card_number kb"
  let ?A = "filter (\<lambda>x. card_number x = ?a) xs" and ?B = "filter (\<lambda>x. card_number x = ?b) xs"
  let ?O = "filter (\<lambda>x. card_number x \<noteq> ?a \<and> card_number x \<noteq> ?b) xs"
  have wa: "weight ka \<noteq> None" and la: "length ?A = 2" using weight_keys_props[OF w ka] by simp_all
  have wb: "weight kb \<noteq> None" and lb: "length ?B = 2" using weight_keys_props[OF w kb] by simp_all
  have "filter (\<lambda>x. card_in x [ka, kb]) xs =
        filter (\<lambda>x. card_number x = ?a \<or> card_number x = ?b) xs"
    using w wa wb by (intro filter_cong) (auto simp: card_in_def card_eq_key)
  also have "\<dots> = ?A @ ?B" using filter_two_numbers[OF s lt] .
  finally have pairs: "filter (\<lambda>x. card_in x (the (double_two (W_of xs)))) xs = ?A @ ?B"
    using D by simp
  have items: "drop 2 (?A @ ?B) @ take 2 (?A @ ?B) = ?B @ ?A" using la lb by simp
  have wi: "\<forall>y \<in> set (?B @ ?A). weight y \<noteq> None" using w by auto
  have li: "length (?B @ ?A) \<le> 5" using la lb by simp
  have Ane: "?A \<noteq> []" and Bne: "?B \<noteq> []" using la lb by auto
  have nums: "card_number ` set (?B @ ?A) = {?a, ?b}"
    unfolding set_append image_Un image_filter_eq[OF Ane] image_filter_eq[OF Bne] by auto
  have f: "filter (\<lambda>c. card_number c \<notin> {?a, ?b}) xs = ?O" by (intro filter_cong) auto
  have "get_other_cards (?B @ ?A) xs =
          (?B @ ?A) @ take (5 - length (?B @ ?A))
             (rev (filter (\<lambda>c. card_number c \<notin> {?a, ?b}) xs))"
    using get_other_cards_eq[OF w wi li] unfolding nums .
  then have g: "get_other_cards (?B @ ?A) xs = ?B @ ?A @ take 1 (rev ?O)"
    unfolding f using la lb by simp
  have "length ?A + length ?B + length ?O = length xs"
    using length_filter_three[of ?a ?b card_number xs] lt by simp
  then have "?O \<noteq> []" using la lb n by auto
  then show ?thesis using lt la lb g pairs items by (intro exI[of _ ?a] exI[of _ ?b]) simp
qed

lemma flush_suit_cards:
  assumes ne: "xs \<noteq> []" and f: "five_or_more (S_of xs)"
  shows "\<exists>d \<in> set xs. flush_card (S_of xs) = Some (s_card d) \<and>
           filter (\<lambda>x. card_eq x (the (flush_card (S_of xs)))) xs =
             filter (\<lambda>x. suit x = suit d) xs \<and>
           5 \<le> length (filter (\<lambda>x. suit x = suit d) xs) \<and>
           (\<forall>e \<in> set xs. length (filter (\<lambda>x. suit x = suit e) xs)
                           \<le> length (filter (\<lambda>x. suit x = suit d) xs))"
proof -
  obtain d where d: "d \<in> set xs" "flush_card (S_of xs) = Some (s_card d)"
    "count_cards xs (s_card d) = max_repeats (S_of xs)"
    "\<forall>e \<in> set xs. count_cards xs (s_card e) \<le> count_cards xs (s_card d)"
    using flush_card_props[OF ne] by blast
  have "5 \<le> max_repeats (S_of xs)" using f S_of_fields[OF ne] by simp
  then have five: "5 \<le> length (filter (\<lambda>x. suit x = suit d) xs)"
    using d(3) by (simp add: count_s_card)
  have "filter (\<lambda>x. card_eq x (s_card d)) xs = filter (\<lambda>x. suit x = suit d) xs"
    by (intro filter_cong) (auto simp: card_eq_def s_card_def)
  then show ?thesis using d five by (auto simp: count_s_card)
qed

lemma classify_flush:
  assumes "g \<noteq> []" and "\<forall>c \<in> set g. concrete c" and "five_or_more (S_of (sort_cards g))"
  shows "classify g =
     Inr (if five_in_a_row (Q_of (filter (\<lambda>x. card_eq x (the (flush_card (S_of (sort_cards g)))))
                                     (sort_cards g)))
          then get_straight_flush
                 (new_combo (sort_cards g) (W_of (sort_cards g)) (S_of (sort_cards g))
                    (Q_of (filter (\<lambda>x. card_eq x (the (flush_card (S_of (sort_cards g)))))
                             (sort_cards g))))
          else get_flush
                 (new_combo (sort_cards g) (W_of (sort_cards g)) (S_of (sort_cards g))
                    (Q_of (filter (\<lambda>x. card_eq x (the (flush_card (S_of (sort_cards g)))))
                             (sort_cards g)))))"
  using classify_unfold[OF assms(1,2)] assms(3) by (simp add: Let_def)

lemma classify_no_flush:
  assumes "g \<noteq> []" and "\<forall>c \<in> set g. concrete c" and "\<not> five_or_more (S_of (sort_cards g))"
  shows "classify g =
     Inr (if four (W_of (sort_cards g)) \<noteq> None
          then get_four_of_a_kind (new_combo (sort_cards g) (W_of (sort_cards g))
                                     (S_of (sort_cards g)) (Q_of (sort_cards g)))
          else if three (W_of (sort_cards g)) \<noteq> None \<and> two (W_of (sort_cards g)) \<noteq> None
          then get_full_house (new_combo (sort_cards g) (W_of (sort_cards g))
                                 (S_of (sort_cards g)) (Q_of (sort_cards g)))
          else if five_in_a_row (Q_of (sort_cards g))
          then get_straight (new_combo (sort_cards g) (W_of (sort_cards g))
                               (S_of (sort_cards g)) (Q_of (sort_cards g)))
          else if three (W_of (sort_cards g)) \<noteq> None
          then get_three_of_a_kind (new_combo (sort_cards g) (W_of (sort_cards g))
                                      (S_of (sort_cards g)) (Q_of (sort_cards g)))
          else if double_two (W_of (sort_cards g)) \<noteq> None
          then get_two_pairs (new_combo (sort_cards g) (W_of (sort_cards g))
                                (S_of (sort_cards g)) (Q_of (sort_cards g)))
          else if two (W_of (sort_cards g)) \<noteq> None
          then get_one_pair (new_combo (sort_cards g) (W_of (sort_cards g))
                               (S_of (sort_cards g)) (Q_of (sort_cards g)))
          else get_high_card (new_combo (sort_cards g) (W_of (sort_cards g))
                                (S_of (sort_cards g)) (Q_of (sort_cards g))))"
  using classify_unfold[OF assms(1,2), unfolded Let_def] assms(3)
  by (simp only: if_True not_False_eq_True simp_thms)

lemma filter_sort_cards: "filter P (sort_cards g) = sort_cards (filter P g)"
  by (simp add: sort_cards_def filter_sort)

lemma length_filter_sort_cards: "length (filter P (sort_cards g)) = length (filter P g)"
  by (simp add: filter_sort_cards sort_cards_length)

lemma length_filter_disjoint:
  assumes "\<And>x. \<not> (P x \<and> Q x)"
  shows "length (filter P xs) + length (filter Q xs) \<le> length xs"
  using assms by (induction xs) auto

lemma flush_suit_unique:
  assumes ne: "xs \<noteq> []" and n7: "length xs \<le> 7"
    and su: "5 \<le> length (filter (\<lambda>c. suit c = Some su) xs)"
  shows "five_or_more (S_of xs)"
    and "filter (\<lambda>x. card_eq x (the (flush_card (S_of xs)))) xs =
         filter (\<lambda>c. suit c = Some su) xs"
proof -
  have "filter (\<lambda>c. suit c = Some su) xs \<noteq> []" using su by auto
  then obtain c where c: "c \<in> set xs" "suit c = Some su" by (auto simp: filter_empty_conv)
  have "count_cards xs (s_card c) = length (filter (\<lambda>y. suit y = Some su) xs)"
    using c by (simp add: count_s_card)
  then have "5 \<le> count_cards xs (s_card c)" using su by simp
  then have "\<exists>c \<in> set xs. 5 \<le> count_cards xs (s_card c)" using c(1) by blast
  then show f: "five_or_more (S_of xs)" by (simp only: five_or_more_iff[OF ne])
  obtain d where d: "d \<in> set xs"
    "filter (\<lambda>x. card_eq x (the (flush_card (S_of xs)))) xs = filter (\<lambda>x. suit x = suit d) xs"
    "5 \<le> length (filter (\<lambda>x. suit x = suit d) xs)"
    using flush_suit_cards[OF ne f] by blast
  have "suit d = Some su"
  proof (rule ccontr)
    assume "suit d \<noteq> Some su"
    then have "length (filter (\<lambda>x. suit x = suit d) xs) + length (filter (\<lambda>c. suit c = Some su) xs)
               \<le> length xs"
      by (intro length_filter_disjoint) auto
    then show False using d(3) su n7 by simp
  qed
  then show "filter (\<lambda>x. card_eq x (the (flush_card (S_of xs)))) xs =
         filter (\<lambda>c. suit c = Some su) xs"
    using d(2) by simp
qed

lemma seq_numbers_cong: "set cs = set ds \<Longrightarrow> seq_numbers cs = seq_numbers ds"
  by (simp add: seq_numbers_def)

lemma valid_groupD:
  assumes "valid_group g"
  shows "5 \<le> length g" and "length g \<le> 7" and "\<forall>c \<in> set g. concrete c"
    and "\<forall>c \<in> set g. weight c \<noteq> Some W1" and "distinct (map (\<lambda>c. (weight c, suit c)) g)"
    and "g \<noteq> []"
  using assms by (auto simp: valid_group_def list_all_iff)

lemma length_filter_three_values:
  assumes "a \<noteq> b" "a \<noteq> u" "b \<noteq> u"
  shows "length (filter (\<lambda>x. f x = a) xs) + length (filter (\<lambda>x. f x = b) xs) +
         length (filter (\<lambda>x. f x = u) xs) \<le> length xs"
  using assms by (induction xs) auto

lemma strict_sorted_two:
  assumes "sorted_wrt (<) (ns :: nat list)" and "set ns = {a, b}" and "a < b"
  shows "ns = [a, b]"
proof -
  have "sorted ns" "distinct ns" using assms(1) by (simp_all add: strict_sorted_iff)
  moreover have "sorted [a, b]" "distinct [a, b]" using assms(3) by simp_all
  moreover have "set ns = set [a, b]" using assms(2) by simp
  ultimately show ?thesis by (metis sorted_distinct_set_unique)
qed

lemma card_numbers_le_length: "card (card_number ` set xs) \<le> length xs"
  by (meson card_image_le card_length finite_set le_trans)

lemma others_count:
  assumes "m \<le> card (card_number ` set xs - V)"
  shows "m \<le> length (filter (\<lambda>x. card_number x \<notin> V) xs)"
proof -
  have "card_number ` set (filter (\<lambda>x. card_number x \<notin> V) xs) = card_number ` set xs - V"
    by auto
  then show ?thesis
    using assms card_numbers_le_length[of "filter (\<lambda>x. card_number x \<notin> V) xs"] by simp
qed

lemma many_numbers_no_four:
  assumes w: "\<forall>c \<in> set xs. weight c \<noteq> None" and n7: "length xs \<le> 7"
    and five: "5 \<le> card (card_number ` set xs)"
  shows "four (W_of xs) = None"
proof -
  have "weight_keys xs 4 = []"
  proof (rule ccontr)
    assume "weight_keys xs 4 \<noteq> []"
    then obtain k where k: "k \<in> set (weight_keys xs 4)" by (cases "weight_keys xs 4") auto
    let ?v = "card_number k"
    have l4: "length (filter (\<lambda>x. card_number x = ?v) xs) = 4"
      using weight_keys_props(4)[OF w k] .
    have "card (card_number ` set xs - {?v}) \<ge> card (card_number ` set xs) - 1"
      by (cases "?v \<in> card_number ` set xs") (simp_all add: card_Diff_singleton_if)
    then have "card (card_number ` set xs - {?v}) \<ge> 4" using five by linarith
    then have "4 \<le> length (filter (\<lambda>x. card_number x \<notin> {?v}) xs)" by (rule others_count)
    moreover have "length (filter (\<lambda>x. card_number x = ?v) xs) +
                   length (filter (\<lambda>x. card_number x \<notin> {?v}) xs) = length xs"
      using sum_length_filter_compl[of "\<lambda>x. card_number x = ?v" xs] by simp
    ultimately show False using l4 n7 by simp
  qed
  then show ?thesis by (simp add: W_of_fields[OF w])
qed

lemma many_numbers_no_full_house:
  assumes w: "\<forall>c \<in> set xs. weight c \<noteq> None" and s: "sorted (map card_number xs)"
    and n7: "length xs \<le> 7" and five: "5 \<le> card (card_number ` set xs)"
  shows "\<not> (three (W_of xs) \<noteq> None \<and> two (W_of xs) \<noteq> None)"
proof
  assume a: "three (W_of xs) \<noteq> None \<and> two (W_of xs) \<noteq> None"
  let ?l = "weight_keys xs 3"
  let ?k3 = "the (three (W_of xs))" and ?k2 = "the (two (W_of xs))"
  have k3: "?k3 \<in> set ?l" and k3l: "?k3 = last ?l" and lne: "?l \<noteq> []"
    and k4: "weight_keys xs 4 = []"
    using three_key[OF w] a by simp_all
  have c3: "length (filter (\<lambda>x. card_number x = card_number ?k3) xs) = 3"
    using weight_keys_props(4)[OF w k3] .
  have "\<exists>m. ?k2 \<in> set (weight_keys xs m) \<and> 2 \<le> m \<and> card_number ?k2 \<noteq> card_number ?k3"
  proof (cases "length ?l = 2")
    case True
    have t2: "?k2 = ?l ! 0" using a True k4 lne by (simp add: W_of_fields[OF w])
    have "last ?l = ?l ! Suc 0" using True last_conv_nth[OF lne] by simp
    moreover have "card_number (?l ! 0) < card_number (?l ! Suc 0)"
      using sorted_wrt_nth_less[OF weight_keys_sorted[OF w s, of 3], of 0 "Suc 0"] True by simp
    ultimately have "card_number ?k2 \<noteq> card_number ?k3" using t2 k3l by simp
    moreover have "?k2 \<in> set ?l" using t2 True by simp
    ultimately show ?thesis by (intro exI[of _ 3]) simp
  next
    case False
    then have t2: "?k2 \<in> set (weight_keys xs 2)"
      using a k4 lne by (auto simp: W_of_fields[OF w] split: if_splits)
    have "length (filter (\<lambda>x. card_number x = card_number ?k2) xs) = 2"
      using weight_keys_props(4)[OF w t2] .
    then have "card_number ?k2 \<noteq> card_number ?k3" using c3 by auto
    then show ?thesis using t2 by (intro exI[of _ 2]) simp
  qed
  then obtain m where k2: "?k2 \<in> set (weight_keys xs m)" and m: "2 \<le> m"
    and ne: "card_number ?k2 \<noteq> card_number ?k3" by blast
  have c2: "length (filter (\<lambda>x. card_number x = card_number ?k2) xs) = m"
    using weight_keys_props(4)[OF w k2] .
  have "card (card_number ` set xs - {card_number ?k2, card_number ?k3}) \<ge> 3"
    using five card_Diff_subset[of "{card_number ?k2, card_number ?k3}" "card_number ` set xs"]
      weight_keys_props(2)[OF w k2] weight_keys_props(2)[OF w k3] ne
    by simp
  then have "3 \<le> length (filter (\<lambda>x. card_number x \<notin> {card_number ?k2, card_number ?k3}) xs)"
    by (rule others_count)
  moreover have "filter (\<lambda>x. card_number x \<notin> {card_number ?k2, card_number ?k3}) xs =
                 filter (\<lambda>x. card_number x \<noteq> card_number ?k2 \<and> card_number x \<noteq> card_number ?k3) xs"
    by (intro filter_cong) auto
  moreover have "length (filter (\<lambda>x. card_number x = card_number ?k2) xs) +
                 length (filter (\<lambda>x. card_number x = card_number ?k3) xs) +
                 length (filter (\<lambda>x. card_number x \<noteq> card_number ?k2 \<and> card_number x \<noteq> card_number ?k3) xs)
                 = length xs"
    using length_filter_three[OF ne, of card_number xs] .
  ultimately show False using c2 c3 m n7 by simp
qed

lemma number_zero: "(number w = 0) = (w = W1)"
  by (cases w) simp_all

lemma no_number_zero:
  assumes "\<forall>c \<in> set g. concrete c" and "\<forall>c \<in> set g. weight c \<noteq> Some W1"
  shows "0 \<notin> card_number ` set g"
proof
  assume "0 \<in> card_number ` set g"
  then obtain c where c: "c \<in> set g" "card_number c = 0" by auto
  then obtain u where "weight c = Some u" using assms(1) by (auto simp: concrete_def)
  then show False using c assms(2) by (auto simp: card_number_def number_zero)
qed

lemma wheel_top_run:
  assumes n7: "length g \<le> 7" and z: "0 \<notin> card_number ` set g"
    and wheel: "{1, 2, 3, 4, 13} \<subseteq> card_number ` set g" and nosix: "5 \<notin> card_number ` set g"
  shows "top_run (seq_numbers g) = Some 0"
proof -
  let ?N = "card_number ` set g"
  have sn: "seq_numbers g = ?N \<union> {0}" using wheel by (simp add: seq_numbers_def)
  have r0: "run_from (seq_numbers g) 0"
    unfolding run_from_iff sn
  proof (intro allI impI)
    fix j :: nat assume "j < 5"
    then have "j = 0 \<or> j = 1 \<or> j = 2 \<or> j = 3 \<or> j = 4" by auto
    then show "0 + j \<in> ?N \<union> {0}" using wheel by auto
  qed
  have "\<not> run_from (seq_numbers g) l" if l: "0 < l" "l < 10" for l
  proof
    assume run: "run_from (seq_numbers g) l"
    show False
    proof (cases "l \<le> 5")
      case True
      then have "5 - l < 5" "l + (5 - l) = 5" using l by simp_all
      then have "5 \<in> seq_numbers g" using run unfolding run_from_iff by metis
      then show False using nosix sn by simp
    next
      case False
      have "{l..<l + 5} \<subseteq> ?N"
      proof
        fix x assume x: "x \<in> {l..<l + 5}"
        then have "x - l < 5" "l + (x - l) = x" by auto
        then have "x \<in> seq_numbers g" using run unfolding run_from_iff by metis
        then show "x \<in> ?N" using x l sn by auto
      qed
      then have sub: "{1, 2, 3, 4} \<union> {l..<l + 5} \<subseteq> ?N" using wheel by auto
      have "{1, 2, 3, 4} \<inter> {l..<l + 5} = {}" using False by auto
      then have "card ({1, 2, 3, 4} \<union> {l..<l + 5}) = card {1, 2, 3, 4::nat} + card {l..<l + 5}"
        by (intro card_Un_disjoint) auto
      then have "card ({1, 2, 3, 4} \<union> {l..<l + 5}) = 9" by simp
      then have "9 \<le> card ?N" using card_mono[OF _ sub] by simp
      then show False using card_numbers_le_length[of g] n7 by simp
    qed
  qed
  then show ?thesis using r0 by (simp add: top_run_Some)
qed

lemma wheel_five_numbers:
  assumes "{1, 2, 3, 4, 13} \<subseteq> card_number ` set g"
  shows "5 \<le> card (card_number ` set g)"
proof -
  have "card {1, 2, 3, 4, 13::nat} \<le> card (card_number ` set g)"
    using assms by (intro card_mono) auto
  then show ?thesis by simp
qed

lemma straight_below_six_high:
  assumes ta: "combo_type a = Some STRAIGHT" and tb: "combo_type b = Some STRAIGHT"
    and ca: "map card_number (cards a) = [4, 3, 2, 1, 0]"
    and cb: "map card_number (cards b) = [5, 4, 3, 2, 1]"
    and wa: "\<forall>c \<in> set (cards a). weight c \<noteq> None" and wb: "\<forall>c \<in> set (cards b). weight c \<noteq> None"
  shows "combo_lt a b \<and> \<not> combo_gt a b \<and> \<not> combo_eq a b"
proof -
  obtain x xs where a: "cards a = x # xs" "card_number x = 4" using ca by (cases "cards a") auto
  obtain y ys where b: "cards b = y # ys" "card_number y = 5" using cb by (cases "cards b") auto
  have "weight x \<noteq> None" "weight y \<noteq> None" using a b wa wb by auto
  then have ne: "card_ne x y" and neq: "\<not> card_eq x y"
    using a b by (simp_all add: card_ne_number card_eq_number)
  show ?thesis
    using ta tb a b ne neq
    by (simp add: combo_lt_def combo_gt_def combo_eq_def cards_eq_def cards_lt_def cards_gt_def
          card_lt_def card_gt_def)
qed

lemma run_cards_subset:
  assumes "run_from (card_number ` set cs) lo"
  shows "set (run_cards cs lo) \<subseteq> set cs"
proof
  fix x assume "x \<in> set (run_cards cs lo)"
  then obtain v where v: "v \<in> set (rev [lo..<lo + 5])"
    "x = last (filter (\<lambda>c. card_number c = v) cs)"
    unfolding run_cards_def by auto
  have "v - lo < 5" "lo + (v - lo) = v" using v(1) by auto
  then have "v \<in> card_number ` set cs" using assms unfolding run_from_iff by metis
  then have "filter (\<lambda>c. card_number c = v) cs \<noteq> []" by (auto simp: filter_empty_conv)
  then have "x \<in> set (filter (\<lambda>c. card_number c = v) cs)" unfolding v(2) by (rule last_in_set)
  then show "x \<in> set cs" by simp
qed

lemma no_five_or_more:
  assumes ne: "xs \<noteq> []" and c: "\<forall>c \<in> set xs. concrete c"
    and nf: "\<forall>s. length (filter (\<lambda>c. suit c = Some s) xs) < 5"
  shows "\<not> five_or_more (S_of xs)"
proof
  assume "five_or_more (S_of xs)"
  then obtain d where d: "d \<in> set xs" "5 \<le> count_cards xs (s_card d)"
    using five_or_more_iff[OF ne] by blast
  obtain su where su: "suit d = Some su" using c d(1) by (auto simp: concrete_def)
  have "5 \<le> length (filter (\<lambda>y. suit y = Some su) xs)"
    using d(2) su by (simp add: count_s_card)
  then show False using nf by (metis not_less)
qed

lemma with_low_ace_low_ace:
  assumes "\<forall>c \<in> set cs. weight c \<noteq> None" and "13 \<in> card_number ` set cs"
  shows "with_low_ace cs = low_ace cs # cs"
  using assms by (simp add: with_low_ace_cases low_ace_def)

lemma classify_branches:
  assumes gne: "g \<noteq> []" and c: "\<forall>c \<in> set g. concrete c"
    and nf: "\<not> five_or_more (S_of (sort_cards g))"
  shows "four (W_of (sort_cards g)) \<noteq> None \<Longrightarrow>
           classify g = Inr (get_four_of_a_kind (new_combo (sort_cards g) (W_of (sort_cards g))
                               (S_of (sort_cards g)) (Q_of (sort_cards g))))"
    and "four (W_of (sort_cards g)) = None \<Longrightarrow>
         three (W_of (sort_cards g)) \<noteq> None \<and> two (W_of (sort_cards g)) \<noteq> None \<Longrightarrow>
           classify g = Inr (get_full_house (new_combo (sort_cards g) (W_of (sort_cards g))
                               (S_of (sort_cards g)) (Q_of (sort_cards g))))"
    and "four (W_of (sort_cards g)) = None \<Longrightarrow>
         \<not> (three (W_of (sort_cards g)) \<noteq> None \<and> two (W_of (sort_cards g)) \<noteq> None) \<Longrightarrow>
         five_in_a_row (Q_of (sort_cards g)) \<Longrightarrow>
           classify g = Inr (get_straight (new_combo (sort_cards g) (W_of (sort_cards g))
                               (S_of (sort_cards g)) (Q_of (sort_cards g))))"
    and "four (W_of (sort_cards g)) = None \<Longrightarrow>
         \<not> (three (W_of (sort_cards g)) \<noteq> None \<and> two (W_of (sort_cards g)) \<noteq> None) \<Longrightarrow>
         \<not> five_in_a_row (Q_of (sort_cards g)) \<Longrightarrow> three (W_of (sort_cards g)) \<noteq> None \<Longrightarrow>
           classify g = Inr (get_three_of_a_kind (new_combo (sort_cards g) (W_of (sort_cards g))
                               (S_of (sort_cards g)) (Q_of (sort_cards g))))"
    and "four (W_of (sort_cards g)) = None \<Longrightarrow> three (W_of (sort_cards g)) = None \<Longrightarrow>
         \<not> five_in_a_row (Q_of (sort_cards g)) \<Longrightarrow> double_two (W_of (sort_cards g)) \<noteq> None \<Longrightarrow>
           classify g = Inr (get_two_pairs (new_combo (sort_cards g) (W_of (sort_cards g))
                               (S_of (sort_cards g)) (Q_of (sort_cards g))))"
    and "four (W_of (sort_cards g)) = None \<Longrightarrow> three (W_of (sort_cards g)) = None \<Longrightarrow>
         \<not> five_in_a_row (Q_of (sort_cards g)) \<Longrightarrow> double_two (W_of (sort_cards g)) = None \<Longrightarrow>
         two (W_of (sort_cards g)) \<noteq> None \<Longrightarrow>
           classify g = Inr (get_one_pair (new_combo (sort_cards g) (W_of (sort_cards g))
                               (S_of (sort_cards g)) (Q_of (sort_cards g))))"
    and "four (W_of (sort_cards g)) = None \<Longrightarrow> three (W_of (sort_cards g)) = None \<Longrightarrow>
         \<not> five_in_a_row (Q_of (sort_cards g)) \<Longrightarrow> double_two (W_of (sort_cards g)) = None \<Longrightarrow>
         two (W_of (sort_cards g)) = None \<Longrightarrow>
           classify g = Inr (get_high_card (new_combo (sort_cards g) (W_of (sort_cards g))
                               (S_of (sort_cards g)) (Q_of (sort_cards g))))"
proof -
  let ?xs = "sort_cards g"
  let ?c = "new_combo ?xs (W_of ?xs) (S_of ?xs) (Q_of ?xs)"
  define b4 where "b4 = (four (W_of ?xs) \<noteq> None)"
  define bfh where "bfh = (three (W_of ?xs) \<noteq> None \<and> two (W_of ?xs) \<noteq> None)"
  define bs where "bs = five_in_a_row (Q_of ?xs)"
  define b3 where "b3 = (three (W_of ?xs) \<noteq> None)"
  define b22 where "b22 = (double_two (W_of ?xs) \<noteq> None)"
  define b2 where "b2 = (two (W_of ?xs) \<noteq> None)"
  have U: "classify g =
     Inr (if b4 then get_four_of_a_kind ?c
          else if bfh then get_full_house ?c
          else if bs then get_straight ?c
          else if b3 then get_three_of_a_kind ?c
          else if b22 then get_two_pairs ?c
          else if b2 then get_one_pair ?c
          else get_high_card ?c)"
    unfolding b4_def bfh_def bs_def b3_def b22_def b2_def
    using classify_no_flush[OF gne c nf] .
  have imp: "\<not> b3 \<Longrightarrow> \<not> bfh" by (simp add: b3_def bfh_def)
  show "four (W_of ?xs) \<noteq> None \<Longrightarrow> classify g = Inr (get_four_of_a_kind ?c)"
    using U by (simp add: b4_def)
  show "four (W_of ?xs) = None \<Longrightarrow>
        three (W_of ?xs) \<noteq> None \<and> two (W_of ?xs) \<noteq> None \<Longrightarrow>
        classify g = Inr (get_full_house ?c)"
  proof -
    assume "four (W_of ?xs) = None" "three (W_of ?xs) \<noteq> None \<and> two (W_of ?xs) \<noteq> None"
    then have "\<not> b4" bfh by (simp_all add: b4_def bfh_def)
    then show ?thesis using U by simp
  qed
  show "four (W_of ?xs) = None \<Longrightarrow>
        \<not> (three (W_of ?xs) \<noteq> None \<and> two (W_of ?xs) \<noteq> None) \<Longrightarrow>
        five_in_a_row (Q_of ?xs) \<Longrightarrow> classify g = Inr (get_straight ?c)"
  proof -
    assume "four (W_of ?xs) = None"
      "\<not> (three (W_of ?xs) \<noteq> None \<and> two (W_of ?xs) \<noteq> None)" "five_in_a_row (Q_of ?xs)"
    then have "\<not> b4" "\<not> bfh" bs unfolding b4_def bfh_def bs_def by simp_all
    then show ?thesis using U by simp
  qed
  show "four (W_of ?xs) = None \<Longrightarrow>
        \<not> (three (W_of ?xs) \<noteq> None \<and> two (W_of ?xs) \<noteq> None) \<Longrightarrow>
        \<not> five_in_a_row (Q_of ?xs) \<Longrightarrow> three (W_of ?xs) \<noteq> None \<Longrightarrow>
        classify g = Inr (get_three_of_a_kind ?c)"
  proof -
    assume "four (W_of ?xs) = None"
      "\<not> (three (W_of ?xs) \<noteq> None \<and> two (W_of ?xs) \<noteq> None)"
      "\<not> five_in_a_row (Q_of ?xs)" "three (W_of ?xs) \<noteq> None"
    then have "\<not> b4" "\<not> bfh" "\<not> bs" b3 unfolding b4_def bfh_def bs_def b3_def by simp_all
    then show ?thesis using U by simp
  qed
  show "four (W_of ?xs) = None \<Longrightarrow> three (W_of ?xs) = None \<Longrightarrow>
        \<not> five_in_a_row (Q_of ?xs) \<Longrightarrow> double_two (W_of ?xs) \<noteq> None \<Longrightarrow>
        classify g = Inr (get_two_pairs ?c)"
  proof -
    assume "four (W_of ?xs) = None" "three (W_of ?xs) = None"
      "\<not> five_in_a_row (Q_of ?xs)" "double_two (W_of ?xs) \<noteq> None"
    then have "\<not> b4" "\<not> b3" "\<not> bs" b22 unfolding b4_def bs_def b3_def b22_def by simp_all
    then show ?thesis using U imp by simp
  qed
  show "four (W_of ?xs) = None \<Longrightarrow> three (W_of ?xs) = None \<Longrightarrow>
        \<not> five_in_a_row (Q_of ?xs) \<Longrightarrow> double_two (W_of ?xs) = None \<Longrightarrow>
        two (W_of ?xs) \<noteq> None \<Longrightarrow> classify g = Inr (get_one_pair ?c)"
  proof -
    assume "four (W_of ?xs) = None" "three (W_of ?xs) = None"
      "\<not> five_in_a_row (Q_of ?xs)" "double_two (W_of ?xs) = None" "two (W_of ?xs) \<noteq> None"
    then have "\<not> b4" "\<not> b3" "\<not> bs" "\<not> b22" b2
      unfolding b4_def bs_def b3_def b22_def b2_def by simp_all
    then show ?thesis using U imp by simp
  qed
  show "four (W_of ?xs) = None \<Longrightarrow> three (W_of ?xs) = None \<Longrightarrow>
        \<not> five_in_a_row (Q_of ?xs) \<Longrightarrow> double_two (W_of ?xs) = None \<Longrightarrow>
        two (W_of ?xs) = None \<Longrightarrow> classify g = Inr (get_high_card ?c)"
  proof -
    assume "four (W_of ?xs) = None" "three (W_of ?xs) = None"
      "\<not> five_in_a_row (Q_of ?xs)" "double_two (W_of ?xs) = None" "two (W_of ?xs) = None"
    then have "\<not> b4" "\<not> b3" "\<not> bs" "\<not> b22" "\<not> b2"
      unfolding b4_def bs_def b3_def b22_def b2_def by simp_all
    then show ?thesis using U imp by simp
  qed
qed

section \<open>The two ace symbols\<close>

text \<open>
  Claim C10. The notation accepts both \<open>'1'\<close> and \<open>'A'\<close>; they are weights of numbers
  0 and 13. Cards with weights are equal exactly when the numbers of their weights are
  equal, so \<open>Card('1s')\<close> is not equal to \<open>Card('As')\<close>, and it is less than
  \<open>Card('2s')\<close> and than \<open>Card('As')\<close>.
\<close>

theorem one_and_ace_are_unequal_weights:
  "Weight (CHR ''1'') = Inr W1 \<and> Weight (CHR ''A'') = Inr WA \<and>
   number W1 = 0 \<and> number WA = 13 \<and>
   Card ''1s'' = Inr (table_card W1 Spades) \<and>
   Card ''As'' = Inr (table_card WA Spades) \<and>
   Card ''2s'' = Inr (table_card W2 Spades) \<and>
   (\<forall>w1 s1 h1 w2 s2 h2.
      card_eq (MkCard (Some w1) s1 h1) (MkCard (Some w2) s2 h2) = (number w1 = number w2)) \<and>
   \<not> card_eq (table_card W1 Spades) (table_card WA Spades) \<and>
   card_ne (table_card W1 Spades) (table_card WA Spades) \<and>
   card_lt (table_card W1 Spades) (table_card W2 Spades) \<and>
   \<not> card_gt (table_card W1 Spades) (table_card W2 Spades) \<and>
   card_lt (table_card W1 Spades) (table_card WA Spades)"
proof -
  have p: "Weight (CHR ''1'') = Inr W1" "Weight (CHR ''A'') = Inr WA"
    "Card ''1s'' = Inr (table_card W1 Spades)"
    "Card ''As'' = Inr (table_card WA Spades)"
    "Card ''2s'' = Inr (table_card W2 Spades)"
    by code_simp+
  have q: "\<forall>w1 s1 h1 w2 s2 h2.
      card_eq (MkCard (Some w1) s1 h1) (MkCard (Some w2) s2 h2) = (number w1 = number w2)"
    by (simp add: card_eq_def card_number_def)
  show ?thesis
    using p q by (simp add: table_card_def card_ne_def card_lt_def card_gt_def card_number_def)
qed

section \<open>Failure of the classification\<close>

text \<open>
  Claim C8, as amended. The classification checks neither the number of cards nor
  duplicates: every non-empty group of dealt cards is classified, whatever its size and
  whether or not a card occurs twice (so every well-formed group of five to seven
  distinct cards is); the empty group fails with the \<open>ValueError\<close> of \<open>max\<close>.
\<close>

theorem classification_without_validation:
  "(g \<noteq> [] \<and> list_all concrete g \<longrightarrow> (\<exists>c. classify g = Inr c)) \<and>
   classify [] = Inl ValueError"
proof -
  have "\<exists>c. classify g = Inr c" if "g \<noteq> []" "list_all concrete g"
    using classify_unfold[of g] that by (simp add: list_all_iff)
  moreover have "classify [] = Inl ValueError" by code_simp
  ultimately show ?thesis by blast
qed

text \<open>The theorem at a group that holds the ace of spades twice.\<close>

theorem classification_without_validation_witness:
  "\<exists>c. classify [table_card WA Spades, table_card WA Spades, table_card WK Diamonds,
                  table_card WQ Clubs, table_card W2 Hearts] = Inr c"
proof -
  have "list_all concrete [table_card WA Spades, table_card WA Spades, table_card WK Diamonds,
                  table_card WQ Clubs, table_card W2 Hearts]"
    by (simp add: concrete_def table_card_def)
  then show ?thesis
    using classification_without_validation[of "[table_card WA Spades, table_card WA Spades,
       table_card WK Diamonds, table_card WQ Clubs, table_card W2 Hearts]"] by simp
qed

text \<open>
  Claim C8 as stated fails: \<open>Combo('As/As/Kd/Qc/2h')\<close>, with a duplicate card, is one
  pair, and \<open>Combo('2c/3d')\<close>, with two cards, is a high card; neither raises.
\<close>

theorem malformed_input_is_classified:
  "\<not> distinct [''As'', ''As'', ''Kd'', ''Qc'', ''2h''] \<and>
   split_slash ''As/As/Kd/Qc/2h'' = [''As'', ''As'', ''Kd'', ''Qc'', ''2h''] \<and>
   map_sum id combo_type
     (snd (Combo_init empty_store
            \<lparr>arg_cards_string = Some ''As/As/Kd/Qc/2h'', arg_cards = None, arg_table = None,
             arg_hand = None, nominal_check = False\<rparr>)) = Inr (Some ONE_PAIR) \<and>
   map_sum id combo_type
     (snd (Combo_init empty_store
            \<lparr>arg_cards_string = Some ''2c/3d'', arg_cards = None, arg_table = None,
             arg_hand = None, nominal_check = False\<rparr>)) = Inr (Some HIGH_CARD)"
  by code_simp

section \<open>The caller's card lists\<close>

lemma find_combo_fst:
  "fst (find_combo g) = (if list_ex (\<lambda>c. weight c = None) g then g else sort_cards g)"
  by (simp add: find_combo_def Let_def)

text \<open>
  Claim C9, as amended. A \<open>Combo\<close> built from a table and a hand, or from a card
  string, leaves every list of the store as it was. Built from a \<open>Cards\<close> instance
  (whose cards have weights), it leaves the item list of that instance sorted in place,
  ascending by weight: the same cards, and every other list as it was.
\<close>

theorem combo_init_store_effect:
  "(arg_cards_string a = None \<and> arg_cards a = None \<and> arg_table a = Some t \<and> arg_hand a = Some h
      \<longrightarrow> fst (Combo_init st a) = st) \<and>
   (arg_cards_string a = Some s \<and> s \<noteq> [] \<longrightarrow> fst (Combo_init st a) = st) \<and>
   (arg_cards_string a = None \<and> arg_cards a = Some p \<and> (\<forall>c \<in> set (st p). weight c \<noteq> None)
      \<longrightarrow> fst (Combo_init st a) = st(p := sort_cards (st p)) \<and>
          mset (fst (Combo_init st a) p) = mset (st p) \<and>
          (\<forall>q. q \<noteq> p \<longrightarrow> fst (Combo_init st a) q = st q))"
proof -
  have p1: "arg_cards_string a = None \<and> arg_cards a = None \<and> arg_table a = Some t \<and>
            arg_hand a = Some h \<longrightarrow> fst (Combo_init st a) = st"
    by (simp add: Combo_init_def split: sum.splits)
  have p2: "arg_cards_string a = Some s \<and> s \<noteq> [] \<longrightarrow> fst (Combo_init st a) = st"
    by (simp add: Combo_init_def split: sum.splits)
  have p3: "fst (Combo_init st a) = st(p := sort_cards (st p))"
    if "arg_cards_string a = None" "arg_cards a = Some p" "\<forall>c \<in> set (st p). weight c \<noteq> None"
  proof -
    have "\<not> list_ex (\<lambda>c. weight c = None) (st p)" using that(3) by (simp add: list_ex_iff)
    then have "fst (find_combo (st p)) = sort_cards (st p)" by (simp add: find_combo_fst)
    then show ?thesis using that(1,2)
      by (simp add: Combo_init_def Let_def split: prod.splits) (metis fst_conv)
  qed
  show ?thesis using p1 p2 p3 by (auto simp: sort_cards_def)
qed

text \<open>
  The theorem on a store with a table at address 0 and a hand at address 1: built from
  the table and the hand the store stays; built from the list at 0 as a \<open>Cards\<close>
  instance, that list is sorted.
\<close>

theorem combo_init_store_effect_witness:
  "fst (Combo_init
         (empty_store(0 := [table_card WA Spades, table_card W2 Clubs, table_card W3 Diamonds,
                            table_card W4 Hearts, table_card W5 Spades],
                      1 := [hand_card WK Hearts, hand_card W7 Clubs]))
         \<lparr>arg_cards_string = None, arg_cards = None, arg_table = Some 0, arg_hand = Some 1,
          nominal_check = True\<rparr>) =
     empty_store(0 := [table_card WA Spades, table_card W2 Clubs, table_card W3 Diamonds,
                       table_card W4 Hearts, table_card W5 Spades],
                 1 := [hand_card WK Hearts, hand_card W7 Clubs]) \<and>
   fst (Combo_init
         (empty_store(0 := [table_card WA Spades, table_card W2 Clubs, table_card W3 Diamonds,
                            table_card W4 Hearts, table_card W5 Spades],
                      1 := [hand_card WK Hearts, hand_card W7 Clubs]))
         \<lparr>arg_cards_string = None, arg_cards = Some 0, arg_table = None, arg_hand = None,
          nominal_check = False\<rparr>) 0 =
     [table_card W2 Clubs, table_card W3 Diamonds, table_card W4 Hearts, table_card W5 Spades,
      table_card WA Spades]"
  (is "fst (Combo_init ?st ?a1) = ?st \<and> fst (Combo_init ?st ?a2) 0 = ?sorted")
proof -
  have w: "\<forall>c \<in> set (?st 0). weight c \<noteq> None" by (simp add: table_card_def)
  have s: "sort_cards (?st 0) = ?sorted" by code_simp
  have "fst (Combo_init ?st ?a1) = ?st"
    using combo_init_store_effect[of ?a1 0 1 ?st] by simp
  moreover have "fst (Combo_init ?st ?a2) = ?st(0 := sort_cards (?st 0))"
    using combo_init_store_effect[of ?a2 0 1 ?st _ 0] w by simp
  ultimately show ?thesis using s by simp
qed

text \<open>
  Claim C9 as stated fails: after \<open>Combo(cards=c)\<close> on a \<open>Cards\<close> instance holding
  \<open>As, 2c, 3d, 4h, 5s\<close>, the instance holds \<open>2c, 3d, 4h, 5s, As\<close>.
\<close>

theorem cards_instance_is_sorted_in_place:
  "fst (Combo_init
         (empty_store(0 := [table_card WA Spades, table_card W2 Clubs, table_card W3 Diamonds,
                            table_card W4 Hearts, table_card W5 Spades]))
         \<lparr>arg_cards_string = None, arg_cards = Some 0, arg_table = None, arg_hand = None,
          nominal_check = False\<rparr>) 0 =
     [table_card W2 Clubs, table_card W3 Diamonds, table_card W4 Hearts, table_card W5 Spades,
      table_card WA Spades] \<and>
   (empty_store(0 := [table_card WA Spades, table_card W2 Clubs, table_card W3 Diamonds,
                      table_card W4 Hearts, table_card W5 Spades])) 0 \<noteq>
     [table_card W2 Clubs, table_card W3 Diamonds, table_card W4 Hearts, table_card W5 Spades,
      table_card WA Spades]"
  by code_simp

section \<open>The combinations of a valid group\<close>

text \<open>Sorting a block of one weight, and sorting a strictly descending list.\<close>

lemma sort_cards_same:
  assumes "\<forall>c \<in> set F. card_number c = v"
  shows "sort_cards F = F"
proof -
  have "map card_number F = replicate (length F) v"
    using assms by (simp add: map_replicate_const[symmetric] cong: map_cong)
  then have "sorted (map card_number F)" by (simp add: sorted_replicate)
  then show ?thesis unfolding sort_cards_def by (rule sort_key_id_if_sorted)
qed

lemma count_distinct_number:
  assumes "distinct (map card_number K)"
  shows "length (filter (\<lambda>x. card_number x = v) K) \<le> 1"
using assms
proof (induction K)
  case Nil
  show ?case by simp
next
  case (Cons a K)
  show ?case
  proof (cases "card_number a = v")
    case True
    have "card_number a \<notin> card_number ` set K" using Cons.prems by simp
    then have "\<forall>x \<in> set K. card_number x \<noteq> v" unfolding True[symmetric] by (metis imageI)
    then have "filter (\<lambda>x. card_number x = v) K = []" by (simp add: filter_empty_conv)
    then show ?thesis using True by simp
  next
    case False
    then show ?thesis using Cons by simp
  qed
qed

lemma strict_desc_distinct:
  assumes "sorted_wrt (\<lambda>a b. card_number b < card_number a) K"
  shows "distinct (map card_number K)"
proof -
  have "sorted_wrt (<) (map card_number (rev K))"
    using assms by (simp add: sorted_wrt_map sorted_wrt_rev rev_map[symmetric])
  then have "distinct (map card_number (rev K))" using strict_sorted_iff by blast
  then show ?thesis by (simp add: rev_map[symmetric])
qed

lemma sort_cards_desc:
  assumes d: "sorted_wrt (\<lambda>a b. card_number b < card_number a) K"
  shows "sort_cards K = rev K"
  unfolding sort_cards_def
proof (rule properties_for_sort_key)
  show "mset (rev K) = mset K" by simp
  have "sorted_wrt (\<lambda>a b. card_number a < card_number b) (rev K)"
    using d by (simp add: sorted_wrt_rev)
  then have "sorted_wrt (<) (map card_number (rev K))" by (simp add: sorted_wrt_map)
  then show "sorted (map card_number (rev K))" by (rule strict_sorted_imp_sorted)
  show "\<And>k. k \<in> set (rev K) \<Longrightarrow>
          filter (\<lambda>x. card_number k = card_number x) (rev K) =
          filter (\<lambda>x. card_number k = card_number x) K"
  proof -
    fix k
    have "length (filter (\<lambda>x. card_number x = card_number k) K) \<le> 1"
      by (rule count_distinct_number[OF strict_desc_distinct[OF d]])
    then have "rev (filter (\<lambda>x. card_number x = card_number k) K) =
               filter (\<lambda>x. card_number x = card_number k) K"
      by (cases "filter (\<lambda>x. card_number x = card_number k) K") auto
    then show "filter (\<lambda>x. card_number k = card_number x) (rev K) =
          filter (\<lambda>x. card_number k = card_number x) K"
      by (simp add: rev_filter eq_commute)
  qed
qed

text \<open>The numbers of the keys that occur \<open>n\<close> times.\<close>

lemma weight_keys_numbers:
  assumes w: "\<forall>c \<in> set xs. weight c \<noteq> None"
  shows "card_number ` set (weight_keys xs n) =
           {v \<in> card_number ` set xs. length (filter (\<lambda>x. card_number x = v) xs) = n}"
proof (intro equalityI subsetI)
  fix v assume "v \<in> card_number ` set (weight_keys xs n)"
  then obtain k where k: "k \<in> set (weight_keys xs n)" and v: "v = card_number k" by auto
  show "v \<in> {v \<in> card_number ` set xs. length (filter (\<lambda>x. card_number x = v) xs) = n}"
    using weight_keys_props(2,4)[OF w k] v by simp
next
  fix v assume "v \<in> {v \<in> card_number ` set xs. length (filter (\<lambda>x. card_number x = v) xs) = n}"
  then obtain c where c: "c \<in> set xs" and v: "v = card_number c"
    and n: "length (filter (\<lambda>x. card_number x = v) xs) = n" by auto
  have "w_card c \<in> set (weight_keys xs n)" using weight_keys_intro[OF w c] n v by simp
  then show "v \<in> card_number ` set (weight_keys xs n)"
    unfolding v using w_card_number[of c] by (metis imageI)
qed

lemma weight_keys_length:
  assumes w: "\<forall>c \<in> set xs. weight c \<noteq> None" and s: "sorted (map card_number xs)"
  shows "length (weight_keys xs n) =
           card {v \<in> card_number ` set xs. length (filter (\<lambda>x. card_number x = v) xs) = n}"
proof -
  have "distinct (map card_number (weight_keys xs n))"
    using weight_keys_sorted[OF w s, of n] strict_sorted_iff by blast
  then have "length (weight_keys xs n) = card (card_number ` set (weight_keys xs n))"
    using distinct_card[of "map card_number (weight_keys xs n)"] by simp
  then show ?thesis unfolding weight_keys_numbers[OF w] .
qed

lemma weight_keys_empty:
  assumes w: "\<forall>c \<in> set xs. weight c \<noteq> None"
  shows "(weight_keys xs n = []) =
           (\<forall>c \<in> set xs. length (filter (\<lambda>x. card_number x = card_number c) xs) \<noteq> n)"
proof -
  have "(weight_keys xs n = []) = (card_number ` set (weight_keys xs n) = {})" by simp
  also have "\<dots> = (\<forall>c \<in> set xs. length (filter (\<lambda>x. card_number x = card_number c) xs) \<noteq> n)"
    unfolding weight_keys_numbers[OF w] by auto
  finally show ?thesis .
qed

text \<open>A group of one weight followed by kickers of other weights, sorted.\<close>

lemma sorted_group_parts:
  assumes F: "\<forall>c \<in> set F. card_number c = f"
    and K: "sorted_wrt (\<lambda>a b. card_number b < card_number a) K"
    and fK: "\<forall>c \<in> set K. card_number c \<noteq> f"
  shows "filter (\<lambda>x. card_number x = f) (sort_cards (F @ K)) = F"
    and "filter (\<lambda>x. card_number x \<noteq> f) (sort_cards (F @ K)) = rev K"
proof -
  have f1: "filter (\<lambda>x. card_number x = f) F = F" "filter (\<lambda>x. card_number x \<noteq> f) F = []"
    using F by (simp_all add: filter_empty_conv)
  have f2: "filter (\<lambda>x. card_number x = f) K = []" "filter (\<lambda>x. card_number x \<noteq> f) K = K"
    using fK by (simp_all add: filter_empty_conv)
  show "filter (\<lambda>x. card_number x = f) (sort_cards (F @ K)) = F"
    unfolding filter_sort_cards by (simp add: f1 f2 sort_cards_same[OF F])
  show "filter (\<lambda>x. card_number x \<noteq> f) (sort_cards (F @ K)) = rev K"
    unfolding filter_sort_cards by (simp add: f1 f2 sort_cards_desc[OF K])
qed

lemma group_counts:
  assumes F: "\<forall>c \<in> set F. card_number c = f"
    and K: "sorted_wrt (\<lambda>a b. card_number b < card_number a) K"
    and fK: "\<forall>c \<in> set K. card_number c \<noteq> f"
  shows "length (filter (\<lambda>x. card_number x = f) (sort_cards (F @ K))) = length F"
    and "v \<noteq> f \<Longrightarrow> length (filter (\<lambda>x. card_number x = v) (sort_cards (F @ K))) \<le> 1"
proof -
  show "length (filter (\<lambda>x. card_number x = f) (sort_cards (F @ K))) = length F"
    using sorted_group_parts(1)[OF F K fK] by simp
  assume v: "v \<noteq> f"
  have "filter (\<lambda>x. card_number x = v) F = []" using F v by (simp add: filter_empty_conv)
  then have "length (filter (\<lambda>x. card_number x = v) (F @ K)) =
             length (filter (\<lambda>x. card_number x = v) K)" by simp
  then show "length (filter (\<lambda>x. card_number x = v) (sort_cards (F @ K))) \<le> 1"
    using count_distinct_number[OF strict_desc_distinct[OF K], of v]
    by (simp add: length_filter_sort_cards)
qed

text \<open>A run of five needs five weights.\<close>

lemma run_five_numbers:
  assumes "has_run (seq_numbers cs)"
  shows "5 \<le> card (card_number ` set cs)"
proof -
  obtain lo where lo: "lo < 10" and r: "\<forall>j<5. lo + j \<in> seq_numbers cs"
    using assms unfolding has_run_iff run_from_iff by blast
  let ?N = "card_number ` set cs"
  have mem: "v \<in> ?N" if "v \<in> seq_numbers cs" "v \<noteq> 0" for v
    using that by (auto simp: seq_numbers_def split: if_splits)
  have "\<exists>S. S \<subseteq> ?N \<and> card S = 5"
  proof (cases "lo = 0")
    case True
    have "(1::nat) \<in> seq_numbers cs" "(2::nat) \<in> seq_numbers cs" "(3::nat) \<in> seq_numbers cs"
      "(4::nat) \<in> seq_numbers cs" "(0::nat) \<in> seq_numbers cs"
      using r[rule_format, of 1] r[rule_format, of 2] r[rule_format, of 3] r[rule_format, of 4]
        r[rule_format, of 0] unfolding True by (simp_all add: numeral_2_eq_2)
    then have s: "{1, 2, 3, 4} \<subseteq> ?N" and z: "0 \<in> ?N \<or> 13 \<in> ?N"
      using mem[of 1] mem[of 2] mem[of 3] mem[of 4]
      by (simp_all add: seq_numbers_def split: if_splits)
    from z show ?thesis
    proof
      assume "0 \<in> ?N"
      then have "{0, 1, 2, 3, 4} \<subseteq> ?N" using s by simp
      moreover have "card {0::nat, 1, 2, 3, 4} = 5" by simp
      ultimately show ?thesis by blast
    next
      assume "13 \<in> ?N"
      then have "{13, 1, 2, 3, 4} \<subseteq> ?N" using s by simp
      moreover have "card {13::nat, 1, 2, 3, 4} = 5" by simp
      ultimately show ?thesis by blast
    qed
  next
    case False
    have "lo + j \<in> ?N" if "j < 5" for j
      by (rule mem) (use that False r in simp_all)
    from this[of 0] this[of 1] this[of 2] this[of 3] this[of 4]
    have "{lo, lo + 1, lo + 2, lo + 3, lo + 4} \<subseteq> ?N" by simp
    moreover have "card {lo, lo + 1, lo + 2, lo + 3, lo + 4} = 5" by simp
    ultimately show ?thesis by blast
  qed
  then obtain S where "S \<subseteq> ?N" "card S = 5" by blast
  then show ?thesis using card_mono[of ?N S] by simp
qed

lemma no_run_five_in_a_row:
  assumes ne: "R \<noteq> []" and c: "\<forall>c \<in> set R. concrete c" and n: "\<not> has_run (seq_numbers R)"
  shows "\<not> five_in_a_row (Q_of (sort_cards R))"
proof -
  have ne': "sort_cards R \<noteq> []" using ne by (simp add: sort_cards_Nil)
  have c': "\<forall>c \<in> set (sort_cards R). concrete c" using c by (simp add: sort_cards_set)
  have "seq_numbers (sort_cards R) = seq_numbers R"
    by (rule seq_numbers_cong) (simp add: sort_cards_set)
  then show ?thesis using Q_of_fields(3)[OF ne' c'] n by (simp add: top_run_None)
qed

lemma no_flush_again:
  assumes ne: "R \<noteq> []" and c: "\<forall>c \<in> set R. concrete c"
    and nf: "\<forall>s. length (filter (\<lambda>c. suit c = Some s) R) < 5"
  shows "\<not> five_or_more (S_of (sort_cards R))"
proof (rule no_five_or_more)
  show "sort_cards R \<noteq> []" using ne by (simp add: sort_cards_Nil)
  show "\<forall>c \<in> set (sort_cards R). concrete c" using c by (simp add: sort_cards_set)
  show "\<forall>s. length (filter (\<lambda>c. suit c = Some s) (sort_cards R)) < 5"
    using nf by (simp add: length_filter_sort_cards)
qed

text \<open>
  Five cards that are a group of four, three or two cards of one weight and then
  kickers of other weights, strictly descending, are classified as that group with
  those kickers.
\<close>

lemma few_numbers_no_run:
  assumes "card (card_number ` set R) < 5"
  shows "\<not> has_run (seq_numbers R)"
  using run_five_numbers[of R] assms by auto

lemma group_numbers_card:
  assumes F: "\<forall>c \<in> set F. card_number c = f"
  shows "card (card_number ` set (F @ K)) \<le> 1 + length K"
proof -
  have "card_number ` set (F @ K) \<subseteq> insert f (card_number ` set K)" using F by auto
  then have "card (card_number ` set (F @ K)) \<le> card (insert f (card_number ` set K))"
    by (intro card_mono) simp_all
  also have "\<dots> \<le> 1 + card (card_number ` set K)" by (simp add: card_insert_if)
  also have "\<dots> \<le> 1 + length K" using card_numbers_le_length[of K] by simp
  finally show ?thesis .
qed

lemma reclassify_group:
  assumes F: "\<forall>c \<in> set F. card_number c = f" and lF: "length F = m"
    and m: "m = 2 \<or> m = 3 \<or> m = 4" and lK: "length K = 5 - m"
    and K: "sorted_wrt (\<lambda>a b. card_number b < card_number a) K"
    and fK: "\<forall>c \<in> set K. card_number c \<noteq> f"
    and c: "\<forall>c \<in> set (F @ K). concrete c"
    and nf: "\<forall>s. length (filter (\<lambda>c. suit c = Some s) (F @ K)) < 5"
  shows "\<exists>r. classify (F @ K) = Inr r \<and> cards r = F @ K \<and>
           combo_type r = Some (if m = 4 then FOUR_OF_A_KIND
                                else if m = 3 then THREE_OF_A_KIND else ONE_PAIR)"
proof -
  let ?R = "F @ K"
  let ?xs = "sort_cards ?R"
  let ?cnt = "\<lambda>v. length (filter (\<lambda>x. card_number x = v) ?xs)"
  have ne: "?R \<noteq> []" using lF m by auto
  have w: "\<forall>c \<in> set ?xs. weight c \<noteq> None" using c by (auto simp: sort_cards_set concrete_def)
  have s: "sorted (map card_number ?xs)" by (rule sort_cards_sorted)
  have n5: "5 \<le> length ?xs" using lF lK m by (auto simp: sort_cards_length)
  have nf': "\<not> five_or_more (S_of ?xs)" by (rule no_flush_again[OF ne c nf])
  note P = sorted_group_parts[OF F K fK]
  note C = group_counts[OF F K fK]
  obtain c0 where c0: "c0 \<in> set F" using lF m by (cases F) auto
  have fin: "f \<in> card_number ` set ?xs" using c0 F by (force simp: sort_cards_set)
  have cf: "?cnt f = m" using C(1) lF by simp
  have M: "{v \<in> card_number ` set ?xs. ?cnt v = n} = (if n = m then {f} else {})" if "2 \<le> n" for n
  proof -
    have "?cnt v = n \<longleftrightarrow> (v = f \<and> n = m)" for v
    proof (cases "v = f")
      case True then show ?thesis using cf by auto
    next
      case False then show ?thesis using C(2)[OF False] that by auto
    qed
    then show ?thesis using fin by auto
  qed
  have len: "length (weight_keys ?xs n) = (if n = m then 1 else 0)" if "2 \<le> n" for n
    unfolding weight_keys_length[OF w s] M[OF that] by simp
  have key: "card_number k = f" if "k \<in> set (weight_keys ?xs m)" for k
  proof -
    have m2: "2 \<le> m" using m by auto
    have "card_number k \<in> card_number ` set (weight_keys ?xs m)" using that by simp
    then have "card_number k \<in> {f}"
      unfolding weight_keys_numbers[OF w] M[OF m2] by simp
    then show ?thesis by simp
  qed
  have cards_eq: "get_other_cards (filter (\<lambda>x. card_eq x k) ?xs) ?xs = ?R"
    if k: "k \<in> set (weight_keys ?xs m)" for k
  proof -
    have "get_other_cards (filter (\<lambda>x. card_eq x k) ?xs) ?xs =
            filter (\<lambda>x. card_number x = f) ?xs @ take (5 - m) (rev (filter (\<lambda>x. card_number x \<noteq> f) ?xs))"
      using group_with_kickers(1)[OF w k _ _ n5] m unfolding key[OF k] by auto
    then show ?thesis unfolding P using lK by simp
  qed
  have nr: "\<not> five_in_a_row (Q_of ?xs)" if "m < 4"
  proof -
    have "card (card_number ` set ?R) < 5" using group_numbers_card[OF F, of K] lK m that by auto
    then show ?thesis by (intro no_run_five_in_a_row[OF ne c] few_numbers_no_run)
  qed
  from m show ?thesis
  proof (elim disjE)
    assume m2: "m = 2"
    have l: "weight_keys ?xs 4 = []" "weight_keys ?xs 3 = []" "length (weight_keys ?xs 2) = 1"
      using len[of 4] len[of 3] len[of 2] m2 by simp_all
    have f: "four (W_of ?xs) = None" "three (W_of ?xs) = None" "double_two (W_of ?xs) = None"
      "two (W_of ?xs) = Some (last (weight_keys ?xs 2))"
      using l by (simp_all add: W_of_fields[OF w])
    have k: "the (two (W_of ?xs)) \<in> set (weight_keys ?xs m)"
      unfolding f m2 using l(3) by (cases "weight_keys ?xs 2") auto
    have "classify ?R = Inr (get_one_pair (new_combo ?xs (W_of ?xs) (S_of ?xs) (Q_of ?xs)))"
      using classify_branches(6)[OF ne c nf'] f nr m2 by simp
    then show ?thesis using cards_eq[OF k] m2 by (simp add: combo_fields)
  next
    assume m3: "m = 3"
    have l: "weight_keys ?xs 4 = []" "length (weight_keys ?xs 3) = 1" "weight_keys ?xs 2 = []"
      using len[of 4] len[of 3] len[of 2] m3 by simp_all
    have l3: "weight_keys ?xs 3 \<noteq> []" using l(2) by auto
    have f: "four (W_of ?xs) = None" "three (W_of ?xs) = Some (last (weight_keys ?xs 3))"
      "two (W_of ?xs) = None"
      using l l3 by (simp_all add: W_of_fields[OF w])
    have k: "the (three (W_of ?xs)) \<in> set (weight_keys ?xs m)"
      unfolding f m3 using l3 by simp
    have "classify ?R = Inr (get_three_of_a_kind (new_combo ?xs (W_of ?xs) (S_of ?xs) (Q_of ?xs)))"
      using classify_branches(4)[OF ne c nf'] f nr m3 by simp
    then show ?thesis using cards_eq[OF k] m3 by (simp add: combo_fields)
  next
    assume m4: "m = 4"
    have l: "length (weight_keys ?xs 4) = 1" using len[of 4] m4 by simp
    have l4: "weight_keys ?xs 4 \<noteq> []" using l by auto
    have f: "four (W_of ?xs) = Some (hd (weight_keys ?xs 4))"
      using l4 by (simp add: W_of_fields[OF w])
    have k: "the (four (W_of ?xs)) \<in> set (weight_keys ?xs m)"
      unfolding f m4 using l4 by simp
    have "classify ?R = Inr (get_four_of_a_kind (new_combo ?xs (W_of ?xs) (S_of ?xs) (Q_of ?xs)))"
      using classify_branches(1)[OF ne c nf'] f by simp
    then show ?thesis using cards_eq[OF k] m4 by (simp add: combo_fields)
  qed
qed

lemma same_number_image:
  assumes "F \<noteq> []" and "\<forall>c \<in> set F. card_number c = v"
  shows "card_number ` set F = {v}"
proof -
  obtain x where "x \<in> set F" using assms(1) by (cases F) auto
  then show ?thesis using assms(2) by force
qed

text \<open>Three cards of one weight and two of another are classified as that full house.\<close>

lemma reclassify_full_house:
  assumes T: "\<forall>c \<in> set T. card_number c = t" and lT: "length T = 3"
    and D: "\<forall>c \<in> set D. card_number c = d" and lD: "length D = 2" and td: "t \<noteq> d"
    and c: "\<forall>c \<in> set (T @ D). concrete c"
    and nf: "\<forall>s. length (filter (\<lambda>c. suit c = Some s) (T @ D)) < 5"
  shows "\<exists>r. classify (T @ D) = Inr r \<and> cards r = T @ D \<and> combo_type r = Some FULL_HOUSE"
proof -
  let ?R = "T @ D"
  let ?xs = "sort_cards ?R"
  let ?cnt = "\<lambda>v. length (filter (\<lambda>x. card_number x = v) ?xs)"
  have ne: "?R \<noteq> []" using lT by auto
  have w: "\<forall>c \<in> set ?xs. weight c \<noteq> None" using c by (auto simp: sort_cards_set concrete_def)
  have s: "sorted (map card_number ?xs)" by (rule sort_cards_sorted)
  have nf': "\<not> five_or_more (S_of ?xs)" by (rule no_flush_again[OF ne c nf])
  have ft: "filter (\<lambda>x. card_number x = t) T = T" "filter (\<lambda>x. card_number x = t) D = []"
    "filter (\<lambda>x. card_number x = d) T = []" "filter (\<lambda>x. card_number x = d) D = D"
    using T D td by (auto simp: filter_empty_conv filter_id_conv)
  have Pt: "filter (\<lambda>x. card_number x = t) ?xs = T"
    unfolding filter_sort_cards by (simp add: ft sort_cards_same[OF T])
  have Pd: "filter (\<lambda>x. card_number x = d) ?xs = D"
    unfolding filter_sort_cards by (simp add: ft sort_cards_same[OF D])
  have nums: "card_number ` set ?xs = {t, d}"
  proof -
    have ne: "T \<noteq> []" "D \<noteq> []" using lT lD by auto
    have "card_number ` set T = {t}" "card_number ` set D = {d}"
      using same_number_image[OF ne(1) T] same_number_image[OF ne(2) D] .
    then show ?thesis by (auto simp: sort_cards_set image_Un)
  qed
  have M: "{v \<in> card_number ` set ?xs. ?cnt v = n} =
             (if n = 3 then {t} else if n = 2 then {d} else {})" if "2 \<le> n" for n
    unfolding nums using Pt Pd lT lD td that by auto
  have len: "length (weight_keys ?xs n) = (if n = 3 then 1 else if n = 2 then 1 else 0)"
    if "2 \<le> n" for n
    unfolding weight_keys_length[OF w s] M[OF that] by simp
  have l: "weight_keys ?xs 4 = []" "length (weight_keys ?xs 3) = 1" "length (weight_keys ?xs 2) = 1"
    using len[of 4] len[of 3] len[of 2] by simp_all
  have l3: "weight_keys ?xs 3 \<noteq> []" and l2: "weight_keys ?xs 2 \<noteq> []" using l by auto
  have f: "four (W_of ?xs) = None" "three (W_of ?xs) = Some (last (weight_keys ?xs 3))"
    "two (W_of ?xs) = Some (last (weight_keys ?xs 2))"
    using l l3 l2 by (simp_all add: W_of_fields[OF w])
  have k3: "last (weight_keys ?xs 3) \<in> set (weight_keys ?xs 3)" using l3 by simp
  have k2: "last (weight_keys ?xs 2) \<in> set (weight_keys ?xs 2)" using l2 by simp
  have "card_number (last (weight_keys ?xs 3)) \<in> card_number ` set (weight_keys ?xs 3)"
    using k3 by (rule imageI)
  then have n3: "card_number (last (weight_keys ?xs 3)) = t"
    unfolding weight_keys_numbers[OF w] M[of 3, simplified] by simp
  have "card_number (last (weight_keys ?xs 2)) \<in> card_number ` set (weight_keys ?xs 2)"
    using k2 by (rule imageI)
  then have n2: "card_number (last (weight_keys ?xs 2)) = d"
    unfolding weight_keys_numbers[OF w] M[of 2, simplified] by simp
  have e3: "filter (\<lambda>x. card_eq x (last (weight_keys ?xs 3))) ?xs = T"
    using weight_keys_props(3)[OF w k3] unfolding n3 Pt .
  have e2: "filter (\<lambda>x. card_eq x (last (weight_keys ?xs 2))) ?xs = D"
    using weight_keys_props(3)[OF w k2] unfolding n2 Pd .
  have "classify ?R = Inr (get_full_house (new_combo ?xs (W_of ?xs) (S_of ?xs) (Q_of ?xs)))"
    using classify_branches(2)[OF ne c nf'] f by simp
  then show ?thesis using lD by (simp add: combo_fields f e3 e2)
qed

text \<open>Two pairs, the higher first, and a kicker are classified as those two pairs.\<close>

lemma reclassify_two_pairs:
  assumes B: "\<forall>c \<in> set B. card_number c = b" and lB: "length B = 2"
    and A: "\<forall>c \<in> set A. card_number c = a" and lA: "length A = 2" and ab: "a < b"
    and k: "card_number k \<noteq> a" "card_number k \<noteq> b"
    and c: "\<forall>c \<in> set (B @ A @ [k]). concrete c"
    and nf: "\<forall>s. length (filter (\<lambda>c. suit c = Some s) (B @ A @ [k])) < 5"
  shows "\<exists>r. classify (B @ A @ [k]) = Inr r \<and> cards r = B @ A @ [k] \<and>
           combo_type r = Some TWO_PAIRS"
proof -
  let ?R = "B @ A @ [k]"
  let ?xs = "sort_cards ?R"
  let ?cnt = "\<lambda>v. length (filter (\<lambda>x. card_number x = v) ?xs)"
  have ne: "?R \<noteq> []" by simp
  have w: "\<forall>c \<in> set ?xs. weight c \<noteq> None" using c by (auto simp: sort_cards_set concrete_def)
  have s: "sorted (map card_number ?xs)" by (rule sort_cards_sorted)
  have n5: "5 \<le> length ?xs" using lA lB by (simp add: sort_cards_length)
  have nf': "\<not> five_or_more (S_of ?xs)" by (rule no_flush_again[OF ne c nf])
  have fb: "filter (\<lambda>x. card_number x = b) B = B" "filter (\<lambda>x. card_number x = b) A = []"
    "filter (\<lambda>x. card_number x = a) B = []" "filter (\<lambda>x. card_number x = a) A = A"
    "filter (\<lambda>x. card_number x \<noteq> a \<and> card_number x \<noteq> b) A = []"
    "filter (\<lambda>x. card_number x \<noteq> a \<and> card_number x \<noteq> b) B = []"
    using A B ab by (auto simp: filter_empty_conv filter_id_conv)
  have Pb: "filter (\<lambda>x. card_number x = b) ?xs = B"
    unfolding filter_sort_cards using k by (simp add: fb sort_cards_same[OF B])
  have Pa: "filter (\<lambda>x. card_number x = a) ?xs = A"
    unfolding filter_sort_cards using k by (simp add: fb sort_cards_same[OF A])
  have Pk: "filter (\<lambda>x. card_number x \<noteq> a \<and> card_number x \<noteq> b) ?xs = [k]"
    unfolding filter_sort_cards using k by (simp add: fb sort_cards_def)
  have Pn: "filter (\<lambda>x. card_number x = card_number k) ?xs = [k]"
  proof -
    have "filter (\<lambda>x. card_number x = card_number k) B = []"
      "filter (\<lambda>x. card_number x = card_number k) A = []"
      using A B k by (auto simp: filter_empty_conv)
    then show ?thesis unfolding filter_sort_cards by (simp add: sort_cards_def)
  qed
  have nums: "card_number ` set ?xs = {b, a, card_number k}"
  proof -
    have ne: "B \<noteq> []" "A \<noteq> []" using lA lB by auto
    have "card_number ` set B = {b}" "card_number ` set A = {a}"
      using same_number_image[OF ne(1) B] same_number_image[OF ne(2) A] .
    then show ?thesis by (auto simp: sort_cards_set image_Un)
  qed
  have M: "{v \<in> card_number ` set ?xs. ?cnt v = n} = (if n = 2 then {a, b} else {})"
    if "2 \<le> n" for n
    unfolding nums using Pa Pb Pn lA lB that by auto
  have card2: "card {a, b} = 2" using ab by simp
  have len: "length (weight_keys ?xs n) = (if n = 2 then 2 else 0)" if "2 \<le> n" for n
    unfolding weight_keys_length[OF w s] M[OF that] using card2 by simp
  have l: "weight_keys ?xs 4 = []" "weight_keys ?xs 3 = []" "length (weight_keys ?xs 2) = 2"
    using len[of 4] len[of 3] len[of 2] by simp_all
  have f: "four (W_of ?xs) = None" "three (W_of ?xs) = None" "double_two (W_of ?xs) \<noteq> None"
    using l by (simp_all add: W_of_fields[OF w])
  have "card (card_number ` set ?R) \<le> 3"
    using nums card_insert_le_m1[of 3 "{a, card_number k}" b]
    by (simp add: sort_cards_set card_insert_if)
  then have "card (card_number ` set ?R) < 5" by simp
  then have nr: "\<not> five_in_a_row (Q_of ?xs)"
    by (intro no_run_five_in_a_row[OF ne c] few_numbers_no_run)
  obtain a' b' where ab': "a' < b'" and ca: "?cnt a' = 2" and cb: "?cnt b' = 2"
    and e: "get_other_cards
             (drop 2 (filter (\<lambda>x. card_in x (the (double_two (W_of ?xs)))) ?xs) @
              take 2 (filter (\<lambda>x. card_in x (the (double_two (W_of ?xs)))) ?xs)) ?xs =
           filter (\<lambda>x. card_number x = b') ?xs @ filter (\<lambda>x. card_number x = a') ?xs @
           take 1 (rev (filter (\<lambda>x. card_number x \<noteq> a' \<and> card_number x \<noteq> b') ?xs))"
    using two_pairs_cards[OF w s n5 f(3)] by blast
  have mem: "v \<in> {a, b}" if "?cnt v = 2" for v
  proof -
    have "filter (\<lambda>x. card_number x = v) ?xs \<noteq> []" using that by auto
    then have "v \<in> card_number ` set ?xs" by (auto simp: filter_empty_conv)
    then have "v \<in> {v \<in> card_number ` set ?xs. ?cnt v = 2}" using that by simp
    then show ?thesis unfolding M[of 2, simplified] .
  qed
  have "a' = a \<and> b' = b" using mem[OF ca] mem[OF cb] ab ab' by auto
  then have e': "get_other_cards
             (drop 2 (filter (\<lambda>x. card_in x (the (double_two (W_of ?xs)))) ?xs) @
              take 2 (filter (\<lambda>x. card_in x (the (double_two (W_of ?xs)))) ?xs)) ?xs = ?R"
    using e by (simp add: Pa Pb Pk)
  have "classify ?R = Inr (get_two_pairs (new_combo ?xs (W_of ?xs) (S_of ?xs) (Q_of ?xs)))"
    using classify_branches(5)[OF ne c nf'] f nr by simp
  then show ?thesis using e' by (simp add: combo_fields)
qed

text \<open>Five cards of five weights, strictly descending.\<close>

lemma distinct_no_groups:
  assumes d: "sorted_wrt (\<lambda>a b. card_number b < card_number a) R"
    and w: "\<forall>c \<in> set R. weight c \<noteq> None"
  shows "four (W_of (sort_cards R)) = None" and "three (W_of (sort_cards R)) = None"
    and "two (W_of (sort_cards R)) = None" and "double_two (W_of (sort_cards R)) = None"
proof -
  let ?xs = "sort_cards R"
  have w': "\<forall>c \<in> set ?xs. weight c \<noteq> None" using w by (simp add: sort_cards_set)
  have e: "weight_keys ?xs n = []" if "2 \<le> n" for n
  proof -
    have "length (filter (\<lambda>x. card_number x = v) ?xs) \<le> 1" for v
      using count_distinct_number[OF strict_desc_distinct[OF d], of v]
      by (simp add: length_filter_sort_cards)
    then have "length (filter (\<lambda>x. card_number x = v) ?xs) \<noteq> n" for v
      using that by (metis Suc_1 not_less_eq_eq)
    then show ?thesis unfolding weight_keys_empty[OF w'] by simp
  qed
  have l: "weight_keys ?xs 4 = []" "weight_keys ?xs 3 = []" "weight_keys ?xs 2 = []"
    using e[of 4] e[of 3] e[of 2] by simp_all
  show "four (W_of ?xs) = None" "three (W_of ?xs) = None"
    "two (W_of ?xs) = None" "double_two (W_of ?xs) = None"
    using l by (simp_all add: W_of_fields[OF w'])
qed

lemma reclassify_high_card:
  assumes d: "sorted_wrt (\<lambda>a b. card_number b < card_number a) R" and l: "length R = 5"
    and c: "\<forall>c \<in> set R. concrete c"
    and nf: "\<forall>s. length (filter (\<lambda>c. suit c = Some s) R) < 5"
    and nr: "\<not> has_run (seq_numbers R)"
  shows "\<exists>r. classify R = Inr r \<and> cards r = R \<and> combo_type r = Some HIGH_CARD"
proof -
  let ?xs = "sort_cards R"
  have ne: "R \<noteq> []" using l by auto
  have w: "\<forall>c \<in> set R. weight c \<noteq> None" using c by (auto simp: concrete_def)
  have nf': "\<not> five_or_more (S_of ?xs)" by (rule no_flush_again[OF ne c nf])
  have nr': "\<not> five_in_a_row (Q_of ?xs)" by (rule no_run_five_in_a_row[OF ne c nr])
  note f = distinct_no_groups[OF d w]
  have "classify R = Inr (get_high_card (new_combo ?xs (W_of ?xs) (S_of ?xs) (Q_of ?xs)))"
    using classify_branches(7)[OF ne c nf'] f nr' by simp
  moreover have "rev (py_suffix ?xs 5) = R"
    unfolding sort_cards_desc[OF d] py_suffix_def using l by simp
  ultimately show ?thesis by (simp add: combo_fields)
qed

text \<open>Five cards of five consecutive weights, highest first.\<close>

lemma filter_unique:
  assumes "distinct (map f R)" and "x \<in> set R"
  shows "filter (\<lambda>c. f c = f x) R = [x]"
  using assms
proof (induction R)
  case Nil
  then show ?case by simp
next
  case (Cons a R)
  show ?case
  proof (cases "x = a")
    case True
    have "f a \<notin> f ` set R" using Cons.prems(1) by simp
    then have "\<forall>c \<in> set R. f c \<noteq> f a" by (metis imageI)
    then have "filter (\<lambda>c. f c = f a) R = []" by (simp add: filter_empty_conv)
    then show ?thesis using True by simp
  next
    case False
    then have x: "x \<in> set R" using Cons.prems(2) by simp
    have "f a \<notin> f ` set R" using Cons.prems(1) by simp
    then have "f a \<noteq> f x" using x by (metis imageI)
    then show ?thesis using Cons.IH[OF _ x] Cons.prems(1) by simp
  qed
qed

lemma run_descending:
  assumes m: "map card_number R = rev [lo..<lo + 5]"
  shows "sorted_wrt (\<lambda>a b. card_number b < card_number a) R" and "length R = 5"
    and "card_number ` set R = {lo..<lo + 5}"
proof -
  have "sorted_wrt (\<lambda>a b. b < a) (map card_number R)"
    unfolding m by (simp add: sorted_wrt_rev)
  then show "sorted_wrt (\<lambda>a b. card_number b < card_number a) R" by (simp add: sorted_wrt_map)
  have "length (map card_number R) = 5" unfolding m by simp
  then show "length R = 5" by simp
  have "set (map card_number R) = {lo..<lo + 5}" unfolding m by simp
  then show "card_number ` set R = {lo..<lo + 5}" by simp
qed

lemma run_again:
  assumes m: "map card_number R = rev [lo..<lo + 5]" and lo: "lo < 10"
    and w: "\<forall>c \<in> set R. weight c \<noteq> None"
  shows "top_run (seq_numbers (sort_cards R)) = Some lo"
    and "run_cards (with_low_ace (sort_cards R)) lo = R"
proof -
  note D = run_descending[OF m]
  let ?xs = "sort_cards R"
  have xs: "?xs = rev R" by (rule sort_cards_desc[OF D(1)])
  have nums: "card_number ` set ?xs = {lo..<lo + 5}" using D(3) by (simp add: sort_cards_set)
  have w': "\<forall>c \<in> set ?xs. weight c \<noteq> None" using w by (simp add: sort_cards_set)
  have sq: "seq_numbers ?xs = {lo..<lo + 5} \<union> (if lo = 9 then {0} else {})"
    unfolding seq_numbers_def nums using lo by auto
  have "\<not> run_from (seq_numbers ?xs) l" if "lo < l" for l
  proof
    assume "run_from (seq_numbers ?xs) l"
    then have "l + 4 \<in> seq_numbers ?xs" unfolding run_from_iff by simp
    then show False unfolding sq using that by (auto split: if_splits)
  qed
  moreover have "run_from (seq_numbers ?xs) lo" unfolding run_from_iff sq by simp
  ultimately show "top_run (seq_numbers ?xs) = Some lo"
    unfolding top_run_Some using lo by simp
  have fl: "filter (\<lambda>c. card_number c = card_number x) (with_low_ace ?xs) = [x]"
    if x: "x \<in> set R" for x
  proof -
    have nx: "lo \<le> card_number x" "card_number x < lo + 5" using x D(3) by auto
    have "filter (\<lambda>c. card_number c = card_number x) (with_low_ace ?xs) =
          filter (\<lambda>c. card_number c = card_number x) ?xs"
    proof (cases "13 \<in> card_number ` set ?xs")
      case True
      then have "lo = 9" unfolding nums using lo by auto
      then have "card_number x \<noteq> 0" using nx by simp
      then show ?thesis
        unfolding with_low_ace_cases[OF w'] using True by (simp add: card_number_def)
    next
      case False
      then show ?thesis unfolding with_low_ace_cases[OF w'] by simp
    qed
    also have "\<dots> = rev (filter (\<lambda>c. card_number c = card_number x) R)"
      unfolding xs by (simp add: rev_filter)
    also have "\<dots> = [x]"
      using filter_unique[OF strict_desc_distinct[OF D(1)] x] by simp
    finally show ?thesis .
  qed
  have "run_cards (with_low_ace ?xs) lo =
          map (\<lambda>v. last (filter (\<lambda>c. card_number c = v) (with_low_ace ?xs))) (map card_number R)"
    unfolding run_cards_def m ..
  also have "\<dots> = map (\<lambda>x. x) R"
    unfolding map_map by (rule map_cong) (simp_all add: fl)
  finally show "run_cards (with_low_ace ?xs) lo = R" by simp
qed

lemma reclassify_straight:
  assumes m: "map card_number R = rev [lo..<lo + 5]" and lo: "lo < 10"
    and c: "\<forall>c \<in> set R. concrete c"
    and nf: "\<forall>s. length (filter (\<lambda>c. suit c = Some s) R) < 5"
  shows "\<exists>r. classify R = Inr r \<and> cards r = R \<and> combo_type r = Some STRAIGHT"
proof -
  let ?xs = "sort_cards R"
  note D = run_descending[OF m]
  have ne: "R \<noteq> []" using D(2) by auto
  have w: "\<forall>c \<in> set R. weight c \<noteq> None" using c by (auto simp: concrete_def)
  have ne': "?xs \<noteq> []" using ne by (simp add: sort_cards_Nil)
  have c': "\<forall>c \<in> set ?xs. concrete c" using c by (simp add: sort_cards_set)
  have nf': "\<not> five_or_more (S_of ?xs)" by (rule no_flush_again[OF ne c nf])
  note f = distinct_no_groups[OF D(1) w]
  note A = run_again[OF m lo w]
  note Q = Q_of_fields[OF ne' c']
  have r: "five_in_a_row (Q_of ?xs)" unfolding Q(3) A(1) by simp
  have o: "the (order_cards (Q_of ?xs)) = R" unfolding Q(2) A(1) by (simp add: A(2))
  have "classify R = Inr (get_straight (new_combo ?xs (W_of ?xs) (S_of ?xs) (Q_of ?xs)))"
    using classify_branches(3)[OF ne c nf'] f r by simp
  then show ?thesis using o by (simp add: combo_fields)
qed

text \<open>Five cards of one suit.\<close>

lemma one_suit_flush:
  assumes l: "length R = 5" and su: "\<forall>c \<in> set R. suit c = Some s"
  shows "five_or_more (S_of (sort_cards R))"
    and "filter (\<lambda>x. card_eq x (the (flush_card (S_of (sort_cards R))))) (sort_cards R) =
         sort_cards R"
proof -
  let ?xs = "sort_cards R"
  have ne: "?xs \<noteq> []" using l by (auto simp: sort_cards_Nil)
  have n7: "length ?xs \<le> 7" using l by (simp add: sort_cards_length)
  have all: "filter (\<lambda>c. suit c = Some s) ?xs = ?xs"
    using su by (simp add: filter_id_conv sort_cards_set)
  have n5: "5 \<le> length (filter (\<lambda>c. suit c = Some s) ?xs)"
    unfolding all using l by (simp add: sort_cards_length)
  show "five_or_more (S_of ?xs)" by (rule flush_suit_unique(1)[OF ne n7 n5])
  show "filter (\<lambda>x. card_eq x (the (flush_card (S_of ?xs)))) ?xs = ?xs"
    using flush_suit_unique(2)[OF ne n7 n5] unfolding all .
qed

lemma reclassify_flush:
  assumes d: "sorted_wrt (\<lambda>a b. card_number b < card_number a) R" and l: "length R = 5"
    and c: "\<forall>c \<in> set R. concrete c" and su: "\<forall>c \<in> set R. suit c = Some s"
    and nr: "\<not> has_run (seq_numbers R)"
  shows "\<exists>r. classify R = Inr r \<and> cards r = R \<and> combo_type r = Some FLUSH"
proof -
  let ?xs = "sort_cards R"
  have ne: "R \<noteq> []" using l by auto
  have ne': "?xs \<noteq> []" using ne by (simp add: sort_cards_Nil)
  have c': "\<forall>c \<in> set ?xs. concrete c" using c by (simp add: sort_cards_set)
  have w': "\<forall>c \<in> set ?xs. weight c \<noteq> None" using c' by (auto simp: concrete_def)
  have n5: "5 \<le> length ?xs" using l by (simp add: sort_cards_length)
  note F = one_suit_flush[OF l su]
  note Q = Q_of_fields[OF ne' c']
  have nr': "\<not> five_in_a_row (Q_of ?xs)" by (rule no_run_five_in_a_row[OF ne c nr])
  have "classify R = Inr (get_flush (new_combo ?xs (W_of ?xs) (S_of ?xs) (Q_of ?xs)))"
    using classify_flush[OF ne c F(1)] nr' unfolding F(2) by simp
  moreover have "rev (py_suffix (seq_cards (Q_of ?xs)) 5) = R"
    unfolding Q(4) py_suffix_low_ace[OF w' n5] unfolding sort_cards_desc[OF d] py_suffix_def
    using l by simp
  ultimately show ?thesis by (simp add: combo_fields)
qed

lemma reclassify_straight_flush:
  assumes m: "map card_number R = rev [lo..<lo + 5]" and lo: "lo < 10"
    and c: "\<forall>c \<in> set R. concrete c" and su: "\<forall>c \<in> set R. suit c = Some s"
  shows "\<exists>r. classify R = Inr r \<and> cards r = R \<and> combo_type r = Some STRAIGHT_FLUSH"
proof -
  let ?xs = "sort_cards R"
  note D = run_descending[OF m]
  have ne: "R \<noteq> []" using D(2) by auto
  have w: "\<forall>c \<in> set R. weight c \<noteq> None" using c by (auto simp: concrete_def)
  have ne': "?xs \<noteq> []" using ne by (simp add: sort_cards_Nil)
  have c': "\<forall>c \<in> set ?xs. concrete c" using c by (simp add: sort_cards_set)
  note F = one_suit_flush[OF D(2) su]
  note A = run_again[OF m lo w]
  note Q = Q_of_fields[OF ne' c']
  have r: "five_in_a_row (Q_of ?xs)" unfolding Q(3) A(1) by simp
  have o: "the (order_cards (Q_of ?xs)) = R" unfolding Q(2) A(1) by (simp add: A(2))
  have "classify R = Inr (get_straight_flush (new_combo ?xs (W_of ?xs) (S_of ?xs) (Q_of ?xs)))"
    using classify_flush[OF ne c F(1)] r unfolding F(2) by simp
  then show ?thesis using o by (simp add: combo_fields)
qed

text \<open>What a valid group gives: its cards after sorting, and how often a weight occurs.\<close>

lemma valid_group_sorted:
  assumes "valid_group g"
  shows "valid_group (sort_cards g)"
proof -
  have "mset (map (\<lambda>c. (weight c, suit c)) (sort_cards g)) = mset (map (\<lambda>c. (weight c, suit c)) g)"
    by (simp add: sort_cards_def)
  then have "distinct (map (\<lambda>c. (weight c, suit c)) (sort_cards g)) =
             distinct (map (\<lambda>c. (weight c, suit c)) g)"
    by (rule mset_eq_imp_distinct_iff)
  then show ?thesis
    using assms by (simp add: valid_group_def sort_cards_length list_all_iff sort_cards_set)
qed

lemma valid_card_unique:
  assumes v: "valid_group g" and x: "x \<in> set g" and y: "y \<in> set g"
    and n: "card_number x = card_number y" and s: "suit x = suit y"
  shows "x = y"
proof -
  note D = valid_groupD[OF v]
  have "weight x \<noteq> None" "weight y \<noteq> None" using D(3) x y by (auto simp: concrete_def)
  then obtain wx wy where wx: "weight x = Some wx" and wy: "weight y = Some wy" by blast
  have "number wx = number wy" using n by (simp add: card_number_def wx wy)
  then have "wx = wy" by (simp add: number_inj)
  then have "(weight x, suit x) = (weight y, suit y)" using wx wy s by simp
  moreover have "inj_on (\<lambda>c. (weight c, suit c)) (set g)" using D(5) by (simp add: distinct_map)
  ultimately show ?thesis using x y by (auto dest: inj_onD)
qed

lemma valid_distinct:
  assumes "valid_group g"
  shows "distinct g"
  using valid_groupD(5)[OF assms] by (simp add: distinct_map)

lemma valid_count_le_4:
  assumes v: "valid_group g"
  shows "length (filter (\<lambda>x. card_number x = n) g) \<le> 4"
proof -
  let ?F = "filter (\<lambda>x. card_number x = n) g"
  have d: "distinct ?F" using valid_distinct[OF v] by simp
  have i: "inj_on suit (set ?F)"
    by (rule inj_onI) (use valid_card_unique[OF v] in auto)
  have "suit ` set ?F \<subseteq> {Some Clubs, Some Diamonds, Some Hearts, Some Spades}"
  proof
    fix s assume "s \<in> suit ` set ?F"
    then obtain c where c: "c \<in> set g" and s: "s = suit c" by auto
    then obtain u where "s = Some u" using valid_groupD(3)[OF v] by (auto simp: concrete_def)
    then show "s \<in> {Some Clubs, Some Diamonds, Some Hearts, Some Spades}" by (cases u) simp_all
  qed
  then have "card (suit ` set ?F) \<le> card {Some Clubs, Some Diamonds, Some Hearts, Some Spades}"
    by (intro card_mono) simp_all
  also have "\<dots> \<le> 4" by (simp add: card_insert_if)
  finally have "card (suit ` set ?F) \<le> 4" .
  then show ?thesis using card_image[OF i] distinct_card[OF d] by simp
qed

lemma same_suit_distinct_numbers:
  assumes v: "valid_group g"
  shows "distinct (map card_number (filter (\<lambda>x. suit x = s) g))"
proof -
  have "inj_on card_number (set (filter (\<lambda>x. suit x = s) g))"
    by (rule inj_onI) (use valid_card_unique[OF v] in auto)
  then show ?thesis using valid_distinct[OF v] by (simp add: distinct_map)
qed

lemma sublist_count:
  assumes "distinct R" and "set R \<subseteq> set xs"
  shows "length (filter P R) \<le> length (filter P xs)"
proof -
  have "distinct (filter P R)" using assms(1) by simp
  then have "length (filter P R) = card (set (filter P R))"
    by (rule distinct_card[symmetric])
  also have "\<dots> \<le> card (set (filter P xs))" using assms(2) by (intro card_mono) auto
  also have "\<dots> \<le> length (filter P xs)" by (rule card_length)
  finally show ?thesis .
qed

lemma no_flush_suits:
  assumes ne: "xs \<noteq> []" and nf: "\<not> five_or_more (S_of xs)"
  shows "length (filter (\<lambda>c. suit c = s) xs) < 5"
proof (rule ccontr)
  assume a: "\<not> length (filter (\<lambda>c. suit c = s) xs) < 5"
  then have "filter (\<lambda>c. suit c = s) xs \<noteq> []" by auto
  then obtain c where c: "c \<in> set xs" and s: "suit c = s" by (auto simp: filter_empty_conv)
  have "5 \<le> count_cards xs (s_card c)" unfolding count_s_card s using a by simp
  then show False using nf c unfolding five_or_more_iff[OF ne] by blast
qed

lemma no_flush_part:
  assumes ne: "xs \<noteq> []" and nf: "\<not> five_or_more (S_of xs)"
    and d: "distinct R" and sub: "set R \<subseteq> set xs"
  shows "\<forall>s. length (filter (\<lambda>c. suit c = Some s) R) < 5"
proof
  fix s
  show "length (filter (\<lambda>c. suit c = Some s) R) < 5"
    using sublist_count[OF d sub, of "\<lambda>c. suit c = Some s"] no_flush_suits[OF ne nf, of "Some s"]
    by simp
qed

lemma has_run_mono:
  assumes "set R \<subseteq> set xs" and "has_run (seq_numbers R)"
  shows "has_run (seq_numbers xs)"
proof -
  have "seq_numbers R \<subseteq> seq_numbers xs" using assms(1) by (auto simp: seq_numbers_def)
  then show ?thesis using assms(2) unfolding has_run_iff run_from_iff by blast
qed

text \<open>Cards of which no two have the same weight, sorted.\<close>

lemma single_counts_distinct:
  assumes "\<forall>v. length (filter (\<lambda>x. f x = v) ys) \<le> 1"
  shows "distinct (map f ys)"
  using assms
proof (induction ys)
  case Nil
  show ?case by simp
next
  case (Cons a ys)
  have "length (filter (\<lambda>x. f x = f a) (a # ys)) \<le> 1" using Cons.prems by blast
  then have "filter (\<lambda>x. f x = f a) ys = []" by simp
  then have "f a \<notin> f ` set ys" by (auto simp: filter_empty_conv)
  moreover have "\<forall>v. length (filter (\<lambda>x. f x = v) ys) \<le> 1"
  proof
    fix v
    have "length (filter (\<lambda>x. f x = v) ys) \<le> length (filter (\<lambda>x. f x = v) (a # ys))" by simp
    then show "length (filter (\<lambda>x. f x = v) ys) \<le> 1" using Cons.prems[rule_format, of v] by linarith
  qed
  ultimately show ?case using Cons.IH by simp
qed

lemma top_kickers:
  assumes s: "sorted (map card_number xs)"
    and o: "\<forall>v. P v \<longrightarrow> length (filter (\<lambda>x. card_number x = v) xs) \<le> 1"
  shows "sorted_wrt (\<lambda>a b. card_number b < card_number a)
           (take n (rev (filter (\<lambda>x. P (card_number x)) xs)))"
proof -
  let ?ys = "filter (\<lambda>x. P (card_number x)) xs"
  have "length (filter (\<lambda>x. card_number x = v) ?ys) \<le> 1" for v
  proof (cases "P v")
    case True
    have "length (filter (\<lambda>x. card_number x = v) ?ys) \<le> length (filter (\<lambda>x. card_number x = v) xs)"
      using length_filter_le[of "\<lambda>x. P (card_number x)" "filter (\<lambda>x. card_number x = v) xs"]
      by (simp add: conj_commute)
    then show ?thesis using o True by (meson le_trans)
  next
    case False
    then have "filter (\<lambda>x. card_number x = v) ?ys = []" by (auto simp: filter_empty_conv)
    then show ?thesis by simp
  qed
  then have d: "distinct (map card_number ?ys)" by (intro single_counts_distinct) simp
  have "sorted (map card_number ?ys)" using s by (rule sorted_filter)
  then have "sorted_wrt (<) (map card_number ?ys)" using d strict_sorted_iff by blast
  then have "sorted_wrt (\<lambda>a b. card_number a < card_number b) ?ys" by (simp add: sorted_wrt_map)
  then have "sorted_wrt (\<lambda>a b. card_number b < card_number a) (rev ?ys)"
    by (simp add: sorted_wrt_rev)
  then show ?thesis by (rule sorted_wrt_take)
qed

text \<open>
  When no weight occurs more than four times, the attributes of the weight table tell
  which weights occur once only.
\<close>

lemma count_not_key:
  assumes w: "\<forall>c \<in> set xs. weight c \<noteq> None" and e: "weight_keys xs n = []" and n: "0 < n"
  shows "length (filter (\<lambda>x. card_number x = v) xs) \<noteq> n"
proof
  assume a: "length (filter (\<lambda>x. card_number x = v) xs) = n"
  then have "filter (\<lambda>x. card_number x = v) xs \<noteq> []" using n by auto
  then obtain c where "c \<in> set xs" "card_number c = v" by (auto simp: filter_empty_conv)
  then show False using e a unfolding weight_keys_empty[OF w] by auto
qed

lemma count_small:
  assumes "n \<le> (4::nat)" and "n \<noteq> 2" and "n \<noteq> 3" and "n \<noteq> 4"
  shows "n \<le> 1"
  using assms by arith

lemma others_single_high:
  assumes w: "\<forall>c \<in> set xs. weight c \<noteq> None"
    and c4: "\<forall>v. length (filter (\<lambda>x. card_number x = v) xs) \<le> 4"
    and f: "four (W_of xs) = None" "three (W_of xs) = None" "double_two (W_of xs) = None"
      "two (W_of xs) = None"
  shows "length (filter (\<lambda>x. card_number x = v) xs) \<le> 1"
proof -
  have l4: "weight_keys xs 4 = []" using f(1) by (simp add: W_of_fields[OF w] split: if_splits)
  have l3: "weight_keys xs 3 = []" using f(2) l4 by (simp add: W_of_fields[OF w] split: if_splits)
  have "\<not> 1 < length (weight_keys xs 2)" "length (weight_keys xs 2) \<noteq> 1"
    using f(3,4) l4 l3 by (simp_all add: W_of_fields[OF w] split: if_splits)
  then have l2: "weight_keys xs 2 = []" by (cases "weight_keys xs 2") auto
  show ?thesis
    using count_small[OF c4[rule_format, of v] count_not_key[OF w l2] count_not_key[OF w l3]
        count_not_key[OF w l4]] by simp
qed

lemma others_single_pair:
  assumes w: "\<forall>c \<in> set xs. weight c \<noteq> None"
    and c4: "\<forall>v. length (filter (\<lambda>x. card_number x = v) xs) \<le> 4"
    and f: "four (W_of xs) = None" "three (W_of xs) = None" "double_two (W_of xs) = None"
      "two (W_of xs) \<noteq> None"
    and v: "v \<noteq> card_number (the (two (W_of xs)))"
  shows "length (filter (\<lambda>x. card_number x = v) xs) \<le> 1"
    and "the (two (W_of xs)) \<in> set (weight_keys xs 2)"
proof -
  have l4: "weight_keys xs 4 = []" using f(1) by (simp add: W_of_fields[OF w] split: if_splits)
  have l3: "weight_keys xs 3 = []" using f(2) l4 by (simp add: W_of_fields[OF w] split: if_splits)
  have l2: "length (weight_keys xs 2) = 1" and t: "the (two (W_of xs)) = last (weight_keys xs 2)"
    using f(4) l4 l3 by (simp_all add: W_of_fields[OF w] split: if_splits)
  then obtain k where k: "weight_keys xs 2 = [k]" by (cases "weight_keys xs 2") auto
  show "the (two (W_of xs)) \<in> set (weight_keys xs 2)" unfolding t k by simp
  have "length (filter (\<lambda>x. card_number x = v) xs) \<noteq> 2"
  proof
    assume a: "length (filter (\<lambda>x. card_number x = v) xs) = 2"
    then have "filter (\<lambda>x. card_number x = v) xs \<noteq> []" by auto
    then have "v \<in> card_number ` set xs" by (auto simp: filter_empty_conv)
    then have "v \<in> card_number ` set (weight_keys xs 2)"
      unfolding weight_keys_numbers[OF w] using a by simp
    then show False using v unfolding t k by simp
  qed
  then show "length (filter (\<lambda>x. card_number x = v) xs) \<le> 1"
    using count_small[OF c4[rule_format, of v] _ count_not_key[OF w l3] count_not_key[OF w l4]]
    by simp
qed

lemma others_single_three:
  assumes w: "\<forall>c \<in> set xs. weight c \<noteq> None" and s: "sorted (map card_number xs)"
    and c4: "\<forall>v. length (filter (\<lambda>x. card_number x = v) xs) \<le> 4"
    and n7: "length xs \<le> 7"
    and f: "four (W_of xs) = None" "three (W_of xs) \<noteq> None" "two (W_of xs) = None"
    and v: "v \<noteq> card_number (the (three (W_of xs)))"
  shows "length (filter (\<lambda>x. card_number x = v) xs) \<le> 1"
proof -
  let ?cnt = "\<lambda>v. length (filter (\<lambda>x. card_number x = v) xs)"
  let ?t = "card_number (the (three (W_of xs)))"
  have l4: "weight_keys xs 4 = []" using f(1) by (simp add: W_of_fields[OF w] split: if_splits)
  have k3: "the (three (W_of xs)) \<in> set (weight_keys xs 3)" by (rule three_key(3)[OF w f(2)])
  have l3: "weight_keys xs 3 \<noteq> []" by (rule three_key(2)[OF w f(2)])
  have n2: "length (weight_keys xs 3) \<noteq> 2" and l2: "weight_keys xs 2 = []"
    using f(3) l4 l3 by (simp_all add: W_of_fields[OF w] split: if_splits)
  have ct: "?cnt ?t = 3" by (rule weight_keys_props(4)[OF w k3])
  have "?cnt v \<noteq> 3"
  proof
    assume a: "?cnt v = 3"
    let ?M = "{u \<in> card_number ` set xs. ?cnt u = 3}"
    have fin: "finite ?M" by simp
    have "filter (\<lambda>x. card_number x = v) xs \<noteq> []" using a by auto
    then have "v \<in> card_number ` set xs" by (auto simp: filter_empty_conv)
    then have vM: "v \<in> ?M" using a by simp
    have tM: "?t \<in> ?M" using weight_keys_props(2)[OF w k3] ct by simp
    have "{v, ?t} \<subseteq> ?M" using vM tM by simp
    then have "card {v, ?t} \<le> card ?M" by (intro card_mono fin)
    then have "2 \<le> card ?M" using v by simp
    then have "3 \<le> card ?M" using n2 unfolding weight_keys_length[OF w s] by simp
    moreover have "card (?M - {v, ?t}) = card ?M - card {v, ?t}"
      by (rule card_Diff_subset) (use vM tM in simp_all)
    moreover have "card {v, ?t} = 2" using v by simp
    ultimately have "1 \<le> card (?M - {v, ?t})" by simp
    then have "?M - {v, ?t} \<noteq> {}" by (metis card.empty not_one_le_zero)
    then obtain u where u: "u \<in> ?M" "u \<noteq> v" "u \<noteq> ?t" by auto
    have "?cnt v + ?cnt ?t + ?cnt u \<le> length xs"
      by (rule length_filter_three_values) (use u v in auto)
    then show False using a ct u(1) n7 by simp
  qed
  then show ?thesis
    using count_small[OF c4[rule_format, of v] count_not_key[OF w l2] _ count_not_key[OF w l4]]
    by simp
qed

text \<open>The order of the cards, shape by shape.\<close>

lemma order_group:
  assumes F: "\<forall>c \<in> set F. card_number c = f" and lF: "length F = m"
    and m: "m = 2 \<or> m = 3 \<or> m = 4"
    and K: "sorted_wrt (\<lambda>a b. card_number b < card_number a) K"
    and fK: "\<forall>c \<in> set K. card_number c \<noteq> f"
  shows "combination_order (if m = 4 then FOUR_OF_A_KIND
                            else if m = 3 then THREE_OF_A_KIND else ONE_PAIR) (F @ K)"
proof -
  have ne: "F \<noteq> []" using lF m by auto
  then have "F ! 0 \<in> set F" by simp
  then have v: "card_number ((F @ K) ! 0) = f" using F ne by (simp add: nth_append)
  have t: "take m (F @ K) = F" "drop m (F @ K) = K" using lF by simp_all
  have a: "all_number f F" using F by (simp add: all_number_def list_all_iff)
  have o: "other_numbers [f] K" using fK by (simp add: other_numbers_def list_all_iff)
  have d: "strictly_descending K" using K by (simp add: strictly_descending_def)
  from m show ?thesis
  proof (elim disjE)
    assume "m = 2"
    then show ?thesis using t a o d v by (simp add: combination_order_def combo_types)
  next
    assume "m = 3"
    then show ?thesis using t a o d v by (simp add: combination_order_def combo_types)
  next
    assume "m = 4"
    then show ?thesis using t a o d v by (simp add: combination_order_def combo_types)
  qed
qed

lemma order_full_house:
  assumes T: "\<forall>c \<in> set T. card_number c = t" and lT: "length T = 3"
    and D: "\<forall>c \<in> set D. card_number c = d" and lD: "length D = 2" and td: "t \<noteq> d"
  shows "combination_order FULL_HOUSE (T @ D)"
proof -
  have "T ! 0 \<in> set T" "D ! 0 \<in> set D" using lT lD by simp_all
  then have v: "card_number ((T @ D) ! 0) = t" "card_number ((T @ D) ! 3) = d"
    using T D lT lD by (simp_all add: nth_append)
  have "all_number t T" "all_number d D" using T D by (simp_all add: all_number_def list_all_iff)
  then show ?thesis using v lT td by (simp add: combination_order_def combo_types)
qed

lemma order_two_pairs:
  assumes B: "\<forall>c \<in> set B. card_number c = b" and lB: "length B = 2"
    and A: "\<forall>c \<in> set A. card_number c = a" and lA: "length A = 2" and ab: "a < b"
    and k: "card_number k \<noteq> a" "card_number k \<noteq> b"
  shows "combination_order TWO_PAIRS (B @ A @ [k])"
proof -
  have "B ! 0 \<in> set B" "A ! 1 \<in> set A" using lA lB by simp_all
  then have v: "card_number ((B @ A @ [k]) ! 0) = b" "card_number ((B @ A @ [k]) ! 3) = a"
    using A B lA lB by (simp_all add: nth_append)
  have "all_number b B" "all_number a A" using A B by (simp_all add: all_number_def list_all_iff)
  then show ?thesis
    using v lA lB ab k by (simp add: combination_order_def combo_types other_numbers_def)
qed

lemma order_run:
  assumes m: "map card_number R = rev [lo..<lo + 5]"
  shows "run_down R"
proof -
  have ne: "R \<noteq> []" using m by auto
  have "card_number (last R) = last (map card_number R)" using ne by (simp add: last_map)
  also have "\<dots> = lo" unfolding m by (simp add: last_rev upt_rec)
  finally show ?thesis using m by (simp add: run_down_def)
qed

lemma order_one_suit:
  assumes "\<forall>c \<in> set R. suit c = Some s" and "R \<noteq> []"
  shows "one_suit R"
  using assms by (simp add: one_suit_def list_all_iff)

text \<open>
  The combinations of a valid group, branch by branch: the cards of the combination are
  five, they stand in the order of the kind, and they are classified as the same
  combination again.
\<close>

lemma valid_sorted_facts:
  assumes v: "valid_group xs"
  shows "\<forall>c \<in> set xs. weight c \<noteq> None"
    and "\<forall>v. length (filter (\<lambda>x. card_number x = v) xs) \<le> 4"
  using valid_groupD(3)[OF v] valid_count_le_4[OF v] by (auto simp: concrete_def)

lemma short_sorted_wrt:
  assumes "length K \<le> 1"
  shows "sorted_wrt P K"
  using assms by (cases K) auto

lemma roundtrip_group:
  assumes v: "valid_group xs" and s: "sorted (map card_number xs)"
    and nf: "\<not> five_or_more (S_of xs)"
    and k: "k \<in> set (weight_keys xs m)" and m: "m = 2 \<or> m = 3 \<or> m = 4"
    and o: "m < 4 \<Longrightarrow>
            \<forall>v. v \<noteq> card_number k \<longrightarrow> length (filter (\<lambda>x. card_number x = v) xs) \<le> 1"
  shows "length (get_other_cards (filter (\<lambda>x. card_eq x k) xs) xs) = 5"
    and "combination_order (if m = 4 then FOUR_OF_A_KIND
                            else if m = 3 then THREE_OF_A_KIND else ONE_PAIR)
           (get_other_cards (filter (\<lambda>x. card_eq x k) xs) xs)"
    and "\<exists>r. classify (get_other_cards (filter (\<lambda>x. card_eq x k) xs) xs) = Inr r \<and>
           cards r = get_other_cards (filter (\<lambda>x. card_eq x k) xs) xs \<and>
           combo_type r = Some (if m = 4 then FOUR_OF_A_KIND
                                else if m = 3 then THREE_OF_A_KIND else ONE_PAIR)"
proof -
  note D = valid_groupD[OF v]
  note w = valid_sorted_facts(1)[OF v]
  let ?f = "card_number k"
  let ?F = "filter (\<lambda>x. card_number x = ?f) xs"
  let ?ys = "filter (\<lambda>x. card_number x \<noteq> ?f) xs"
  let ?K = "take (5 - m) (rev ?ys)"
  have m1: "1 \<le> m" "m \<le> 5" using m by auto
  have e: "get_other_cards (filter (\<lambda>x. card_eq x k) xs) xs = ?F @ ?K"
    by (rule group_with_kickers(1)[OF w k m1 D(1)])
  have lF: "length ?F = m" by (rule weight_keys_props(4)[OF w k])
  have "length ?F + length ?ys = length xs" by (rule sum_length_filter_compl)
  then have "5 - m \<le> length ?ys" using lF D(1) by simp
  then have lK: "length ?K = 5 - m" by simp
  have F: "\<forall>c \<in> set ?F. card_number c = ?f" by simp
  have fK: "\<forall>c \<in> set ?K. card_number c \<noteq> ?f" by (auto dest: in_set_takeD)
  have K: "sorted_wrt (\<lambda>a b. card_number b < card_number a) ?K"
  proof (cases "m = 4")
    case True
    then show ?thesis using lK by (intro short_sorted_wrt) simp
  next
    case False
    then have "m < 4" using m by auto
    from top_kickers[OF s, where P = "\<lambda>v. v \<noteq> ?f", OF o[OF this]] show ?thesis .
  qed
  have sub: "set (?F @ ?K) \<subseteq> set xs" by (auto dest: in_set_takeD)
  have c: "\<forall>c \<in> set (?F @ ?K). concrete c" using D(3) sub by blast
  have "distinct ?K" using valid_distinct[OF v] by (intro distinct_take) simp
  moreover have "set ?F \<inter> set ?K = {}"
  proof (rule ccontr)
    assume "set ?F \<inter> set ?K \<noteq> {}"
    then obtain x where x: "x \<in> set ?F" "x \<in> set ?K" by blast
    have "card_number x = ?f" using x(1) by simp
    moreover have "card_number x \<noteq> ?f" using fK x(2) by blast
    ultimately show False by blast
  qed
  moreover have "distinct ?F" using valid_distinct[OF v] by simp
  ultimately have d: "distinct (?F @ ?K)" by (simp only: distinct_append simp_thms)
  have nf': "\<forall>s. length (filter (\<lambda>c. suit c = Some s) (?F @ ?K)) < 5"
    by (rule no_flush_part[OF D(6) nf d sub])
  show "length (get_other_cards (filter (\<lambda>x. card_eq x k) xs) xs) = 5"
    unfolding e using lF lK m by auto
  show "combination_order (if m = 4 then FOUR_OF_A_KIND
                            else if m = 3 then THREE_OF_A_KIND else ONE_PAIR)
           (get_other_cards (filter (\<lambda>x. card_eq x k) xs) xs)"
    unfolding e by (rule order_group[OF F lF m K fK])
  show "\<exists>r. classify (get_other_cards (filter (\<lambda>x. card_eq x k) xs) xs) = Inr r \<and>
           cards r = get_other_cards (filter (\<lambda>x. card_eq x k) xs) xs \<and>
           combo_type r = Some (if m = 4 then FOUR_OF_A_KIND
                                else if m = 3 then THREE_OF_A_KIND else ONE_PAIR)"
    unfolding e by (rule reclassify_group[OF F lF m lK K fK c nf'])
qed

lemma roundtrip_full_house:
  assumes v: "valid_group xs" and s: "sorted (map card_number xs)"
    and nf: "\<not> five_or_more (S_of xs)"
    and t3: "three (W_of xs) \<noteq> None" and t2: "two (W_of xs) \<noteq> None"
  shows "length (filter (\<lambda>x. card_eq x (the (three (W_of xs)))) xs @
                 take 2 (filter (\<lambda>x. card_eq x (the (two (W_of xs)))) xs)) = 5"
    and "combination_order FULL_HOUSE
           (filter (\<lambda>x. card_eq x (the (three (W_of xs)))) xs @
            take 2 (filter (\<lambda>x. card_eq x (the (two (W_of xs)))) xs))"
    and "\<exists>r. classify (filter (\<lambda>x. card_eq x (the (three (W_of xs)))) xs @
                       take 2 (filter (\<lambda>x. card_eq x (the (two (W_of xs)))) xs)) = Inr r \<and>
           cards r = filter (\<lambda>x. card_eq x (the (three (W_of xs)))) xs @
                     take 2 (filter (\<lambda>x. card_eq x (the (two (W_of xs)))) xs) \<and>
           combo_type r = Some FULL_HOUSE"
proof -
  note D = valid_groupD[OF v]
  note w = valid_sorted_facts(1)[OF v]
  let ?k3 = "the (three (W_of xs))" and ?k2 = "the (two (W_of xs))"
  let ?T = "filter (\<lambda>x. card_number x = card_number ?k3) xs"
  let ?D = "take 2 (filter (\<lambda>x. card_number x = card_number ?k2) xs)"
  have k3: "?k3 \<in> set (weight_keys xs 3)" using three_key(3)[OF w t3] .
  have F3: "filter (\<lambda>x. card_eq x ?k3) xs = ?T" and lT: "length ?T = 3"
    using weight_keys_props[OF w k3] by simp_all
  obtain m where k2: "?k2 \<in> set (weight_keys xs m)" and m: "m = 3 \<or> m = 2"
    using two_key[OF w t2] by auto
  have F2: "filter (\<lambda>x. card_eq x ?k2) xs = filter (\<lambda>x. card_number x = card_number ?k2) xs"
    and l2: "length (filter (\<lambda>x. card_number x = card_number ?k2) xs) = m"
    using weight_keys_props[OF w k2] by simp_all
  have lD: "length ?D = 2" using l2 m by auto
  have ne: "card_number ?k3 \<noteq> card_number ?k2"
  proof (cases "length (weight_keys xs 3) = 2")
    case True
    then obtain ka kb where ks: "weight_keys xs 3 = [ka, kb]"
      by (cases "weight_keys xs 3"; cases "tl (weight_keys xs 3)") auto
    have l4: "weight_keys xs 4 = []" by (rule three_key(4)[OF w t3])
    have "?k3 = kb" "?k2 = ka"
      by (simp_all add: W_of_fields[OF w] l4 ks)
    moreover have "card_number ka < card_number kb"
      using weight_keys_sorted[OF w s, of 3] unfolding ks by simp
    ultimately show ?thesis by simp
  next
    case False
    have "weight_keys xs 3 \<noteq> []" by (rule three_key(2)[OF w t3])
    moreover have l4: "weight_keys xs 4 = []" by (rule three_key(4)[OF w t3])
    ultimately have "?k2 \<in> set (weight_keys xs 2)"
      using t2 False by (simp add: W_of_fields[OF w] split: if_splits)
    then have "length (filter (\<lambda>x. card_number x = card_number ?k2) xs) = 2"
      by (rule weight_keys_props(4)[OF w])
    then show ?thesis using lT by auto
  qed
  have T: "\<forall>c \<in> set ?T. card_number c = card_number ?k3" by simp
  have Dn: "\<forall>c \<in> set ?D. card_number c = card_number ?k2" by (auto dest: in_set_takeD)
  have sub: "set (?T @ ?D) \<subseteq> set xs" by (auto dest: in_set_takeD)
  have c: "\<forall>c \<in> set (?T @ ?D). concrete c" using D(3) sub by blast
  have "distinct ?D" using valid_distinct[OF v] by (intro distinct_take) simp
  moreover have "set ?T \<inter> set ?D = {}"
  proof (rule ccontr)
    assume "set ?T \<inter> set ?D \<noteq> {}"
    then obtain x where x: "x \<in> set ?T" "x \<in> set ?D" by blast
    have "card_number x = card_number ?k3" using x(1) by simp
    moreover have "card_number x = card_number ?k2" using Dn x(2) by blast
    ultimately show False using ne by simp
  qed
  moreover have "distinct ?T" using valid_distinct[OF v] by simp
  ultimately have d: "distinct (?T @ ?D)" by (simp only: distinct_append simp_thms)
  have nf': "\<forall>s. length (filter (\<lambda>c. suit c = Some s) (?T @ ?D)) < 5"
    by (rule no_flush_part[OF D(6) nf d sub])
  show "length (filter (\<lambda>x. card_eq x ?k3) xs @ take 2 (filter (\<lambda>x. card_eq x ?k2) xs)) = 5"
    unfolding F3 F2 using lT lD by simp
  show "combination_order FULL_HOUSE
          (filter (\<lambda>x. card_eq x ?k3) xs @ take 2 (filter (\<lambda>x. card_eq x ?k2) xs))"
    unfolding F3 F2 by (rule order_full_house[OF T lT Dn lD ne])
  show "\<exists>r. classify (filter (\<lambda>x. card_eq x ?k3) xs @
                       take 2 (filter (\<lambda>x. card_eq x ?k2) xs)) = Inr r \<and>
           cards r = filter (\<lambda>x. card_eq x ?k3) xs @ take 2 (filter (\<lambda>x. card_eq x ?k2) xs) \<and>
           combo_type r = Some FULL_HOUSE"
    unfolding F3 F2 by (rule reclassify_full_house[OF T lT Dn lD ne c nf'])
qed

lemma roundtrip_two_pairs:
  assumes v: "valid_group xs" and s: "sorted (map card_number xs)"
    and nf: "\<not> five_or_more (S_of xs)" and d2: "double_two (W_of xs) \<noteq> None"
  shows "length (get_other_cards
             (drop 2 (filter (\<lambda>x. card_in x (the (double_two (W_of xs)))) xs) @
              take 2 (filter (\<lambda>x. card_in x (the (double_two (W_of xs)))) xs)) xs) = 5"
    and "combination_order TWO_PAIRS (get_other_cards
             (drop 2 (filter (\<lambda>x. card_in x (the (double_two (W_of xs)))) xs) @
              take 2 (filter (\<lambda>x. card_in x (the (double_two (W_of xs)))) xs)) xs)"
    and "\<exists>r. classify (get_other_cards
             (drop 2 (filter (\<lambda>x. card_in x (the (double_two (W_of xs)))) xs) @
              take 2 (filter (\<lambda>x. card_in x (the (double_two (W_of xs)))) xs)) xs) = Inr r \<and>
           cards r = get_other_cards
             (drop 2 (filter (\<lambda>x. card_in x (the (double_two (W_of xs)))) xs) @
              take 2 (filter (\<lambda>x. card_in x (the (double_two (W_of xs)))) xs)) xs \<and>
           combo_type r = Some TWO_PAIRS"
proof -
  note D = valid_groupD[OF v]
  note w = valid_sorted_facts(1)[OF v]
  obtain a b where ab: "a < b"
    and la: "length (filter (\<lambda>x. card_number x = a) xs) = 2"
    and lb: "length (filter (\<lambda>x. card_number x = b) xs) = 2"
    and e: "get_other_cards
             (drop 2 (filter (\<lambda>x. card_in x (the (double_two (W_of xs)))) xs) @
              take 2 (filter (\<lambda>x. card_in x (the (double_two (W_of xs)))) xs)) xs =
           filter (\<lambda>x. card_number x = b) xs @ filter (\<lambda>x. card_number x = a) xs @
           take 1 (rev (filter (\<lambda>x. card_number x \<noteq> a \<and> card_number x \<noteq> b) xs))"
    and ne: "filter (\<lambda>x. card_number x \<noteq> a \<and> card_number x \<noteq> b) xs \<noteq> []"
    using two_pairs_cards[OF w s D(1) d2] by (elim exE conjE)
  let ?B = "filter (\<lambda>x. card_number x = b) xs"
  let ?A = "filter (\<lambda>x. card_number x = a) xs"
  let ?ys = "filter (\<lambda>x. card_number x \<noteq> a \<and> card_number x \<noteq> b) xs"
  define k where "k = last ?ys"
  have k: "take 1 (rev ?ys) = [k]" unfolding k_def using ne by (cases ?ys rule: rev_cases) simp_all
  have kin: "k \<in> set ?ys" unfolding k_def using ne by (rule last_in_set)
  have kn: "card_number k \<noteq> a" "card_number k \<noteq> b" and kx: "k \<in> set xs" using kin by auto
  have B: "\<forall>c \<in> set ?B. card_number c = b" and A: "\<forall>c \<in> set ?A. card_number c = a" by simp_all
  have sub: "set (?B @ ?A @ [k]) \<subseteq> set xs" using kx by auto
  have c: "\<forall>c \<in> set (?B @ ?A @ [k]). concrete c" using D(3) sub by blast
  have d: "distinct (?B @ ?A @ [k])" using valid_distinct[OF v] ab kn by auto
  have nf': "\<forall>s. length (filter (\<lambda>c. suit c = Some s) (?B @ ?A @ [k])) < 5"
    by (rule no_flush_part[OF D(6) nf d sub])
  let ?R = "get_other_cards
             (drop 2 (filter (\<lambda>x. card_in x (the (double_two (W_of xs)))) xs) @
              take 2 (filter (\<lambda>x. card_in x (the (double_two (W_of xs)))) xs)) xs"
  have R: "?R = ?B @ ?A @ [k]" unfolding e k ..
  show "length ?R = 5" unfolding R using la lb by simp
  show "combination_order TWO_PAIRS ?R"
    unfolding R by (rule order_two_pairs[OF B lb A la ab kn])
  show "\<exists>r. classify ?R = Inr r \<and> cards r = ?R \<and> combo_type r = Some TWO_PAIRS"
    unfolding R by (rule reclassify_two_pairs[OF B lb A la ab kn c nf'])
qed

lemma strict_sorted_group:
  assumes s: "sorted (map card_number ys)" and d: "distinct (map card_number ys)"
    and n: "5 \<le> length ys"
  shows "sorted_wrt (\<lambda>a b. card_number b < card_number a) (rev (py_suffix ys 5))"
    and "length (rev (py_suffix ys 5)) = 5" and "set (rev (py_suffix ys 5)) \<subseteq> set ys"
proof -
  have "sorted_wrt (<) (map card_number ys)" using s d strict_sorted_iff by blast
  then have "sorted_wrt (\<lambda>a b. card_number a < card_number b) ys" by (simp add: sorted_wrt_map)
  then have "sorted_wrt (\<lambda>a b. card_number a < card_number b) (py_suffix ys 5)"
    unfolding py_suffix_def by (rule sorted_wrt_drop)
  then show "sorted_wrt (\<lambda>a b. card_number b < card_number a) (rev (py_suffix ys 5))"
    by (simp add: sorted_wrt_rev)
  show "length (rev (py_suffix ys 5)) = 5" using n by (simp add: py_suffix_def)
  show "set (rev (py_suffix ys 5)) \<subseteq> set ys" by (auto simp: py_suffix_def dest: in_set_dropD)
qed

lemma roundtrip_high_card:
  assumes v: "valid_group xs" and s: "sorted (map card_number xs)"
    and nf: "\<not> five_or_more (S_of xs)" and nr: "\<not> five_in_a_row (Q_of xs)"
    and f: "four (W_of xs) = None" "three (W_of xs) = None" "double_two (W_of xs) = None"
      "two (W_of xs) = None"
  shows "length (rev (py_suffix xs 5)) = 5"
    and "combination_order HIGH_CARD (rev (py_suffix xs 5))"
    and "\<exists>r. classify (rev (py_suffix xs 5)) = Inr r \<and> cards r = rev (py_suffix xs 5) \<and>
           combo_type r = Some HIGH_CARD"
proof -
  note D = valid_groupD[OF v]
  note V = valid_sorted_facts[OF v]
  let ?R = "rev (py_suffix xs 5)"
  have "\<forall>v. length (filter (\<lambda>x. card_number x = v) xs) \<le> 1"
    using others_single_high[OF V f] by blast
  then have d: "distinct (map card_number xs)" by (rule single_counts_distinct)
  note G = strict_sorted_group[OF s d D(1)]
  have c: "\<forall>c \<in> set ?R. concrete c" using D(3) G(3) by blast
  have dR: "distinct ?R" using valid_distinct[OF v] by (simp add: py_suffix_def)
  have nf': "\<forall>s. length (filter (\<lambda>c. suit c = Some s) ?R) < 5"
    by (rule no_flush_part[OF D(6) nf dR G(3)])
  have "\<not> has_run (seq_numbers xs)"
    using nr Q_of_fields(3)[OF D(6) D(3)] by (simp add: top_run_None)
  then have nr': "\<not> has_run (seq_numbers ?R)" using has_run_mono[OF G(3)] by blast
  show "length ?R = 5" by (rule G(2))
  show "combination_order HIGH_CARD ?R"
    using G(1) by (simp add: combination_order_def combo_types strictly_descending_def)
  show "\<exists>r. classify ?R = Inr r \<and> cards r = ?R \<and> combo_type r = Some HIGH_CARD"
    by (rule reclassify_high_card[OF G(1) G(2) c nf' nr'])
qed

text \<open>A run in a group without five cards of a suit has not five cards of a suit.\<close>

lemma run_cards_no_flush:
  assumes v: "valid_group xs" and nf: "\<not> five_or_more (S_of xs)"
    and r: "run_from (seq_numbers xs) lo" and lo: "lo < 10"
  shows "length (filter (\<lambda>c. suit c = Some s) (run_cards (with_low_ace xs) lo)) < 5"
proof (rule ccontr)
  note D = valid_groupD[OF v]
  note w = valid_sorted_facts(1)[OF v]
  let ?R = "run_cards (with_low_ace xs) lo"
  let ?fl = "filter (\<lambda>c. suit c = Some s) xs"
  define f :: "nat \<Rightarrow> nat" where "f = (\<lambda>v. if v = 0 then 13 else v)"
  have r': "run_from (card_number ` set (with_low_ace xs)) lo"
    using r by (simp add: with_low_ace_numbers[OF w])
  have m: "map card_number ?R = rev [lo..<lo + 5]" by (rule run_cards_numbers[OF r'])
  have l: "length ?R = 5" using run_descending(2)[OF m] .
  have sub: "set ?R \<subseteq> set (with_low_ace xs)" by (rule run_cards_subset[OF r'])
  have z: "0 \<notin> card_number ` set xs" by (rule no_number_zero[OF D(3) D(4)])
  assume "\<not> length (filter (\<lambda>c. suit c = Some s) ?R) < 5"
  then have "\<not> length (filter (\<lambda>c. suit c = Some s) ?R) < length ?R" unfolding l .
  have all: "\<forall>c \<in> set ?R. suit c = Some s"
  proof (rule ccontr)
    assume "\<not> (\<forall>c \<in> set ?R. suit c = Some s)"
    then obtain c where "c \<in> set ?R" "\<not> suit c = Some s" by blast
    then have "length (filter (\<lambda>c. suit c = Some s) ?R) < length ?R"
      by (rule length_filter_less)
    then show False using \<open>\<not> length (filter (\<lambda>c. suit c = Some s) ?R) < length ?R\<close> by blast
  qed
  have img: "f ` {lo..<lo + 5} \<subseteq> card_number ` set ?fl"
  proof
    fix u assume "u \<in> f ` {lo..<lo + 5}"
    then obtain n where n: "n \<in> {lo..<lo + 5}" and u: "u = f n" by blast
    have "n \<in> set (map card_number ?R)" unfolding m using n by simp
    then obtain c where c: "c \<in> set ?R" and cn: "card_number c = n" by auto
    have cs: "suit c = Some s" using all c by blast
    have cw: "c \<in> set (with_low_ace xs)" using sub c by blast
    show "u \<in> card_number ` set ?fl"
    proof (cases "c \<in> set xs")
      case True
      then have "card_number c \<in> card_number ` set xs" by (rule imageI)
      then have "n \<noteq> 0" using z unfolding cn by metis
      then have "u = card_number c" unfolding u f_def using cn by simp
      moreover have "c \<in> set ?fl" using True cs by simp
      ultimately show ?thesis by blast
    next
      case False
      have a13: "13 \<in> card_number ` set xs"
      proof (rule ccontr)
        assume "13 \<notin> card_number ` set xs"
        then have "with_low_ace xs = xs" by (simp add: with_low_ace_cases[OF w])
        then show False using cw False by simp
      qed
      have ce: "c = low_ace xs"
        using cw False unfolding with_low_ace_low_ace[OF w a13] by simp
      let ?a = "last (filter (\<lambda>c. card_number c = 13) xs)"
      have ne: "filter (\<lambda>c. card_number c = 13) xs \<noteq> []"
        using a13 by (auto simp: filter_empty_conv)
      have "?a \<in> set (filter (\<lambda>c. card_number c = 13) xs)" using ne by (rule last_in_set)
      then have a: "?a \<in> set xs" "card_number ?a = 13" by simp_all
      have "suit ?a = Some s" using cs unfolding ce low_ace_def by simp
      then have "?a \<in> set ?fl" using a(1) by simp
      moreover have "n = 0" using cn unfolding ce low_ace_def by (simp add: card_number_def)
      then have "u = card_number ?a" unfolding u f_def using a(2) by simp
      ultimately show ?thesis by blast
    qed
  qed
  have inj: "inj_on f {lo..<lo + 5}"
  proof (rule inj_onI)
    fix x y assume x: "x \<in> {lo..<lo + 5}" and y: "y \<in> {lo..<lo + 5}" and e: "f x = f y"
    have b: "lo \<le> x" "x < lo + 5" "lo \<le> y" "y < lo + 5" using x y by simp_all
    show "x = y"
    proof (cases "x = 0")
      case True
      then have "lo = 0" using b by simp
      then have "y < 13" using b by simp
      then show ?thesis using e True unfolding f_def by (simp split: if_splits)
    next
      case False
      show ?thesis
      proof (cases "y = 0")
        case True
        then have "lo = 0" using b by simp
        then have "x < 13" using b by simp
        then show ?thesis using e True unfolding f_def by (simp split: if_splits)
      next
        case y0: False
        then show ?thesis using e False unfolding f_def by simp
      qed
    qed
  qed
  have "card (f ` {lo..<lo + 5}) = 5" using card_image[OF inj] by simp
  then have "5 \<le> card (card_number ` set ?fl)"
    using card_mono[OF _ img] by simp
  then have "5 \<le> length ?fl" using card_numbers_le_length[of ?fl] by simp
  then show False using no_flush_suits[OF D(6) nf, of "Some s"] by simp
qed

lemma roundtrip_straight:
  assumes v: "valid_group xs" and nf: "\<not> five_or_more (S_of xs)"
    and r: "five_in_a_row (Q_of xs)"
  shows "length (the (order_cards (Q_of xs))) = 5"
    and "combination_order STRAIGHT (the (order_cards (Q_of xs)))"
    and "\<exists>r. classify (the (order_cards (Q_of xs))) = Inr r \<and>
           cards r = the (order_cards (Q_of xs)) \<and> combo_type r = Some STRAIGHT"
proof -
  note D = valid_groupD[OF v]
  note w = valid_sorted_facts(1)[OF v]
  note Q = Q_of_fields[OF D(6) D(3)]
  obtain lo where t: "top_run (seq_numbers xs) = Some lo" using r unfolding Q(3) by blast
  have lo: "lo < 10" and rf: "run_from (seq_numbers xs) lo" using t unfolding top_run_Some by simp_all
  let ?R = "run_cards (with_low_ace xs) lo"
  have o: "the (order_cards (Q_of xs)) = ?R" unfolding Q(2) t by simp
  have r': "run_from (card_number ` set (with_low_ace xs)) lo"
    using rf by (simp add: with_low_ace_numbers[OF w])
  have m: "map card_number ?R = rev [lo..<lo + 5]" by (rule run_cards_numbers[OF r'])
  have sub: "set ?R \<subseteq> set (with_low_ace xs)" by (rule run_cards_subset[OF r'])
  have c: "\<forall>c \<in> set ?R. concrete c" using with_low_ace_concrete[OF D(3)] sub by blast
  have nf': "\<forall>s. length (filter (\<lambda>c. suit c = Some s) ?R) < 5"
    using run_cards_no_flush[OF v nf rf lo] by blast
  show "length (the (order_cards (Q_of xs))) = 5" unfolding o by (rule run_descending(2)[OF m])
  show "combination_order STRAIGHT (the (order_cards (Q_of xs)))"
    unfolding o using order_run[OF m] by (simp add: combination_order_def combo_types)
  show "\<exists>r. classify (the (order_cards (Q_of xs))) = Inr r \<and>
           cards r = the (order_cards (Q_of xs)) \<and> combo_type r = Some STRAIGHT"
    unfolding o by (rule reclassify_straight[OF m lo c nf'])
qed

text \<open>The cards of the flush suit of a valid group.\<close>

lemma flush_cards_facts:
  assumes v: "valid_group xs" and f5: "five_or_more (S_of xs)"
  shows "\<exists>su. filter (\<lambda>x. card_eq x (the (flush_card (S_of xs)))) xs =
                filter (\<lambda>x. suit x = Some su) xs \<and>
              5 \<le> length (filter (\<lambda>x. suit x = Some su) xs)"
proof -
  note D = valid_groupD[OF v]
  obtain d where d: "d \<in> set xs"
    and e: "filter (\<lambda>x. card_eq x (the (flush_card (S_of xs)))) xs =
            filter (\<lambda>x. suit x = suit d) xs"
    and n: "5 \<le> length (filter (\<lambda>x. suit x = suit d) xs)"
    using flush_suit_cards[OF D(6) f5] by blast
  have "suit d \<noteq> None" using D(3) d by (auto simp: concrete_def)
  then obtain su where "suit d = Some su" by blast
  then show ?thesis using e n by auto
qed

lemma suit_cards_facts:
  assumes v: "valid_group xs" and s: "sorted (map card_number xs)"
    and n: "5 \<le> length (filter (\<lambda>x. suit x = Some su) xs)"
  shows "filter (\<lambda>x. suit x = Some su) xs \<noteq> []"
    and "\<forall>c \<in> set (filter (\<lambda>x. suit x = Some su) xs). concrete c"
    and "\<forall>c \<in> set (filter (\<lambda>x. suit x = Some su) xs). weight c \<noteq> None"
    and "sorted (map card_number (filter (\<lambda>x. suit x = Some su) xs))"
    and "distinct (map card_number (filter (\<lambda>x. suit x = Some su) xs))"
proof -
  note D = valid_groupD[OF v]
  show "filter (\<lambda>x. suit x = Some su) xs \<noteq> []" using n by auto
  show c: "\<forall>c \<in> set (filter (\<lambda>x. suit x = Some su) xs). concrete c" using D(3) by simp
  then show "\<forall>c \<in> set (filter (\<lambda>x. suit x = Some su) xs). weight c \<noteq> None"
    by (simp add: concrete_def)
  show "sorted (map card_number (filter (\<lambda>x. suit x = Some su) xs))"
    using s by (rule sorted_filter)
  show "distinct (map card_number (filter (\<lambda>x. suit x = Some su) xs))"
    by (rule same_suit_distinct_numbers[OF v])
qed

lemma roundtrip_flush:
  assumes v: "valid_group xs" and s: "sorted (map card_number xs)"
    and fl: "fl = filter (\<lambda>x. suit x = Some su) xs" and n: "5 \<le> length fl"
    and nr: "\<not> five_in_a_row (Q_of fl)"
  shows "length (rev (py_suffix (seq_cards (Q_of fl)) 5)) = 5"
    and "combination_order FLUSH (rev (py_suffix (seq_cards (Q_of fl)) 5))"
    and "\<exists>r. classify (rev (py_suffix (seq_cards (Q_of fl)) 5)) = Inr r \<and>
           cards r = rev (py_suffix (seq_cards (Q_of fl)) 5) \<and> combo_type r = Some FLUSH"
proof -
  note S = suit_cards_facts[OF v s n[unfolded fl], folded fl]
  note Q = Q_of_fields[OF S(1) S(2)]
  let ?R = "rev (py_suffix fl 5)"
  have e: "rev (py_suffix (seq_cards (Q_of fl)) 5) = ?R"
    unfolding Q(4) py_suffix_low_ace[OF S(3) n] ..
  note G = strict_sorted_group[OF S(4) S(5) n]
  have c: "\<forall>c \<in> set ?R. concrete c" using S(2) G(3) by blast
  have su: "\<forall>c \<in> set ?R. suit c = Some su" using G(3) unfolding fl by auto
  have "\<not> has_run (seq_numbers fl)" using nr unfolding Q(3) by (simp add: top_run_None)
  then have nr': "\<not> has_run (seq_numbers ?R)" using has_run_mono[OF G(3)] by blast
  have ne: "?R \<noteq> []" using G(2) by auto
  show "length (rev (py_suffix (seq_cards (Q_of fl)) 5)) = 5" unfolding e by (rule G(2))
  show "combination_order FLUSH (rev (py_suffix (seq_cards (Q_of fl)) 5))"
    unfolding e using G(1) order_one_suit[OF su ne]
    by (simp add: combination_order_def combo_types strictly_descending_def)
  show "\<exists>r. classify (rev (py_suffix (seq_cards (Q_of fl)) 5)) = Inr r \<and>
           cards r = rev (py_suffix (seq_cards (Q_of fl)) 5) \<and> combo_type r = Some FLUSH"
    unfolding e by (rule reclassify_flush[OF G(1) G(2) c su nr'])
qed

lemma with_low_ace_suit:
  assumes w: "\<forall>c \<in> set fl. weight c \<noteq> None" and su: "\<forall>c \<in> set fl. suit c = s"
  shows "\<forall>c \<in> set (with_low_ace fl). suit c = s"
proof (cases "13 \<in> card_number ` set fl")
  case True
  let ?a = "last (filter (\<lambda>c. card_number c = 13) fl)"
  have "filter (\<lambda>c. card_number c = 13) fl \<noteq> []" using True by (auto simp: filter_empty_conv)
  then have "?a \<in> set (filter (\<lambda>c. card_number c = 13) fl)" by (rule last_in_set)
  then have "?a \<in> set fl" by simp
  then have "suit (low_ace fl) = s" using su by (simp add: low_ace_def)
  then show ?thesis unfolding with_low_ace_low_ace[OF w True] using su by simp
next
  case False
  then show ?thesis using su by (simp add: with_low_ace_cases[OF w])
qed

lemma roundtrip_straight_flush:
  assumes v: "valid_group xs" and s: "sorted (map card_number xs)"
    and fl: "fl = filter (\<lambda>x. suit x = Some su) xs" and n: "5 \<le> length fl"
    and r: "five_in_a_row (Q_of fl)"
  shows "length (the (order_cards (Q_of fl))) = 5"
    and "combination_order STRAIGHT_FLUSH (the (order_cards (Q_of fl)))"
    and "\<exists>r. classify (the (order_cards (Q_of fl))) = Inr r \<and>
           cards r = the (order_cards (Q_of fl)) \<and> combo_type r = Some STRAIGHT_FLUSH"
proof -
  note S = suit_cards_facts[OF v s n[unfolded fl], folded fl]
  note Q = Q_of_fields[OF S(1) S(2)]
  obtain lo where t: "top_run (seq_numbers fl) = Some lo" using r unfolding Q(3) by blast
  have lo: "lo < 10" and rf: "run_from (seq_numbers fl) lo" using t unfolding top_run_Some by simp_all
  let ?R = "run_cards (with_low_ace fl) lo"
  have o: "the (order_cards (Q_of fl)) = ?R" unfolding Q(2) t by simp
  have r': "run_from (card_number ` set (with_low_ace fl)) lo"
    using rf by (simp add: with_low_ace_numbers[OF S(3)])
  have m: "map card_number ?R = rev [lo..<lo + 5]" by (rule run_cards_numbers[OF r'])
  have sub: "set ?R \<subseteq> set (with_low_ace fl)" by (rule run_cards_subset[OF r'])
  have c: "\<forall>c \<in> set ?R. concrete c" using with_low_ace_concrete[OF S(2)] sub by blast
  have "\<forall>c \<in> set fl. suit c = Some su" unfolding fl by simp
  then have su: "\<forall>c \<in> set ?R. suit c = Some su" using with_low_ace_suit[OF S(3)] sub by blast
  have l: "length ?R = 5" by (rule run_descending(2)[OF m])
  then have ne: "?R \<noteq> []" by auto
  show "length (the (order_cards (Q_of fl))) = 5" unfolding o by (rule l)
  show "combination_order STRAIGHT_FLUSH (the (order_cards (Q_of fl)))"
    unfolding o using order_run[OF m] order_one_suit[OF su ne]
    by (simp add: combination_order_def combo_types)
  show "\<exists>r. classify (the (order_cards (Q_of fl))) = Inr r \<and>
           cards r = the (order_cards (Q_of fl)) \<and> combo_type r = Some STRAIGHT_FLUSH"
    unfolding o by (rule reclassify_straight_flush[OF m lo c su])
qed

text \<open>
  The classification of a valid group: it does not fail, the combination has five cards
  in the order of its kind, these five cards are classified as the same combination
  again, the kind is a flush or a straight flush exactly when the suit table has five
  or more cards of a suit, and it is a straight at least when the sequence has five in a
  row.
\<close>

lemma classify_valid:
  assumes v: "valid_group g"
  shows "\<exists>r t. classify g = Inr r \<and> combo_type r = Some t \<and> length (cards r) = 5 \<and>
           combination_order t (cards r) \<and>
           (\<exists>r'. classify (cards r) = Inr r' \<and> cards r' = cards r \<and> combo_type r' = Some t) \<and>
           ((t = FLUSH \<or> t = STRAIGHT_FLUSH) = five_or_more (S_of (sort_cards g))) \<and>
           (five_in_a_row (Q_of (sort_cards g)) \<longrightarrow> STRAIGHT \<le> t)"
proof -
  let ?xs = "sort_cards g"
  let ?fl = "filter (\<lambda>x. card_eq x (the (flush_card (S_of ?xs)))) ?xs"
  let ?c = "new_combo ?xs (W_of ?xs) (S_of ?xs) (Q_of ?xs)"
  let ?cf = "new_combo ?xs (W_of ?xs) (S_of ?xs) (Q_of ?fl)"
  note D0 = valid_groupD[OF v]
  have vx: "valid_group ?xs" by (rule valid_group_sorted[OF v])
  note D = valid_groupD[OF vx]
  note V = valid_sorted_facts[OF vx]
  have s: "sorted (map card_number ?xs)" by (rule sort_cards_sorted)
  define b5 where "b5 = five_or_more (S_of ?xs)"
  define b4 where "b4 = (four (W_of ?xs) \<noteq> None)"
  define bfh where "bfh = (three (W_of ?xs) \<noteq> None \<and> two (W_of ?xs) \<noteq> None)"
  define bs where "bs = five_in_a_row (Q_of ?xs)"
  define b3 where "b3 = (three (W_of ?xs) \<noteq> None)"
  define b22 where "b22 = (double_two (W_of ?xs) \<noteq> None)"
  define b2 where "b2 = (two (W_of ?xs) \<noteq> None)"
  define bq where "bq = five_in_a_row (Q_of ?fl)"
  define P where "P = (\<lambda>(r::combo) t. combo_type r = Some t \<and> length (cards r) = 5 \<and>
           combination_order t (cards r) \<and>
           (\<exists>r'. classify (cards r) = Inr r' \<and> cards r' = cards r \<and> combo_type r' = Some t) \<and>
           ((t = FLUSH \<or> t = STRAIGHT_FLUSH) = b5) \<and> (bs \<longrightarrow> STRAIGHT \<le> t))"
  have U: "classify g =
     Inr (if \<not> b5
          then (if b4 then get_four_of_a_kind ?c
                else if bfh then get_full_house ?c
                else if bs then get_straight ?c
                else if b3 then get_three_of_a_kind ?c
                else if b22 then get_two_pairs ?c
                else if b2 then get_one_pair ?c
                else get_high_card ?c)
          else (if bq then get_straight_flush ?cf else get_flush ?cf))"
    unfolding b5_def b4_def bfh_def bs_def b3_def b22_def b2_def bq_def
    using classify_unfold[OF D0(6) D0(3), unfolded Let_def] .
  have p_sf: "P (get_straight_flush ?cf) STRAIGHT_FLUSH" if h: "b5" "bq"
  proof -
    obtain su where e: "?fl = filter (\<lambda>x. suit x = Some su) ?xs" and n: "5 \<le> length ?fl"
      using flush_cards_facts[OF vx h(1)[unfolded b5_def]] by auto
    note R = roundtrip_straight_flush[OF vx s e n h(2)[unfolded bq_def]]
    show ?thesis unfolding P_def using R h(1) by (simp add: combo_fields combo_types)
  qed
  have p_f: "P (get_flush ?cf) FLUSH" if h: "b5" "\<not> bq"
  proof -
    obtain su where e: "?fl = filter (\<lambda>x. suit x = Some su) ?xs" and n: "5 \<le> length ?fl"
      using flush_cards_facts[OF vx h(1)[unfolded b5_def]] by auto
    note R = roundtrip_flush[OF vx s e n h(2)[unfolded bq_def]]
    show ?thesis unfolding P_def using R h(1) by (simp add: combo_fields combo_types)
  qed
  have p_4: "P (get_four_of_a_kind ?c) FOUR_OF_A_KIND" if h: "\<not> b5" "b4"
  proof -
    have k: "the (four (W_of ?xs)) \<in> set (weight_keys ?xs 4)"
      by (rule four_key[OF V(1) h(2)[unfolded b4_def]])
    note R = roundtrip_group[OF vx s h(1)[unfolded b5_def] k, simplified]
    show ?thesis unfolding P_def using R h(1) by (simp add: combo_fields combo_types)
  qed
  have p_fh: "P (get_full_house ?c) FULL_HOUSE" if h: "\<not> b5" "bfh"
  proof -
    have t: "three (W_of ?xs) \<noteq> None" "two (W_of ?xs) \<noteq> None" using h(2) by (simp_all add: bfh_def)
    note R = roundtrip_full_house[OF vx s h(1)[unfolded b5_def] t]
    show ?thesis unfolding P_def using R h(1) by (simp add: combo_fields combo_types)
  qed
  have p_s: "P (get_straight ?c) STRAIGHT" if h: "\<not> b5" "bs"
  proof -
    note R = roundtrip_straight[OF vx h(1)[unfolded b5_def] h(2)[unfolded bs_def]]
    show ?thesis unfolding P_def using R h(1) by (simp add: combo_fields combo_types)
  qed
  have p_3: "P (get_three_of_a_kind ?c) THREE_OF_A_KIND" if h: "\<not> b5" "\<not> b4" "\<not> bfh" "\<not> bs" "b3"
  proof -
    have f: "four (W_of ?xs) = None" "three (W_of ?xs) \<noteq> None" "two (W_of ?xs) = None"
      using h by (auto simp: b4_def bfh_def b3_def)
    have k: "the (three (W_of ?xs)) \<in> set (weight_keys ?xs 3)" by (rule three_key(3)[OF V(1) f(2)])
    have o: "\<forall>v. v \<noteq> card_number (the (three (W_of ?xs))) \<longrightarrow>
               length (filter (\<lambda>x. card_number x = v) ?xs) \<le> 1"
      using others_single_three[OF V(1) s V(2) D(2) f] by blast
    note R = roundtrip_group[OF vx s h(1)[unfolded b5_def] k _ o, simplified]
    show ?thesis unfolding P_def using R h(1,4) by (simp add: combo_fields combo_types)
  qed
  have p_22: "P (get_two_pairs ?c) TWO_PAIRS" if h: "\<not> b5" "\<not> bs" "b22"
  proof -
    note R = roundtrip_two_pairs[OF vx s h(1)[unfolded b5_def] h(3)[unfolded b22_def]]
    show ?thesis unfolding P_def using R h(1,2) by (simp add: combo_fields combo_types)
  qed
  have p_2: "P (get_one_pair ?c) ONE_PAIR" if h: "\<not> b5" "\<not> b4" "\<not> bs" "\<not> b3" "\<not> b22" "b2"
  proof -
    have f: "four (W_of ?xs) = None" "three (W_of ?xs) = None" "double_two (W_of ?xs) = None"
      "two (W_of ?xs) \<noteq> None"
      using h by (auto simp: b4_def b3_def b22_def b2_def)
    have k: "the (two (W_of ?xs)) \<in> set (weight_keys ?xs 2)"
      by (rule others_single_pair(2)[OF V(1) V(2) f,
            of "Suc (card_number (the (two (W_of ?xs))))"]) simp
    have o: "\<forall>v. v \<noteq> card_number (the (two (W_of ?xs))) \<longrightarrow>
               length (filter (\<lambda>x. card_number x = v) ?xs) \<le> 1"
      using others_single_pair(1)[OF V(1) V(2) f] by blast
    note R = roundtrip_group[OF vx s h(1)[unfolded b5_def] k _ o, simplified]
    show ?thesis unfolding P_def using R h(1,3) by (simp add: combo_fields combo_types)
  qed
  have p_1: "P (get_high_card ?c) HIGH_CARD" if h: "\<not> b5" "\<not> b4" "\<not> bs" "\<not> b3" "\<not> b22" "\<not> b2"
  proof -
    have f: "four (W_of ?xs) = None" "three (W_of ?xs) = None" "double_two (W_of ?xs) = None"
      "two (W_of ?xs) = None"
      using h by (auto simp: b4_def b3_def b22_def b2_def)
    note R = roundtrip_high_card[OF vx s h(1)[unfolded b5_def] h(3)[unfolded bs_def] f]
    show ?thesis unfolding P_def using R h(1,3) by (simp add: combo_fields combo_types)
  qed
  have "\<exists>r t. classify g = Inr r \<and> P r t"
  proof (cases b5)
    case True
    then show ?thesis unfolding U using p_sf p_f by (cases bq) auto
  next
    case n5: False
    show ?thesis
    proof (cases b4)
      case True
      then show ?thesis unfolding U using n5 p_4 by auto
    next
      case n4: False
      show ?thesis
      proof (cases bfh)
        case True
        then show ?thesis unfolding U using n5 n4 p_fh by auto
      next
        case nfh: False
        show ?thesis
        proof (cases bs)
          case True
          then show ?thesis unfolding U using n5 n4 nfh p_s by auto
        next
          case ns: False
          show ?thesis
          proof (cases b3)
            case True
            then show ?thesis unfolding U using n5 n4 nfh ns p_3 by auto
          next
            case n3: False
            show ?thesis
            proof (cases b22)
              case True
              then show ?thesis unfolding U using n5 n4 nfh ns n3 p_22 by auto
            next
              case n22: False
              show ?thesis
              proof (cases b2)
                case True
                then show ?thesis unfolding U using n5 n4 nfh ns n3 n22 p_2 by auto
              next
                case False
                then show ?thesis unfolding U using n5 n4 nfh ns n3 n22 p_1 by auto
              qed
            qed
          qed
        qed
      qed
    qed
  qed
  then show ?thesis unfolding P_def b5_def bs_def by blast
qed



section \<open>The five cards of a combination\<close>



section \<open>A suit that occurs five times\<close>

text \<open>
  Claim C1. In a valid group in which a suit occurs at least five times, the selector
  runs the sequence analyzer on the cards of that suit alone. If they contain a run of
  five consecutive weights (the ace counting as the lowest weight as well), the kind is
  straight flush, with the cards of the highest run. Otherwise the kind is flush, with
  the five highest cards of the suit in descending order. No other kind results: neither
  a straight nor a kind of repeated weights.
\<close>

theorem flush_suit_selection:
  assumes v: "valid_group g" and su: "5 \<le> length (filter (\<lambda>c. suit c = Some su) g)"
  shows "\<exists>r. classify g = Inr r \<and>
           (if has_run (seq_numbers (filter (\<lambda>c. suit c = Some su) g))
            then combo_type r = Some STRAIGHT_FLUSH \<and>
                 cards r = run_cards (with_low_ace (sort_cards (filter (\<lambda>c. suit c = Some su) g)))
                             (the (top_run (seq_numbers (filter (\<lambda>c. suit c = Some su) g))))
            else combo_type r = Some FLUSH \<and>
                 cards r = take 5 (rev (sort_cards (filter (\<lambda>c. suit c = Some su) g))))"
proof -
  let ?xs = "sort_cards g"
  let ?fl = "sort_cards (filter (\<lambda>c. suit c = Some su) g)"
  note V = valid_groupD[OF v]
  have xne: "?xs \<noteq> []" using V(6) by (simp add: sort_cards_Nil)
  have x7: "length ?xs \<le> 7" using V(2) by (simp add: sort_cards_length)
  have su': "5 \<le> length (filter (\<lambda>c. suit c = Some su) ?xs)"
    using su by (simp add: length_filter_sort_cards)
  have f: "five_or_more (S_of ?xs)"
    and fl: "filter (\<lambda>x. card_eq x (the (flush_card (S_of ?xs)))) ?xs = ?fl"
    using flush_suit_unique[OF xne x7 su'] by (simp_all add: filter_sort_cards)
  have fn: "5 \<le> length ?fl" using su by (simp add: sort_cards_length)
  then have fne: "?fl \<noteq> []" by auto
  have fc: "\<forall>c \<in> set ?fl. concrete c" using V(3) by (simp add: sort_cards_set)
  have fw: "\<forall>c \<in> set ?fl. weight c \<noteq> None" using fc by (simp add: concrete_def)
  note Q = Q_of_fields[OF fne fc]
  have sn: "seq_numbers ?fl = seq_numbers (filter (\<lambda>c. suit c = Some su) g)"
    by (rule seq_numbers_cong) (simp add: sort_cards_set)
  have r: "classify g =
     Inr (if five_in_a_row (Q_of ?fl)
          then get_straight_flush (new_combo ?xs (W_of ?xs) (S_of ?xs) (Q_of ?fl))
          else get_flush (new_combo ?xs (W_of ?xs) (S_of ?xs) (Q_of ?fl)))"
    using classify_flush[OF V(6) V(3) f] unfolding fl .
  have "rev (py_suffix ?fl 5) = take 5 (rev ?fl)"
    using fn by (simp add: py_suffix_def rev_drop)
  then have tk: "rev (py_suffix (with_low_ace ?fl) 5) = take 5 (rev ?fl)"
    by (simp only: py_suffix_low_ace[OF fw fn])
  show ?thesis
  proof (cases "top_run (seq_numbers ?fl)")
    case None
    then have "\<not> has_run (seq_numbers ?fl)" by (simp add: top_run_None)
    then show ?thesis using r None tk by (simp add: Q combo_fields sn)
  next
    case (Some lo)
    then have "has_run (seq_numbers ?fl)" using top_run_None[of "seq_numbers ?fl"] by simp
    then show ?thesis using r Some by (simp add: Q combo_fields sn)
  qed
qed

text \<open>
  The theorem at \<open>As/2s/3s/4s/9s/Ks/Kh\<close>, a flush although the group holds a pair of
  kings, and at \<open>5s/2s/3s/4s/As/Kd/Kh\<close>, a straight flush from five down to the ace.
\<close>

theorem flush_suit_selection_witness:
  "(\<exists>r. classify [table_card WA Spades, table_card W2 Spades, table_card W3 Spades,
                   table_card W4 Spades, table_card W9 Spades, table_card WK Spades,
                   table_card WK Hearts] = Inr r \<and>
        combo_type r = Some FLUSH \<and>
        cards r = [table_card WA Spades, table_card WK Spades, table_card W9 Spades,
                   table_card W4 Spades, table_card W3 Spades]) \<and>
   (\<exists>r. classify [table_card W5 Spades, table_card W2 Spades, table_card W3 Spades,
                   table_card W4 Spades, table_card WA Spades, table_card WK Diamonds,
                   table_card WK Hearts] = Inr r \<and>
        combo_type r = Some STRAIGHT_FLUSH \<and>
        cards r = [table_card W5 Spades, table_card W4 Spades, table_card W3 Spades,
                   table_card W2 Spades, table_card W1 Spades])"
  (is "(\<exists>r. classify ?g1 = Inr r \<and> _ \<and> cards r = ?c1) \<and> (\<exists>r. classify ?g2 = Inr r \<and> _ \<and> cards r = ?c2)")
proof -
  have v1: "valid_group ?g1" and v2: "valid_group ?g2"
    by (simp_all add: valid_group_def concrete_def table_card_def)
  have s1: "5 \<le> length (filter (\<lambda>c. suit c = Some Spades) ?g1)"
    and s2: "5 \<le> length (filter (\<lambda>c. suit c = Some Spades) ?g2)"
    by (simp_all add: table_card_def)
  have h1: "\<not> has_run (seq_numbers (filter (\<lambda>c. suit c = Some Spades) ?g1))" by code_simp
  have h2: "has_run (seq_numbers (filter (\<lambda>c. suit c = Some Spades) ?g2))" by code_simp
  have c1: "take 5 (rev (sort_cards (filter (\<lambda>c. suit c = Some Spades) ?g1))) = ?c1" by code_simp
  have c2: "run_cards (with_low_ace (sort_cards (filter (\<lambda>c. suit c = Some Spades) ?g2)))
              (the (top_run (seq_numbers (filter (\<lambda>c. suit c = Some Spades) ?g2)))) = ?c2"
    by code_simp
  show ?thesis
    using flush_suit_selection[OF v1 s1] flush_suit_selection[OF v2 s2] h1 h2 c1 c2
    by (simp only: if_True if_False)
qed

section \<open>Two three-of-a-kinds\<close>

text \<open>
  Claim C5. A valid group of seven cards that holds three cards of weight number \<open>a\<close>
  and three of a higher number \<open>b\<close>, with no suit five times (a four of a kind cannot
  occur beside two triples in seven cards), is a full house: its first three cards are
  the three cards of number \<open>b\<close>, and its pair is two cards of the triple of number
  \<open>a\<close> (the first two of them in the sorted group).
\<close>

theorem two_triples_full_house:
  assumes v: "valid_group g" and n7: "length g = 7" and ab: "a < b"
    and la: "length (filter (\<lambda>c. card_number c = a) g) = 3"
    and lb: "length (filter (\<lambda>c. card_number c = b) g) = 3"
    and nf: "\<forall>s. length (filter (\<lambda>c. suit c = Some s) g) < 5"
  shows "\<exists>r. classify g = Inr r \<and> combo_type r = Some FULL_HOUSE \<and>
           take 3 (cards r) = filter (\<lambda>c. card_number c = b) (sort_cards g) \<and>
           drop 3 (cards r) = take 2 (filter (\<lambda>c. card_number c = a) (sort_cards g)) \<and>
           length (drop 3 (cards r)) = 2"
proof -
  let ?xs = "sort_cards g"
  let ?A = "filter (\<lambda>c. card_number c = a) ?xs" and ?B = "filter (\<lambda>c. card_number c = b) ?xs"
  note V = valid_groupD[OF v]
  have xne: "?xs \<noteq> []" using V(6) by (simp add: sort_cards_Nil)
  have xc: "\<forall>c \<in> set ?xs. concrete c" using V(3) by (simp add: sort_cards_set)
  have w: "\<forall>c \<in> set ?xs. weight c \<noteq> None" using xc by (simp add: concrete_def)
  have s: "sorted (map card_number ?xs)" by (rule sort_cards_sorted)
  have xl: "length ?xs = 7" using n7 by (simp add: sort_cards_length)
  have lA: "length ?A = 3" and lB: "length ?B = 3"
    using la lb by (simp_all add: length_filter_sort_cards)
  have other: "u = a \<or> u = b" if "3 \<le> length (filter (\<lambda>c. card_number c = u) ?xs)" for u
  proof (rule ccontr)
    assume "\<not> (u = a \<or> u = b)"
    then have "length ?A + length ?B + length (filter (\<lambda>c. card_number c = u) ?xs) \<le> length ?xs"
      using ab by (intro length_filter_three_values) auto
    then show False using lA lB that xl by simp
  qed
  have nofl: "\<not> five_or_more (S_of ?xs)"
  proof
    assume "five_or_more (S_of ?xs)"
    then obtain c where c: "c \<in> set ?xs" "5 \<le> count_cards ?xs (s_card c)"
      using five_or_more_iff[OF xne] by blast
    obtain su where su: "suit c = Some su" using xc c(1) by (auto simp: concrete_def)
    have "5 \<le> length (filter (\<lambda>y. suit y = Some su) g)"
      using c(2) su by (simp add: count_s_card length_filter_sort_cards)
    then show False using nf by (metis not_less)
  qed
  have k4: "weight_keys ?xs 4 = []"
  proof (rule ccontr)
    assume "weight_keys ?xs 4 \<noteq> []"
    then obtain k where k: "k \<in> set (weight_keys ?xs 4)" by (cases "weight_keys ?xs 4") auto
    have l4: "length (filter (\<lambda>x. card_number x = card_number k) ?xs) = 4"
      using weight_keys_props(4)[OF w k] .
    then have "card_number k = a \<or> card_number k = b" using other[of "card_number k"] by simp
    then show False using l4 lA lB by auto
  qed
  let ?l = "weight_keys ?xs 3"
  have "?A \<noteq> []" "?B \<noteq> []" using lA lB by auto
  then obtain ca cb where ca: "ca \<in> set ?xs" "card_number ca = a"
    and cb: "cb \<in> set ?xs" "card_number cb = b"
    unfolding filter_empty_conv by blast
  have ka: "w_card ca \<in> set ?l" using weight_keys_intro[OF w ca(1)] lA ca(2) by simp
  have kb: "w_card cb \<in> set ?l" using weight_keys_intro[OF w cb(1)] lB cb(2) by simp
  have sub: "card_number k = a \<or> card_number k = b" if "k \<in> set ?l" for k
    using weight_keys_props(4)[OF w that] other[of "card_number k"] by simp
  have "set (map card_number ?l) = {a, b}"
  proof
    show "set (map card_number ?l) \<subseteq> {a, b}" using sub by auto
    have "a \<in> set (map card_number ?l)" using ka ca(2) by (metis image_eqI set_map w_card_number)
    moreover have "b \<in> set (map card_number ?l)" using kb cb(2) by (metis image_eqI set_map w_card_number)
    ultimately show "{a, b} \<subseteq> set (map card_number ?l)" by simp
  qed
  then have nums: "map card_number ?l = [a, b]"
    using strict_sorted_two[OF weight_keys_sorted[OF w s] _ ab] by simp
  then have l2: "length ?l = 2" by (metis length_map length_Cons list.size(3) numeral_2_eq_2)
  have n0: "card_number (?l ! 0) = a" and n1: "card_number (?l ! Suc 0) = b"
  proof -
    have "map card_number ?l ! 0 = a" "map card_number ?l ! Suc 0 = b" by (simp_all add: nums)
    then show "card_number (?l ! 0) = a" "card_number (?l ! Suc 0) = b" using l2 by simp_all
  qed
  have lne: "?l \<noteq> []" using l2 by auto
  have lastl: "last ?l = ?l ! Suc 0" using l2 last_conv_nth[OF lne] by simp
  have m0: "?l ! 0 \<in> set ?l" and m1: "?l ! Suc 0 \<in> set ?l" using l2 by simp_all
  have t3: "three (W_of ?xs) = Some (?l ! Suc 0)" and t2: "two (W_of ?xs) = Some (?l ! 0)"
    and t4: "four (W_of ?xs) = None"
    using k4 l2 lne lastl by (simp_all add: W_of_fields[OF w])
  have F3: "filter (\<lambda>x. card_eq x (?l ! Suc 0)) ?xs = ?B"
    using weight_keys_props(3)[OF w m1] n1 by simp
  have F2: "filter (\<lambda>x. card_eq x (?l ! 0)) ?xs = ?A"
    using weight_keys_props(3)[OF w m0] n0 by simp
  have r: "classify g = Inr (get_full_house (new_combo ?xs (W_of ?xs) (S_of ?xs) (Q_of ?xs)))"
    using classify_no_flush[OF V(6) V(3) nofl] t3 t2 t4 by simp
  have cs: "cards (get_full_house (new_combo ?xs (W_of ?xs) (S_of ?xs) (Q_of ?xs))) = ?B @ take 2 ?A"
    by (simp add: combo_fields t3 t2 F3 F2)
  show ?thesis using r cs lA lB by (simp add: combo_fields)
qed

text \<open>The theorem at \<open>3c/3d/3h/7c/7d/7h/2s\<close>: sevens full of threes.\<close>

theorem two_triples_full_house_witness:
  "\<exists>r. classify [table_card W3 Clubs, table_card W3 Diamonds, table_card W3 Hearts,
                  table_card W7 Clubs, table_card W7 Diamonds, table_card W7 Hearts,
                  table_card W2 Spades] = Inr r \<and>
       combo_type r = Some FULL_HOUSE \<and>
       cards r = [table_card W7 Clubs, table_card W7 Diamonds, table_card W7 Hearts,
                  table_card W3 Clubs, table_card W3 Diamonds]"
  (is "\<exists>r. classify ?g = Inr r \<and> _ \<and> cards r = ?cs")
proof -
  have v: "valid_group ?g" by (simp add: valid_group_def concrete_def table_card_def)
  have n7: "length ?g = 7" by simp
  have la: "length (filter (\<lambda>c. card_number c = 2) ?g) = 3"
    and lb: "length (filter (\<lambda>c. card_number c = 6) ?g) = 3"
    by (simp_all add: table_card_def card_number_def)
  have nf: "\<forall>s. length (filter (\<lambda>c. suit c = Some s) ?g) < 5"
  proof
    fix s show "length (filter (\<lambda>c. suit c = Some s) ?g) < 5"
      by (cases s) (simp_all add: table_card_def)
  qed
  have e3: "filter (\<lambda>c. card_number c = 6) (sort_cards ?g) =
            [table_card W7 Clubs, table_card W7 Diamonds, table_card W7 Hearts]" by code_simp
  have e2: "take 2 (filter (\<lambda>c. card_number c = 2) (sort_cards ?g)) =
            [table_card W3 Clubs, table_card W3 Diamonds]" by code_simp
  obtain r where r: "classify ?g = Inr r" "combo_type r = Some FULL_HOUSE"
    "take 3 (cards r) = filter (\<lambda>c. card_number c = 6) (sort_cards ?g)"
    "drop 3 (cards r) = take 2 (filter (\<lambda>c. card_number c = 2) (sort_cards ?g))"
    using two_triples_full_house[OF v n7 _ la lb nf] by auto
  have "cards r = take 3 (cards r) @ drop 3 (cards r)" by simp
  then have "cards r = ?cs" unfolding r(3) r(4) e3 e2 by simp
  then show ?thesis using r(1,2) by blast
qed

section \<open>The wheel\<close>

text \<open>
  Claim C4. In a valid group that holds an ace, a two, a three, a four and a five but no
  six, the sequence analyzer finds five in a row with the ace as the lowest card: the
  five cards have the weight numbers 4, 3, 2, 1, 0, and the last of them is the copy of
  the (last) ace, with weight \<open>'1'\<close> (number 0) and the suit and \<open>in_hand\<close> mark of
  that ace. When no suit occurs five times, the classification is this straight, and it
  is less than every straight from six down to two.
\<close>

theorem wheel_straight:
  assumes v: "valid_group g" and wheel: "{1, 2, 3, 4, 13} \<subseteq> card_number ` set g"
    and nosix: "5 \<notin> card_number ` set g"
  shows "\<exists>sq oc. Sequence_init (sort_cards g) = Inr sq \<and> five_in_a_row sq \<and>
           order_cards sq = Some oc \<and>
           map card_number oc = [4, 3, 2, 1, 0] \<and> oc ! 4 = low_ace (sort_cards g) \<and>
           ((\<forall>s. length (filter (\<lambda>c. suit c = Some s) g) < 5) \<longrightarrow>
              (\<exists>r. classify g = Inr r \<and> combo_type r = Some STRAIGHT \<and> cards r = oc \<and>
                   (\<forall>b. six_high_straight b \<longrightarrow>
                         combo_lt r b \<and> \<not> combo_gt r b \<and> \<not> combo_eq r b)))"
proof -
  let ?xs = "sort_cards g"
  let ?oc = "run_cards (with_low_ace ?xs) 0"
  note V = valid_groupD[OF v]
  have xne: "?xs \<noteq> []" using V(6) by (simp add: sort_cards_Nil)
  have xc: "\<forall>c \<in> set ?xs. concrete c" using V(3) by (simp add: sort_cards_set)
  have w: "\<forall>c \<in> set ?xs. weight c \<noteq> None" using xc by (simp add: concrete_def)
  have s: "sorted (map card_number ?xs)" by (rule sort_cards_sorted)
  have x7: "length ?xs \<le> 7" using V(2) by (simp add: sort_cards_length)
  have N: "card_number ` set ?xs = card_number ` set g" by (simp add: sort_cards_set)
  have z: "0 \<notin> card_number ` set ?xs" using no_number_zero[OF V(3) V(4)] N by simp
  have tr: "top_run (seq_numbers ?xs) = Some 0"
    using wheel_top_run[OF x7 z] wheel nosix unfolding N by simp
  note Q = Q_of_fields[OF xne xc]
  have run: "run_from (card_number ` set (with_low_ace ?xs)) 0"
    using tr by (simp add: top_run_Some with_low_ace_numbers[OF w])
  have "rev [0..<0 + 5] = [4, 3, 2, 1, 0::nat]" by code_simp
  then have nums: "map card_number ?oc = [4, 3, 2, 1, 0]"
    using run_cards_numbers[OF run] by simp
  have ace: "13 \<in> card_number ` set ?xs" using wheel N by simp
  have wl: "with_low_ace ?xs = low_ace ?xs # ?xs" using with_low_ace_low_ace[OF w ace] .
  have "filter (\<lambda>c. card_number c = 0) ?xs = []" using z by (auto simp: filter_empty_conv)
  then have f0: "filter (\<lambda>c. card_number c = 0) (with_low_ace ?xs) = [low_ace ?xs]"
    unfolding wl by (simp add: low_ace_def card_number_def)
  have "?oc ! 4 = last (filter (\<lambda>c. card_number c = 0) (with_low_ace ?xs))"
    unfolding run_cards_def \<open>rev [0..<0 + 5] = [4, 3, 2, 1, 0::nat]\<close> by simp
  then have o4: "?oc ! 4 = low_ace ?xs" unfolding f0 by simp
  have lowc: "\<forall>c \<in> set (with_low_ace ?xs). concrete c" using with_low_ace_concrete[OF xc] .
  have ocw: "\<forall>c \<in> set ?oc. weight c \<noteq> None"
    using run_cards_subset[OF run] lowc by (auto simp: concrete_def)
  have cls: "\<exists>r. classify g = Inr r \<and> combo_type r = Some STRAIGHT \<and> cards r = ?oc \<and>
                   (\<forall>b. six_high_straight b \<longrightarrow>
                         combo_lt r b \<and> \<not> combo_gt r b \<and> \<not> combo_eq r b)"
    if nf: "\<forall>s. length (filter (\<lambda>c. suit c = Some s) g) < 5"
  proof -
    have "\<forall>s. length (filter (\<lambda>c. suit c = Some s) ?xs) < 5"
      using nf by (simp add: length_filter_sort_cards)
    then have nofl: "\<not> five_or_more (S_of ?xs)" using no_five_or_more[OF xne xc] by simp
    have five: "5 \<le> card (card_number ` set ?xs)" using wheel_five_numbers wheel N by simp
    have n4: "four (W_of ?xs) = None" using many_numbers_no_four[OF w x7 five] .
    have nfh: "\<not> (three (W_of ?xs) \<noteq> None \<and> two (W_of ?xs) \<noteq> None)"
      using many_numbers_no_full_house[OF w s x7 five] .
    let ?r = "get_straight (new_combo ?xs (W_of ?xs) (S_of ?xs) (Q_of ?xs))"
    have fr: "five_in_a_row (Q_of ?xs)" using tr by (simp add: Q)
    have r: "classify g = Inr ?r"
      using classify_branches(3)[OF V(6) V(3) nofl n4 nfh fr] .
    have t: "combo_type ?r = Some STRAIGHT" and cr: "cards ?r = ?oc"
      using tr by (simp_all add: combo_fields Q)
    have "combo_lt ?r b \<and> \<not> combo_gt ?r b \<and> \<not> combo_eq ?r b" if "six_high_straight b" for b
      using that straight_below_six_high[OF t, of b] nums ocw
      by (simp add: six_high_straight_def cr list_all_iff)
    then show ?thesis using r t cr by blast
  qed
  show ?thesis using Q(1) Q(2) Q(3) tr nums o4 cls by auto
qed

text \<open>
  The theorem at \<open>As/2c/3d/4h/5s\<close> with the ace in the hand: the fifth card of the
  straight is the ace of spades as a \<open>'1'\<close>, marked \<open>in_hand\<close>, and the straight is
  less than the one classified from \<open>6s/5c/4d/3h/2s\<close>.
\<close>

theorem wheel_straight_witness:
  "\<exists>sq oc. Sequence_init (sort_cards [hand_card WA Spades, table_card W2 Clubs,
                  table_card W3 Diamonds, table_card W4 Hearts, table_card W5 Spades]) = Inr sq \<and>
      five_in_a_row sq \<and> order_cards sq = Some oc \<and>
      map card_number oc = [4, 3, 2, 1, 0] \<and> oc ! 4 = hand_card W1 Spades \<and>
      (\<exists>r. classify [hand_card WA Spades, table_card W2 Clubs, table_card W3 Diamonds,
                      table_card W4 Hearts, table_card W5 Spades] = Inr r \<and>
           combo_type r = Some STRAIGHT \<and> cards r = oc \<and>
           combo_lt r (projr (classify [table_card W6 Spades, table_card W5 Clubs,
                                        table_card W4 Diamonds, table_card W3 Hearts,
                                        table_card W2 Spades])))"
  (is "\<exists>sq oc. Sequence_init (sort_cards ?g) = Inr sq \<and> _ \<and> _ \<and> _ \<and> _ \<and>
         (\<exists>r. _ \<and> _ \<and> _ \<and> combo_lt r ?six)")
proof -
  have v: "valid_group ?g"
    by (simp add: valid_group_def concrete_def table_card_def hand_card_def)
  have wheel: "{1, 2, 3, 4, 13} \<subseteq> card_number ` set ?g"
    and nosix: "5 \<notin> card_number ` set ?g"
    by (simp_all add: table_card_def hand_card_def card_number_def)
  have nf: "\<forall>s. length (filter (\<lambda>c. suit c = Some s) ?g) < 5"
  proof
    fix s show "length (filter (\<lambda>c. suit c = Some s) ?g) < 5"
      by (cases s) (simp_all add: table_card_def hand_card_def)
  qed
  have la: "low_ace (sort_cards ?g) = hand_card W1 Spades" by code_simp
  have s1: "combo_type ?six = Some STRAIGHT" by code_simp
  have s2: "map card_number (cards ?six) = [5, 4, 3, 2, 1]" by code_simp
  have s3: "list_all (\<lambda>c. weight c \<noteq> None) (cards ?six)" by code_simp
  have six: "six_high_straight ?six" using s1 s2 s3 by (simp only: six_high_straight_def simp_thms)
  from wheel_straight[OF v wheel nosix]
  obtain sq oc where a: "Sequence_init (sort_cards ?g) = Inr sq" "five_in_a_row sq"
    "order_cards sq = Some oc" "map card_number oc = [4, 3, 2, 1, 0]"
    "oc ! 4 = low_ace (sort_cards ?g)"
    and b: "(\<forall>s. length (filter (\<lambda>c. suit c = Some s) ?g) < 5) \<longrightarrow>
              (\<exists>r. classify ?g = Inr r \<and> combo_type r = Some STRAIGHT \<and> cards r = oc \<and>
                   (\<forall>b. six_high_straight b \<longrightarrow>
                         combo_lt r b \<and> \<not> combo_gt r b \<and> \<not> combo_eq r b))"
    by (elim exE conjE)
  obtain r where r: "classify ?g = Inr r" "combo_type r = Some STRAIGHT" "cards r = oc"
    "\<forall>b. six_high_straight b \<longrightarrow> combo_lt r b \<and> \<not> combo_gt r b \<and> \<not> combo_eq r b"
    using b[rule_format, OF nf[rule_format]] by (elim exE conjE)
  have "combo_lt r ?six" using r(4) six by blast
  have o4: "oc ! 4 = hand_card W1 Spades" using a(5) la by simp
  show ?thesis
    by (intro exI[of _ sq] exI[of _ oc] exI[of _ r] conjI a(1) a(2) a(3) a(4) o4 r(1) r(2) r(3)
          \<open>combo_lt r ?six\<close>)
qed

section \<open>The contribution flags\<close>

lemma new_combo_parts:
  "init_cards (get_straight_flush (new_combo xs w s q)) = xs"
  "w_repeats (get_straight_flush (new_combo xs w s q)) = w"
  "w_repeats (get_four_of_a_kind (new_combo xs w s q)) = w"
  "w_repeats (get_full_house (new_combo xs w s q)) = w"
  "w_repeats (get_flush (new_combo xs w s q)) = w"
  "w_repeats (get_straight (new_combo xs w s q)) = w"
  "w_repeats (get_three_of_a_kind (new_combo xs w s q)) = w"
  "w_repeats (get_two_pairs (new_combo xs w s q)) = w"
  "w_repeats (get_one_pair (new_combo xs w s q)) = w"
  "w_repeats (get_high_card (new_combo xs w s q)) = w"
  by (simp_all add: get_straight_flush_def get_four_of_a_kind_def get_full_house_def
        get_flush_def get_straight_def get_three_of_a_kind_def get_two_pairs_def
        get_one_pair_def get_high_card_def new_combo_def Let_def)

lemma new_combo_no_flags:
  "no_flags (get_straight_flush (new_combo xs w s q))"
  "no_flags (get_four_of_a_kind (new_combo xs w s q))"
  "no_flags (get_full_house (new_combo xs w s q))"
  "no_flags (get_flush (new_combo xs w s q))"
  "no_flags (get_straight (new_combo xs w s q))"
  "no_flags (get_three_of_a_kind (new_combo xs w s q))"
  "no_flags (get_two_pairs (new_combo xs w s q))"
  "no_flags (get_one_pair (new_combo xs w s q))"
  "no_flags (get_high_card (new_combo xs w s q))"
  by (simp_all add: no_flags_def get_straight_flush_def get_four_of_a_kind_def get_full_house_def
        get_flush_def get_straight_def get_three_of_a_kind_def get_two_pairs_def
        get_one_pair_def get_high_card_def new_combo_def Let_def)

text \<open>The result of the classification with the attributes the contribution pass reads.\<close>

lemma classify_kinds:
  assumes gne: "g \<noteq> []" and c: "\<forall>c \<in> set g. concrete c"
  shows "\<exists>r. classify g = Inr r \<and> no_flags r \<and> init_cards r = sort_cards g \<and>
           w_repeats r = W_of (sort_cards g) \<and>
           (combo_type r = Some FULL_HOUSE \<longrightarrow>
              three (W_of (sort_cards g)) \<noteq> None \<and> two (W_of (sort_cards g)) \<noteq> None \<and>
              cards r = filter (\<lambda>x. card_eq x (the (three (W_of (sort_cards g))))) (sort_cards g) @
                        take 2 (filter (\<lambda>x. card_eq x (the (two (W_of (sort_cards g))))) (sort_cards g))) \<and>
           (combo_type r = Some TWO_PAIRS \<longrightarrow>
              double_two (W_of (sort_cards g)) \<noteq> None \<and>
              cards r = get_other_cards
                (drop 2 (filter (\<lambda>x. card_in x (the (double_two (W_of (sort_cards g))))) (sort_cards g)) @
                 take 2 (filter (\<lambda>x. card_in x (the (double_two (W_of (sort_cards g))))) (sort_cards g)))
                (sort_cards g))"
proof -
  let ?xs = "sort_cards g"
  let ?fl = "filter (\<lambda>x. card_eq x (the (flush_card (S_of ?xs)))) ?xs"
  let ?c = "new_combo ?xs (W_of ?xs) (S_of ?xs) (Q_of ?xs)"
  let ?cf = "new_combo ?xs (W_of ?xs) (S_of ?xs) (Q_of ?fl)"
  define b5 where "b5 = five_or_more (S_of ?xs)"
  define b4 where "b4 = (four (W_of ?xs) \<noteq> None)"
  define bfh where "bfh = (three (W_of ?xs) \<noteq> None \<and> two (W_of ?xs) \<noteq> None)"
  define bs where "bs = five_in_a_row (Q_of ?xs)"
  define b3 where "b3 = (three (W_of ?xs) \<noteq> None)"
  define b22 where "b22 = (double_two (W_of ?xs) \<noteq> None)"
  define b2 where "b2 = (two (W_of ?xs) \<noteq> None)"
  define bq where "bq = five_in_a_row (Q_of ?fl)"
  define P where "P = (\<lambda>r. no_flags r \<and> init_cards r = ?xs \<and> w_repeats r = W_of ?xs \<and>
           (combo_type r = Some FULL_HOUSE \<longrightarrow> bfh \<and>
              cards r = filter (\<lambda>x. card_eq x (the (three (W_of ?xs)))) ?xs @
                        take 2 (filter (\<lambda>x. card_eq x (the (two (W_of ?xs)))) ?xs)) \<and>
           (combo_type r = Some TWO_PAIRS \<longrightarrow> b22 \<and>
              cards r = get_other_cards
                (drop 2 (filter (\<lambda>x. card_in x (the (double_two (W_of ?xs)))) ?xs) @
                 take 2 (filter (\<lambda>x. card_in x (the (double_two (W_of ?xs)))) ?xs)) ?xs))"
  have U: "classify g =
     Inr (if \<not> b5
          then (if b4 then get_four_of_a_kind ?c
                else if bfh then get_full_house ?c
                else if bs then get_straight ?c
                else if b3 then get_three_of_a_kind ?c
                else if b22 then get_two_pairs ?c
                else if b2 then get_one_pair ?c
                else get_high_card ?c)
          else (if bq then get_straight_flush ?cf else get_flush ?cf))"
    unfolding b5_def b4_def bfh_def bs_def b3_def b22_def b2_def bq_def
    using classify_unfold[OF gne c, unfolded Let_def] .
  have p1: "P (get_straight_flush ?cf)" "P (get_flush ?cf)" "P (get_four_of_a_kind ?c)"
    "P (get_straight ?c)" "P (get_three_of_a_kind ?c)" "P (get_one_pair ?c)" "P (get_high_card ?c)"
    unfolding P_def
    by (simp_all add: combo_fields combo_init_cards new_combo_parts new_combo_no_flags combo_types)
  have p2: "bfh \<Longrightarrow> P (get_full_house ?c)"
    unfolding P_def
    by (simp add: combo_fields combo_init_cards new_combo_parts new_combo_no_flags combo_types)
  have p3: "b22 \<Longrightarrow> P (get_two_pairs ?c)"
    unfolding P_def
    by (simp add: combo_fields combo_init_cards new_combo_parts new_combo_no_flags combo_types)
  have "\<exists>r. classify g = Inr r \<and> P r"
    unfolding U using p1 p2 p3 by simp
  then show ?thesis unfolding P_def bfh_def b22_def by blast
qed

text \<open>The contribution pass sets one flag and leaves the kind and the cards.\<close>

lemma half_nominal_finder_flags:
  assumes "no_flags c"
  shows "one_flag (half_nominal_finder [a, b] c)"
    and "combo_type (half_nominal_finder [a, b] c) = combo_type c"
    and "cards (half_nominal_finder [a, b] c) = cards c"
    and "is_real (half_nominal_finder [a, b] c) = (length (filter (list_ex in_hand) [a, b]) = 2)"
    and "is_half_nominal (half_nominal_finder [a, b] c) = (length (filter (list_ex in_hand) [a, b]) = 1)"
    and "is_nominal (half_nominal_finder [a, b] c) = (length (filter (list_ex in_hand) [a, b]) = 0)"
  using assms by (simp_all add: half_nominal_finder_def one_flag_def no_flags_def Let_def)

lemma check_nominal_combo_flags:
  assumes "no_flags c"
  shows "one_flag (check_nominal_combo c)"
    and "combo_type (check_nominal_combo c) = combo_type c"
    and "cards (check_nominal_combo c) = cards c"
proof -
  show "one_flag (check_nominal_combo c)"
    using half_nominal_finder_flags(1)[OF assms] assms
    by (simp add: check_nominal_combo_def Let_def one_flag_def no_flags_def)
  show "combo_type (check_nominal_combo c) = combo_type c"
    using half_nominal_finder_flags(2)[OF assms]
    by (simp add: check_nominal_combo_def Let_def)
  show "cards (check_nominal_combo c) = cards c"
    using half_nominal_finder_flags(3)[OF assms]
    by (simp add: check_nominal_combo_def Let_def)
qed

lemma Combo_init_table_hand:
  "snd (Combo_init st (table_hand_check t h)) =
     (case classify (st t @ st h) of Inl e \<Rightarrow> Inl e | Inr c \<Rightarrow> Inr (check_nominal_combo c))"
  by (simp add: Combo_init_def table_hand_check_def classify_def split: sum.splits)

text \<open>
  From a table and a hand with the contribution check: the classification leaves the
  three flags unset, and the pass sets exactly one of them and changes neither the kind
  nor the cards.
\<close>

lemma contribution_flags_set:
  assumes v: "valid_group (st t @ st h)"
  shows "\<exists>c0 c. classify (st t @ st h) = Inr c0 \<and> no_flags c0 \<and>
           snd (Combo_init st (table_hand_check t h)) = Inr c \<and> one_flag c \<and>
           combo_type c = combo_type c0 \<and> cards c = cards c0"
proof -
  let ?g = "st t @ st h"
  note D = valid_groupD[OF v]
  from classify_kinds[OF D(6) D(3)] obtain c0 where
    r: "classify ?g = Inr c0" and nf: "no_flags c0" by blast
  note F = check_nominal_combo_flags[OF nf]
  have s: "snd (Combo_init st (table_hand_check t h)) = Inr (check_nominal_combo c0)"
    by (simp add: Combo_init_table_hand r)
  show ?thesis by (intro exI[of _ c0] exI[of _ "check_nominal_combo c0"] conjI r nf s F)
qed

text \<open>
  For two pairs the pass looks at the two pairs of the combination: both with a card of
  the hand give \<open>is_real\<close>, one gives \<open>is_half_nominal\<close>, none gives \<open>is_nominal\<close>.
\<close>

lemma contribution_flags_two_pairs:
  assumes nf: "no_flags r" and t: "combo_type r = Some TWO_PAIRS"
  shows "is_real (check_nominal_combo r) = (groups_in_hand r = 2)"
    and "is_half_nominal (check_nominal_combo r) = (groups_in_hand r = 1)"
    and "is_nominal (check_nominal_combo r) = (groups_in_hand r = 0)"
proof -
  have e: "check_nominal_combo r =
             half_nominal_finder [take 2 (cards r), take 2 (drop 2 (cards r))] r"
    using t by (simp add: check_nominal_combo_def Let_def combo_types)
  have g: "groups_in_hand r =
             length (filter (list_ex in_hand) [take 2 (cards r), take 2 (drop 2 (cards r))])"
    using t by (simp add: groups_in_hand_def combination_groups_def combo_types)
  show "is_real (check_nominal_combo r) = (groups_in_hand r = 2)"
    unfolding e g by (rule half_nominal_finder_flags(4)[OF nf])
  show "is_half_nominal (check_nominal_combo r) = (groups_in_hand r = 1)"
    unfolding e g by (rule half_nominal_finder_flags(5)[OF nf])
  show "is_nominal (check_nominal_combo r) = (groups_in_hand r = 0)"
    unfolding e g by (rule half_nominal_finder_flags(6)[OF nf])
qed

text \<open>
  For a full house whose pair has a weight that occurs twice in the group, the cards that
  the pass looks at are the three and the pair of the combination, and the flags follow
  the groups of the combination.
\<close>

lemma contribution_flags_full_house:
  assumes n: "5 \<le> length g" and c: "\<forall>c \<in> set g. concrete c"
    and r: "classify g = Inr r" and t: "combo_type r = Some FULL_HOUSE"
    and p: "length (filter (\<lambda>x. card_number x = card_number (cards r ! 3)) g) = 2"
  shows "is_real (check_nominal_combo r) = (groups_in_hand r = 2)"
    and "is_half_nominal (check_nominal_combo r) = (groups_in_hand r = 1)"
    and "is_nominal (check_nominal_combo r) = (groups_in_hand r = 0)"
proof -
  let ?xs = "sort_cards g"
  let ?k3 = "the (three (W_of ?xs))" and ?k2 = "the (two (W_of ?xs))"
  let ?T = "filter (\<lambda>x. card_eq x ?k3) ?xs"
  let ?F = "filter (\<lambda>x. card_eq x ?k2) ?xs"
  have g0: "g \<noteq> []" using n by auto
  have w: "\<forall>c \<in> set ?xs. weight c \<noteq> None" using c by (auto simp: sort_cards_set concrete_def)
  from classify_kinds[OF g0 c] r t
  have nf: "no_flags r" and ic: "init_cards r = ?xs" and wr: "w_repeats r = W_of ?xs"
    and t3: "three (W_of ?xs) \<noteq> None" and t2: "two (W_of ?xs) \<noteq> None"
    and cs: "cards r = ?T @ take 2 ?F"
    by auto
  have k3: "?k3 \<in> set (weight_keys ?xs 3)" using three_key(3)[OF w t3] .
  have lT: "length ?T = 3" using weight_keys_props(3,4)[OF w k3] by simp
  obtain m where k2: "?k2 \<in> set (weight_keys ?xs m)" and m: "m = 3 \<or> m = 2"
    using two_key[OF w t2] by auto
  have F2: "?F = filter (\<lambda>x. card_number x = card_number ?k2) ?xs"
    and l2: "length ?F = m"
    using weight_keys_props(3,4)[OF w k2] by simp_all
  have "?F ! 0 \<in> set ?F" using l2 m by (intro nth_mem) auto
  then have "card_number (?F ! 0) = card_number ?k2" unfolding F2 by simp
  moreover have "cards r ! 3 = ?F ! 0" unfolding cs using lT l2 m by (auto simp: nth_append)
  ultimately have n3: "card_number (cards r ! 3) = card_number ?k2" by simp
  have "length ?F = 2" unfolding F2 using p unfolding n3 by (simp add: length_filter_sort_cards)
  then have cs': "cards r = ?T @ ?F" unfolding cs by simp
  have e: "check_nominal_combo r = half_nominal_finder [take 3 (cards r), drop 3 (cards r)] r"
    using t lT by (simp add: check_nominal_combo_def Let_def ic wr cs')
  have g: "groups_in_hand r =
             length (filter (list_ex in_hand) [take 3 (cards r), drop 3 (cards r)])"
    using t by (simp add: groups_in_hand_def combination_groups_def)
  show "is_real (check_nominal_combo r) = (groups_in_hand r = 2)"
    unfolding e g by (rule half_nominal_finder_flags(4)[OF nf])
  show "is_half_nominal (check_nominal_combo r) = (groups_in_hand r = 1)"
    unfolding e g by (rule half_nominal_finder_flags(5)[OF nf])
  show "is_nominal (check_nominal_combo r) = (groups_in_hand r = 0)"
    unfolding e g by (rule half_nominal_finder_flags(6)[OF nf])
qed

text \<open>
  Claim C7. From a table and a hand with the contribution check, the pass sets for a full
  house or two pairs \<open>is_real\<close> when both groups of the combination hold a card of the
  hand, \<open>is_half_nominal\<close> when one does and \<open>is_nominal\<close> when none does. For a full
  house the code does not look at the three and the pair of the combination: it looks at
  all cards of the table and the hand with their weights. With the table
  \<open>7c/7d/7h/3c/3d\<close> and the hand \<open>3h/2s\<close> the full house is \<open>7c 7d 7h 3c 3d\<close>; none of
  its five cards is a card of the hand, so that none of its two groups holds one, and the
  pass sets \<open>is_half_nominal\<close> where the claim gives \<open>is_nominal\<close>.
\<close>

theorem full_house_counts_hand_card_outside_combination:
  "map_sum id combo_type
     (snd (Combo_init
            (empty_store(0 := [table_card W7 Clubs, table_card W7 Diamonds, table_card W7 Hearts,
                               table_card W3 Clubs, table_card W3 Diamonds],
                         1 := [hand_card W3 Hearts, hand_card W2 Spades]))
            (table_hand_check 0 1))) = Inr (Some FULL_HOUSE) \<and>
   map_sum id cards
     (snd (Combo_init
            (empty_store(0 := [table_card W7 Clubs, table_card W7 Diamonds, table_card W7 Hearts,
                               table_card W3 Clubs, table_card W3 Diamonds],
                         1 := [hand_card W3 Hearts, hand_card W2 Spades]))
            (table_hand_check 0 1))) =
     Inr [table_card W7 Clubs, table_card W7 Diamonds, table_card W7 Hearts,
          table_card W3 Clubs, table_card W3 Diamonds] \<and>
   map_sum id groups_in_hand
     (snd (Combo_init
            (empty_store(0 := [table_card W7 Clubs, table_card W7 Diamonds, table_card W7 Hearts,
                               table_card W3 Clubs, table_card W3 Diamonds],
                         1 := [hand_card W3 Hearts, hand_card W2 Spades]))
            (table_hand_check 0 1))) = Inr 0 \<and>
   map_sum id is_half_nominal
     (snd (Combo_init
            (empty_store(0 := [table_card W7 Clubs, table_card W7 Diamonds, table_card W7 Hearts,
                               table_card W3 Clubs, table_card W3 Diamonds],
                         1 := [hand_card W3 Hearts, hand_card W2 Spades]))
            (table_hand_check 0 1))) = Inr True \<and>
   map_sum id is_nominal
     (snd (Combo_init
            (empty_store(0 := [table_card W7 Clubs, table_card W7 Diamonds, table_card W7 Hearts,
                               table_card W3 Clubs, table_card W3 Diamonds],
                         1 := [hand_card W3 Hearts, hand_card W2 Spades]))
            (table_hand_check 0 1))) = Inr False"
  by code_simp

section \<open>Classifying the five cards again\<close>

text \<open>
  Claim C6. For a valid group of five to seven distinct cards, the five cards of the
  combination, classified again as a group of their own, give a combination of the
  same kind with the same cards in the same order.
\<close>

theorem classification_round_trip:
  assumes "valid_group g"
  shows "\<exists>r r' t. classify g = Inr r \<and> combo_type r = Some t \<and>
                  classify (cards r) = Inr r' \<and> combo_type r' = Some t \<and> cards r' = cards r"
proof -
  obtain r t r' where r: "classify g = Inr r" and t: "combo_type r = Some t"
    and a: "classify (cards r) = Inr r'" "cards r' = cards r" "combo_type r' = Some t"
    using classify_valid[OF assms] by (elim exE conjE)
  then show ?thesis by (intro exI[of _ r] exI[of _ r'] exI[of _ t]) simp
qed

text \<open>
  The theorem at \<open>As/2c/3d/4h/5s/Kh/7c\<close>: the straight from five down to the low ace,
  whose last card is the copy of the ace with weight \<open>'1'\<close>, is a straight with the same
  five cards when it is classified again.
\<close>

theorem classification_round_trip_witness:
  "valid_group [table_card WA Spades, table_card W2 Clubs, table_card W3 Diamonds,
                table_card W4 Hearts, table_card W5 Spades, table_card WK Hearts,
                table_card W7 Clubs] \<and>
   (\<exists>r r'. classify [table_card WA Spades, table_card W2 Clubs, table_card W3 Diamonds,
                      table_card W4 Hearts, table_card W5 Spades, table_card WK Hearts,
                      table_card W7 Clubs] = Inr r \<and>
           combo_type r = Some STRAIGHT \<and>
           cards r = [table_card W5 Spades, table_card W4 Hearts, table_card W3 Diamonds,
                      table_card W2 Clubs, table_card W1 Spades] \<and>
           classify [table_card W5 Spades, table_card W4 Hearts, table_card W3 Diamonds,
                     table_card W2 Clubs, table_card W1 Spades] = Inr r' \<and>
           combo_type r' = Some STRAIGHT \<and>
           cards r' = [table_card W5 Spades, table_card W4 Hearts, table_card W3 Diamonds,
                       table_card W2 Clubs, table_card W1 Spades])"
  (is "valid_group ?g \<and> (\<exists>r r'. classify ?g = Inr r \<and> _ \<and> cards r = ?cs \<and> _)")
proof -
  have v: "valid_group ?g"
    by (simp add: valid_group_def concrete_def table_card_def)
  have ek: "map_sum id combo_type (classify ?g) = Inr (Some STRAIGHT)" by code_simp
  have ec: "map_sum id cards (classify ?g) = Inr ?cs" by code_simp
  obtain r r' t where r: "classify ?g = Inr r" and t: "combo_type r = Some t"
    and r': "classify (cards r) = Inr r'"
    and k: "combo_type r' = Some t" and c: "cards r' = cards r"
    using classification_round_trip[OF v] by (elim exE conjE)
  have k1: "combo_type r = Some STRAIGHT" using ek r by simp
  have k2: "t = STRAIGHT" using k1 t by simp
  have c1: "cards r = ?cs" using ec r by simp
  show ?thesis
    using v r r'[unfolded c1] k[unfolded k2] c k1 c1
    by (intro conjI exI[of _ r] exI[of _ r']) simp_all
qed

end
